(* ===== verification/Prelude.thy ===== *)
theory Prelude
  imports Main "HOL-Library.Word"
begin

text \<open>
  Shared vocabulary of the development: Rust's \<open>str\<close>, the string functions of Rust's
  standard library that the components call, bounded integer arithmetic, and the two
  generic interfaces (a text codec, a guarded state machine) that several components
  implement.

  A Rust \<open>char\<close> is a Unicode scalar value, here its code point as a \<open>nat\<close>; a Rust
  \<open>str\<close> is the list of its chars. \<open>str_len\<close> is the length in UTF-8 bytes, which is what
  \<open>str::len\<close> returns. \<open>lit\<close> turns an Isabelle string literal into a \<open>ustring\<close>.
\<close>

section \<open>Rust strings\<close>

type_synonym uchar = nat
type_synonym ustring = "uchar list"
type_synonym byte = "8 word"
type_synonym bytes = "byte list"

text \<open>The ASCII characters the components compare against.\<close>

abbreviation ch_slash :: uchar where "ch_slash \<equiv> 47"
abbreviation ch_star :: uchar where "ch_star \<equiv> 42"
abbreviation ch_question :: uchar where "ch_question \<equiv> 63"
abbreviation ch_lbracket :: uchar where "ch_lbracket \<equiv> 91"
abbreviation ch_rbracket :: uchar where "ch_rbracket \<equiv> 93"
abbreviation ch_backslash :: uchar where "ch_backslash \<equiv> 92"
abbreviation ch_caret :: uchar where "ch_caret \<equiv> 94"
abbreviation ch_minus :: uchar where "ch_minus \<equiv> 45"
abbreviation ch_plus :: uchar where "ch_plus \<equiv> 43"
abbreviation ch_dot :: uchar where "ch_dot \<equiv> 46"
abbreviation ch_colon :: uchar where "ch_colon \<equiv> 58"
abbreviation ch_comma :: uchar where "ch_comma \<equiv> 44"

definition lit :: "string \<Rightarrow> ustring" where
  "lit s = map of_char s"

lemma lit_simps [simp]:
  "lit [] = []"
  "lit (c # cs) = of_char c # lit cs"
  by (simp_all add: lit_def)

lemma lit_append [simp]: "lit (s @ t) = lit s @ lit t"
  by (simp add: lit_def)

lemma length_lit [simp]: "length (lit s) = length s"
  by (simp add: lit_def)

text \<open>Width of one char in UTF-8, and \<open>str::len\<close>.\<close>

definition utf8_width :: "uchar \<Rightarrow> nat" where
  "utf8_width c = (if c < 128 then 1 else if c < 2048 then 2 else if c < 65536 then 3 else 4)"

definition str_len :: "ustring \<Rightarrow> nat" where
  "str_len s = sum_list (map utf8_width s)"

lemma utf8_width_pos [simp]: "0 < utf8_width c"
  by (simp add: utf8_width_def)

lemma str_len_simps [simp]:
  "str_len [] = 0"
  "str_len (c # s) = utf8_width c + str_len s"
  "str_len (s @ t) = str_len s + str_len t"
  by (simp_all add: str_len_def)

lemma str_len_ge_length: "length s \<le> str_len s"
proof (induction s)
  case (Cons c s)
  have "Suc 0 \<le> utf8_width c" by (simp add: Suc_le_eq)
  with Cons show ?case by simp
qed simp

lemma str_len_0 [simp]: "str_len s = 0 \<longleftrightarrow> s = []"
  using str_len_ge_length [of s] by auto

text \<open>\<open>str::strip_prefix\<close>, \<open>starts_with\<close>, \<open>strip_suffix\<close> and \<open>ends_with\<close>.\<close>

fun strip_prefix :: "'a list \<Rightarrow> 'a list \<Rightarrow> 'a list option" where
  "strip_prefix [] s = Some s"
| "strip_prefix (p # ps) [] = None"
| "strip_prefix (p # ps) (c # s) = (if p = c then strip_prefix ps s else None)"

definition starts_with :: "'a list \<Rightarrow> 'a list \<Rightarrow> bool" where
  "starts_with p s = (strip_prefix p s \<noteq> None)"

definition strip_suffix :: "'a list \<Rightarrow> 'a list \<Rightarrow> 'a list option" where
  "strip_suffix p s = map_option rev (strip_prefix (rev p) (rev s))"

definition ends_with :: "'a list \<Rightarrow> 'a list \<Rightarrow> bool" where
  "ends_with p s = (strip_suffix p s \<noteq> None)"

lemma strip_prefix_Some_iff: "strip_prefix p s = Some r \<longleftrightarrow> s = p @ r"
  by (induction p s rule: strip_prefix.induct) auto

lemma strip_prefix_append [simp]: "strip_prefix p (p @ r) = Some r"
  by (simp add: strip_prefix_Some_iff)

lemma strip_suffix_Some_iff: "strip_suffix p s = Some r \<longleftrightarrow> s = r @ p"
proof
  assume "strip_suffix p s = Some r"
  then obtain r' where "rev s = rev p @ r'" "r = rev r'"
    by (auto simp: strip_suffix_def strip_prefix_Some_iff)
  then have "rev (rev s) = rev (rev p @ r')" by simp
  with \<open>r = rev r'\<close> show "s = r @ p" by simp
next
  assume "s = r @ p"
  then show "strip_suffix p s = Some r"
    by (simp add: strip_suffix_def)
qed

lemma strip_suffix_append [simp]: "strip_suffix p (r @ p) = Some r"
  by (simp add: strip_suffix_Some_iff)

lemma starts_with_iff: "starts_with p s \<longleftrightarrow> (\<exists>r. s = p @ r)"
  by (auto simp: starts_with_def strip_prefix_Some_iff)

lemma ends_with_iff: "ends_with p s \<longleftrightarrow> (\<exists>r. s = r @ p)"
  by (auto simp: ends_with_def strip_suffix_Some_iff)

lemma ends_with_single: "ends_with [c] s \<longleftrightarrow> s \<noteq> [] \<and> last s = c"
  by (cases s rule: rev_cases) (auto simp: ends_with_iff)

text \<open>
  \<open>str::split_once\<close> at the first occurrence of a char, and the pair of slices that
  \<open>rfind\<close> followed by \<open>&s[..i]\<close> and \<open>&s[i + 1..]\<close> gives.
\<close>

fun split_once :: "'a \<Rightarrow> 'a list \<Rightarrow> ('a list \<times> 'a list) option" where
  "split_once d [] = None"
| "split_once d (c # s) =
     (if c = d then Some ([], s)
      else map_option (\<lambda>(a, b). (c # a, b)) (split_once d s))"

definition rsplit_once :: "'a \<Rightarrow> 'a list \<Rightarrow> ('a list \<times> 'a list) option" where
  "rsplit_once d s = map_option (\<lambda>(a, b). (rev b, rev a)) (split_once d (rev s))"

lemma split_once_Some_iff:
  "split_once d s = Some (a, b) \<longleftrightarrow> s = a @ d # b \<and> d \<notin> set a"
proof (induction s arbitrary: a b)
  case (Cons c s)
  then show ?case by (cases a) auto
qed simp

lemma split_once_None_iff [simp]: "split_once d s = None \<longleftrightarrow> d \<notin> set s"
  by (induction s) auto

lemma rsplit_once_Some_iff:
  "rsplit_once d s = Some (a, b) \<longleftrightarrow> s = a @ d # b \<and> d \<notin> set b"
proof -
  have "rsplit_once d s = Some (a, b) \<longleftrightarrow> split_once d (rev s) = Some (rev b, rev a)"
    by (auto simp: rsplit_once_def)
  also have "\<dots> \<longleftrightarrow> rev s = rev b @ d # rev a \<and> d \<notin> set b"
    by (simp add: split_once_Some_iff)
  also have "rev s = rev b @ d # rev a \<longleftrightarrow> s = a @ d # b"
    by (metis append.assoc append_Cons append_Nil rev.simps(2) rev_append rev_rev_ident)
  finally show ?thesis .
qed

lemma rsplit_once_None_iff [simp]: "rsplit_once d s = None \<longleftrightarrow> d \<notin> set s"
  by (simp add: rsplit_once_def)

text \<open>\<open>str::split\<close> on a char: always at least one piece.\<close>

fun split_on :: "'a \<Rightarrow> 'a list \<Rightarrow> 'a list list" where
  "split_on d [] = [[]]"
| "split_on d (c # s) =
     (if c = d then [] # split_on d s
      else (case split_on d s of [] \<Rightarrow> [[c]] | p # ps \<Rightarrow> (c # p) # ps))"

lemma split_on_not_Nil [simp]: "split_on d s \<noteq> []"
  by (induction s) (auto split: list.splits)

text \<open>\<open>str::trim_end_matches\<close> on a char, \<open>str::trim\<close> and \<open>[T]::join\<close>.\<close>

definition trim_end_matches :: "'a \<Rightarrow> 'a list \<Rightarrow> 'a list" where
  "trim_end_matches d s = rev (dropWhile (\<lambda>c. c = d) (rev s))"

definition is_whitespace :: "uchar \<Rightarrow> bool" where
  "is_whitespace c \<longleftrightarrow>
     (9 \<le> c \<and> c \<le> 13) \<or> c = 32 \<or> c = 133 \<or> c = 160 \<or> c = 5760 \<or>
     (8192 \<le> c \<and> c \<le> 8202) \<or> c = 8232 \<or> c = 8233 \<or> c = 8239 \<or> c = 8287 \<or> c = 12288"

definition trim :: "ustring \<Rightarrow> ustring" where
  "trim s = rev (dropWhile is_whitespace (rev (dropWhile is_whitespace s)))"

lemma trim_id: "(s = [] \<or> \<not> is_whitespace (hd s) \<and> \<not> is_whitespace (last s)) \<Longrightarrow> trim s = s"
proof (cases s rule: rev_cases)
  case (snoc ys y)
  assume h: "s = [] \<or> \<not> is_whitespace (hd s) \<and> \<not> is_whitespace (last s)"
  with snoc have "dropWhile is_whitespace s = s" by (cases ys) auto
  with snoc h show ?thesis by (simp add: trim_def)
qed (simp add: trim_def)

lemma trim_end_matches_id: "s = [] \<or> last s \<noteq> d \<Longrightarrow> trim_end_matches d s = s"
  by (cases s rule: rev_cases) (auto simp: trim_end_matches_def)

lemma trim_end_matches_last: "trim_end_matches d s \<noteq> [] \<Longrightarrow> last (trim_end_matches d s) \<noteq> d"
  unfolding trim_end_matches_def
  by (metis (mono_tags, lifting) hd_dropWhile last_rev rev_is_Nil_conv)

fun join :: "'a list \<Rightarrow> 'a list list \<Rightarrow> 'a list" where
  "join sep [] = []"
| "join sep [p] = p"
| "join sep (p # q # ps) = p @ sep @ join sep (q # ps)"

lemma join_Cons: "ps \<noteq> [] \<Longrightarrow> join sep (p # ps) = p @ sep @ join sep ps"
  by (cases ps) auto

lemma join_append:
  "xs \<noteq> [] \<Longrightarrow> join sep (xs @ ys) = join sep xs @ (if ys = [] then [] else sep @ join sep ys)"
proof (induction xs)
  case (Cons x xs)
  then show ?case by (cases "xs = []") (auto simp: join_Cons)
qed simp

text \<open>Splitting what was joined gives the pieces back, when no piece holds the separator.\<close>

lemma split_on_no_sep: "d \<notin> set s \<Longrightarrow> split_on d s = [s]"
  by (induction s) auto

lemma split_on_append_sep: "d \<notin> set p \<Longrightarrow> split_on d (p @ d # s) = p # split_on d s"
  by (induction p) auto

lemma split_on_join:
  assumes "ps \<noteq> []" "\<And>p. p \<in> set ps \<Longrightarrow> d \<notin> set p"
  shows "split_on d (join [d] ps) = ps"
  using assms by (induction "[d]" ps rule: join.induct)
    (auto simp: split_on_no_sep split_on_append_sep)

lemma join_split_on [simp]: "join [d] (split_on d s) = s"
proof (induction s)
  case (Cons c s)
  obtain p ps where p: "split_on d s = p # ps" by (cases "split_on d s") auto
  show ?case
  proof (cases "c = d")
    case True
    with Cons p show ?thesis by (cases ps) auto
  next
    case False
    with Cons p show ?thesis by (cases ps) auto
  qed
qed simp

lemma split_on_pieces: "p \<in> set (split_on d s) \<Longrightarrow> d \<notin> set p"
  by (induction s arbitrary: p) (auto split: if_splits list.splits)

text \<open>Decimal digits and \<open>str::parse::<u8>\<close>: an optional plus sign, then digits.\<close>

definition is_digit :: "uchar \<Rightarrow> bool" where
  "is_digit c \<longleftrightarrow> 48 \<le> c \<and> c \<le> 57"

definition digits_value :: "ustring \<Rightarrow> nat" where
  "digits_value s = foldl (\<lambda>n c. 10 * n + (c - 48)) 0 s"

definition parse_u8 :: "ustring \<Rightarrow> nat option" where
  "parse_u8 s =
     (let ds = (case s of c # cs \<Rightarrow> if c = ch_plus then cs else s | [] \<Rightarrow> s)
      in if ds \<noteq> [] \<and> list_all is_digit ds \<and> digits_value ds \<le> 255
         then Some (digits_value ds) else None)"

lemma parse_u8_bound: "parse_u8 s = Some n \<Longrightarrow> n \<le> 255"
  by (auto simp: parse_u8_def Let_def split: if_splits)

text \<open>
  \<open>str::as_bytes\<close>: the UTF-8 encoding, each byte a number below 256. A text of ASCII characters
  is its own encoding.
\<close>

definition utf8_bytes :: "uchar \<Rightarrow> nat list" where
  "utf8_bytes c =
     (if c < 128 then [c]
      else if c < 2048 then [192 + c div 64, 128 + c mod 64]
      else if c < 65536 then [224 + c div 4096, 128 + c div 64 mod 64, 128 + c mod 64]
      else [240 + c div 262144, 128 + c div 4096 mod 64, 128 + c div 64 mod 64, 128 + c mod 64])"

definition as_bytes :: "ustring \<Rightarrow> nat list" where
  "as_bytes s = concat (map utf8_bytes s)"

lemma length_as_bytes: "length (as_bytes s) = str_len s"
  by (induction s) (simp_all add: as_bytes_def str_len_def utf8_bytes_def utf8_width_def)

lemma as_bytes_ascii: "\<forall>c \<in> set s. c < 128 \<Longrightarrow> as_bytes s = s"
  by (induction s) (simp_all add: as_bytes_def utf8_bytes_def)

text \<open>
  \<open>str::from_utf8\<close>: the strict decoder, which refuses overlong forms, surrogates and values past
  the last code point.
\<close>

definition cont_byte :: "nat \<Rightarrow> bool" where
  "cont_byte b \<longleftrightarrow> 128 \<le> b \<and> b \<le> 191"

fun utf8_decode :: "nat list \<Rightarrow> ustring option" where
  "utf8_decode [] = Some []"
| "utf8_decode (b # r) =
     (if b < 128 then map_option (Cons b) (utf8_decode r)
      else if 194 \<le> b \<and> b \<le> 223 then
        (case r of
           c1 # r1 \<Rightarrow>
             if cont_byte c1 then map_option (Cons ((b - 192) * 64 + (c1 - 128))) (utf8_decode r1) else None
         | _ \<Rightarrow> None)
      else if 224 \<le> b \<and> b \<le> 239 then
        (case r of
           c1 # c2 # r2 \<Rightarrow>
             if cont_byte c1 \<and> cont_byte c2 \<and> (b = 224 \<longrightarrow> 160 \<le> c1) \<and> (b = 237 \<longrightarrow> c1 \<le> 159)
             then map_option (Cons ((b - 224) * 4096 + (c1 - 128) * 64 + (c2 - 128))) (utf8_decode r2) else None
         | _ \<Rightarrow> None)
      else if 240 \<le> b \<and> b \<le> 244 then
        (case r of
           c1 # c2 # c3 # r3 \<Rightarrow>
             if cont_byte c1 \<and> cont_byte c2 \<and> cont_byte c3 \<and> (b = 240 \<longrightarrow> 144 \<le> c1) \<and> (b = 244 \<longrightarrow> c1 \<le> 143)
             then map_option (Cons ((b - 240) * 262144 + (c1 - 128) * 4096 + (c2 - 128) * 64 + (c3 - 128)))
               (utf8_decode r3) else None
         | _ \<Rightarrow> None)
      else None)"

lemma utf8_decode_ascii: "\<forall>c \<in> set s. c < 128 \<Longrightarrow> utf8_decode s = Some s"
  by (induction s) auto

text \<open>Decimal printing: \<open>{n}\<close> and the zero-padded \<open>{n:0w}\<close> of Rust's \<open>format!\<close>.\<close>

fun dec :: "nat \<Rightarrow> ustring" where
  "dec n = (if n < 10 then [48 + n] else dec (n div 10) @ [48 + n mod 10])"

declare dec.simps [simp del]

definition pad :: "nat \<Rightarrow> nat \<Rightarrow> ustring" where
  "pad w n = replicate (w - length (dec n)) 48 @ dec n"

lemma digits_value_simps [simp]: "digits_value [] = 0"
  by (simp add: digits_value_def)

lemma digits_value_snoc [simp]: "digits_value (ds @ [d]) = 10 * digits_value ds + (d - 48)"
  by (simp add: digits_value_def)

lemma digits_value_append: "digits_value (xs @ ys) = digits_value xs * 10 ^ length ys + digits_value ys"
proof (induction ys rule: rev_induct)
  case (snoc y ys)
  then show ?case unfolding append_assoc [symmetric] digits_value_snoc by simp
qed simp

lemma digits_value_zeros [simp]: "digits_value (replicate k 48) = 0"
  by (induction k) (simp_all add: digits_value_def)

lemma digits_value_dec [simp]: "digits_value (dec n) = n"
  by (induction n rule: dec.induct) (subst dec.simps, auto simp: digits_value_def)

lemma dec_digits: "c \<in> set (dec n) \<Longrightarrow> is_digit c"
  by (induction n rule: dec.induct) (subst (asm) (2) dec.simps, auto simp: is_digit_def split: if_splits)

lemma length_dec: "0 < k \<Longrightarrow> length (dec n) \<le> k \<longleftrightarrow> n < 10 ^ k"
proof (induction n arbitrary: k rule: dec.induct)
  case (1 n)
  show ?case
  proof (cases "n < 10")
    case True
    moreover have "(10::nat) \<le> 10 ^ k" using 1(2) by (cases k) auto
    ultimately show ?thesis using 1(2) by (subst dec.simps) auto
  next
    case False
    show ?thesis
    proof (cases "k = 1")
      case True
      with False show ?thesis by (subst dec.simps) (auto simp: dec.simps)
    next
      case k: False
      have "length (dec n) = Suc (length (dec (n div 10)))" using False by (subst dec.simps) simp
      moreover have "length (dec (n div 10)) \<le> k - 1 \<longleftrightarrow> n div 10 < 10 ^ (k - 1)"
        using 1(1) [OF False, of "k - 1"] 1(2) k by simp
      moreover have "n div 10 < 10 ^ (k - 1) \<longleftrightarrow> n < 10 ^ k"
        using 1(2) by (cases k) (simp_all add: div_less_iff_less_mult mult.commute)
      ultimately show ?thesis using 1(2) by linarith
    qed
  qed
qed

lemma pad_simps:
  "digits_value (pad w n) = n"
  "c \<in> set (pad w n) \<Longrightarrow> is_digit c"
  by (auto simp: pad_def digits_value_append is_digit_def dest: dec_digits)

lemma length_pad: "0 < w \<Longrightarrow> n < 10 ^ w \<Longrightarrow> length (pad w n) = w"
  using length_dec [of w n] by (simp add: pad_def)

section \<open>Bounded integers\<close>

abbreviation i64_max :: int where "i64_max \<equiv> 9223372036854775807"
abbreviation i64_min :: int where "i64_min \<equiv> -9223372036854775808"
abbreviation i128_max :: int where "i128_max \<equiv> 170141183460469231731687303715884105727"
abbreviation i128_min :: int where "i128_min \<equiv> -170141183460469231731687303715884105728"

definition clamp :: "int \<Rightarrow> int \<Rightarrow> int \<Rightarrow> int" where
  "clamp lo hi x = max lo (min hi x)"

definition i64_sat_sub :: "int \<Rightarrow> int \<Rightarrow> int" where
  "i64_sat_sub a b = clamp i64_min i64_max (a - b)"

definition i64_sat_add :: "int \<Rightarrow> int \<Rightarrow> int" where
  "i64_sat_add a b = clamp i64_min i64_max (a + b)"

definition i128_sat_sub :: "int \<Rightarrow> int \<Rightarrow> int" where
  "i128_sat_sub a b = clamp i128_min i128_max (a - b)"

definition in_i64 :: "int \<Rightarrow> bool" where
  "in_i64 x \<longleftrightarrow> i64_min \<le> x \<and> x \<le> i64_max"

lemma clamp_id [simp]: "lo \<le> x \<Longrightarrow> x \<le> hi \<Longrightarrow> clamp lo hi x = x"
  by (simp add: clamp_def)

lemma clamp_bounds: "lo \<le> hi \<Longrightarrow> lo \<le> clamp lo hi x \<and> clamp lo hi x \<le> hi"
  by (auto simp: clamp_def)

text \<open>Rust's \<open>/\<close> on signed integers truncates towards zero (the divisors here are positive).\<close>

definition tdiv :: "int \<Rightarrow> int \<Rightarrow> int" where
  "tdiv a b = (if 0 \<le> a then a div b else - ((- a) div b))"

lemma tdiv_nonneg [simp]: "0 \<le> a \<Longrightarrow> tdiv a b = a div b"
  by (simp add: tdiv_def)

lemma div_unique_pos: "(n::int) = b * q + r \<Longrightarrow> 0 \<le> r \<Longrightarrow> r < b \<Longrightarrow> n div b = q"
  using int_div_pos_eq by blast

lemma div_bounds: "0 < b \<Longrightarrow> b * ((n::int) div b) \<le> n \<and> n < b * (n div b) + b"
  using mult_div_mod_eq [of b n] pos_mod_sign [of b n] pos_mod_bound [of b n] by linarith

definition i128_checked :: "int \<Rightarrow> int option" where
  "i128_checked x = (if i128_min \<le> x \<and> x \<le> i128_max then Some x else None)"

section \<open>Association lists\<close>

lemma map_of_filter_val:
  "distinct (map fst xs) \<Longrightarrow>
   map_of (filter (\<lambda>(k, e). P e) xs) k = (case map_of xs k of None \<Rightarrow> None | Some e \<Rightarrow> if P e then Some e else None)"
proof (induction xs)
  case (Cons x xs)
  then have "map_of xs (fst x) = None" by (simp add: map_of_eq_None_iff)
  with Cons show ?case by (cases x) auto
qed simp

section \<open>Results\<close>

text \<open>The question-mark operator on \<open>Result\<close>: \<open>Inl\<close> is the error and is returned early.\<close>

fun res_bind :: "'e + 'a \<Rightarrow> ('a \<Rightarrow> 'e + 'b) \<Rightarrow> 'e + 'b" where
  "res_bind (Inl e) f = Inl e"
| "res_bind (Inr x) f = f x"

lemma res_bind_Inr_iff: "res_bind r f = Inr y \<longleftrightarrow> (\<exists>x. r = Inr x \<and> f x = Inr y)"
  by (cases r) auto

section \<open>Interfaces\<close>

text \<open>
  A text codec: what \<open>enc\<close> prints for a value of the domain, \<open>dec\<close> reads back. Printing
  is then injective on the domain, and the printed form of a value is the only text of
  that domain's image that reads back as it.
\<close>

locale text_codec =
  fixes enc :: "'a \<Rightarrow> 'b" and dec :: "'b \<Rightarrow> 'a option" and dom_ok :: "'a \<Rightarrow> bool"
  assumes dec_enc: "dom_ok x \<Longrightarrow> dec (enc x) = Some x"
begin

lemma enc_inj: "dom_ok x \<Longrightarrow> dom_ok y \<Longrightarrow> enc x = enc y \<Longrightarrow> x = y"
  using dec_enc by (metis option.inject)

lemma enc_inj_on: "inj_on enc (Collect dom_ok)"
  by (rule inj_onI) (auto intro: enc_inj)

lemma dec_image: "dom_ok x \<Longrightarrow> dec (enc x) = Some y \<Longrightarrow> y = x"
  by (simp add: dec_enc)

end

text \<open>
  A guarded state machine: an invariant that holds at the start and that every step
  keeps holds in every state a sequence of steps reaches.
\<close>

locale guarded_machine =
  fixes init :: "'s \<Rightarrow> bool" and step :: "'s \<Rightarrow> 's \<Rightarrow> bool" and inv :: "'s \<Rightarrow> bool"
  assumes inv_init: "init s \<Longrightarrow> inv s"
    and inv_step: "inv s \<Longrightarrow> step s t \<Longrightarrow> inv t"
begin

lemma inv_reach: "step\<^sup>*\<^sup>* s t \<Longrightarrow> inv s \<Longrightarrow> inv t"
  by (induction rule: rtranclp_induct) (auto intro: inv_step)

lemma inv_run: "init s \<Longrightarrow> step\<^sup>*\<^sup>* s t \<Longrightarrow> inv t"
  using inv_reach inv_init by blast

end

text \<open>A run that applies an operation per input is a sequence of steps.\<close>

lemma fold_reach:
  assumes "\<And>x s. step s (f x s)"
  shows "step\<^sup>*\<^sup>* s (fold f xs s)"
proof (induction xs arbitrary: s)
  case (Cons x xs)
  then show ?case using assms [of s x] by (simp add: converse_rtranclp_into_rtranclp)
qed simp

end
