(* ===== verification/Secret_Ref.thy ===== *)
theory Secret_Ref
  imports Prelude
begin

text \<open>
  \<^verbatim>\<open>symvault-core/src/secret_ref.rs\<close>: secret references \<open>op://path/field\<close> and
  \<open>path.field\<close>, and the secret handles shown in logs. \<open>rfind\<close> with a bound on the index
  is \<open>rsplit_once\<close> with a non-emptiness test on the two slices.
\<close>

section \<open>References and handles\<close>

datatype secret_ref_error = Empty | MissingFieldInOp ustring | InvalidSyntax ustring

record secret_ref =
  ref_path :: ustring
  ref_field :: ustring

record secret_handle =
  handle_path :: ustring
  handle_field :: "ustring option"

definition op_scheme :: ustring where
  "op_scheme = lit ''op://''"

definition ref_parse :: "ustring \<Rightarrow> secret_ref_error + secret_ref" where
  "ref_parse s =
     (if s = [] then Inl Empty
      else (case strip_prefix op_scheme s of
        Some rest \<Rightarrow>
          (case rsplit_once (of_char CHR ''/'') rest of
             Some (p, f) \<Rightarrow>
               if f \<noteq> [] then Inr \<lparr>ref_path = p, ref_field = f\<rparr>
               else Inl (MissingFieldInOp s)
           | None \<Rightarrow> Inl (MissingFieldInOp s))
      | None \<Rightarrow>
          (case rsplit_once (of_char CHR ''.'') s of
             Some (p, f) \<Rightarrow>
               if p \<noteq> [] \<and> f \<noteq> [] then Inr \<lparr>ref_path = p, ref_field = f\<rparr>
               else Inl (InvalidSyntax s)
           | None \<Rightarrow> Inl (InvalidSyntax s))))"

definition to_dot_notation :: "secret_ref \<Rightarrow> ustring" where
  "to_dot_notation r = ref_path r @ lit ''.'' @ ref_field r"

definition to_op_uri :: "secret_ref \<Rightarrow> ustring" where
  "to_op_uri r = op_scheme @ ref_path r @ lit ''/'' @ ref_field r"

definition to_handle :: "secret_ref \<Rightarrow> secret_handle" where
  "to_handle r = \<lparr>handle_path = ref_path r, handle_field = Some (ref_field r)\<rparr>"

definition handle_display :: "secret_handle \<Rightarrow> ustring" where
  "handle_display h =
     (case handle_field h of
        Some f \<Rightarrow> op_scheme @ handle_path h @ lit ''/'' @ f
      | None \<Rightarrow> op_scheme @ handle_path h @ lit ''/'')"

definition handle_parse :: "ustring \<Rightarrow> secret_handle option" where
  "handle_parse s =
     (case strip_prefix op_scheme s of
        None \<Rightarrow> None
      | Some rest \<Rightarrow>
          if rest = [] \<or> starts_with (lit ''/'') rest then None
          else (case rsplit_once (of_char CHR ''/'') rest of
                  Some (p, f) \<Rightarrow>
                    if p \<noteq> [] \<and> f \<noteq> []
                    then Some \<lparr>handle_path = p, handle_field = Some f\<rparr>
                    else Some \<lparr>handle_path = rest, handle_field = None\<rparr>
                | None \<Rightarrow> Some \<lparr>handle_path = rest, handle_field = None\<rparr>))"

definition to_secret_ref :: "secret_handle \<Rightarrow> secret_ref option" where
  "to_secret_ref h =
     map_option (\<lambda>f. \<lparr>ref_path = handle_path h, ref_field = f\<rparr>) (handle_field h)"

section \<open>What a parsed reference is\<close>

text \<open>The field of a parsed reference is never empty and never holds its separator.\<close>

definition wf_op_ref :: "secret_ref \<Rightarrow> bool" where
  "wf_op_ref r \<longleftrightarrow> ref_field r \<noteq> [] \<and> of_char CHR ''/'' \<notin> set (ref_field r)"

definition wf_dot_ref :: "secret_ref \<Rightarrow> bool" where
  "wf_dot_ref r \<longleftrightarrow> ref_path r \<noteq> [] \<and> ref_field r \<noteq> [] \<and>
     of_char CHR ''.'' \<notin> set (ref_field r) \<and> strip_prefix op_scheme (to_dot_notation r) = None"

lemma ref_parse_op:
  "ref_parse (op_scheme @ rest) =
     (case rsplit_once (of_char CHR ''/'') rest of
        Some (p, f) \<Rightarrow> if f \<noteq> [] then Inr \<lparr>ref_path = p, ref_field = f\<rparr>
                        else Inl (MissingFieldInOp (op_scheme @ rest))
      | None \<Rightarrow> Inl (MissingFieldInOp (op_scheme @ rest)))"
proof -
  have "op_scheme \<noteq> []" by (simp add: op_scheme_def)
  then show ?thesis by (simp add: ref_parse_def)
qed

lemma ref_parse_cases:
  assumes "ref_parse s = Inr r"
  obtains (op) "s = to_op_uri r" "wf_op_ref r"
  | (dot) "s = to_dot_notation r" "wf_dot_ref r"
proof (cases "strip_prefix op_scheme s")
  case (Some rest)
  with assms have "s = to_op_uri r \<and> wf_op_ref r"
    by (auto simp: ref_parse_def rsplit_once_Some_iff to_op_uri_def wf_op_ref_def
        strip_prefix_Some_iff split: if_splits option.splits prod.splits)
  then show thesis by (auto intro: op)
next
  case None
  with assms have "s = to_dot_notation r \<and> wf_dot_ref r"
    by (auto simp: ref_parse_def rsplit_once_Some_iff to_dot_notation_def wf_dot_ref_def
        split: if_splits option.splits prod.splits)
  then show thesis by (auto intro: dot)
qed

lemma ref_parse_to_op_uri:
  assumes "wf_op_ref r"
  shows "ref_parse (to_op_uri r) = Inr r"
proof -
  from assms have "rsplit_once (of_char CHR ''/'') (ref_path r @ lit ''/'' @ ref_field r)
      = Some (ref_path r, ref_field r)"
    by (simp add: rsplit_once_Some_iff wf_op_ref_def)
  with assms show ?thesis
    unfolding to_op_uri_def ref_parse_op by (simp add: wf_op_ref_def)
qed

lemma ref_parse_to_dot:
  assumes "wf_dot_ref r"
  shows "ref_parse (to_dot_notation r) = Inr r"
proof -
  from assms have "rsplit_once (of_char CHR ''.'') (to_dot_notation r)
      = Some (ref_path r, ref_field r)"
    by (simp add: rsplit_once_Some_iff wf_dot_ref_def to_dot_notation_def)
  moreover from assms have "to_dot_notation r \<noteq> []" by (simp add: to_dot_notation_def)
  ultimately show ?thesis using assms
    by (simp add: ref_parse_def wf_dot_ref_def)
qed

definition ref_parse_opt :: "ustring \<Rightarrow> secret_ref option" where
  "ref_parse_opt s = (case ref_parse s of Inl _ \<Rightarrow> None | Inr r \<Rightarrow> Some r)"

interpretation op_uri: text_codec to_op_uri ref_parse_opt wf_op_ref
  by unfold_locales (simp add: ref_parse_opt_def ref_parse_to_op_uri)

interpretation dot_ref: text_codec to_dot_notation ref_parse_opt wf_dot_ref
  by unfold_locales (simp add: ref_parse_opt_def ref_parse_to_dot)

definition wf_handle :: "secret_handle \<Rightarrow> bool" where
  "wf_handle h \<longleftrightarrow> handle_path h \<noteq> [] \<and> hd (handle_path h) \<noteq> of_char CHR ''/'' \<and>
     (\<exists>f. handle_field h = Some f \<and> f \<noteq> [] \<and> of_char CHR ''/'' \<notin> set f)"

lemma handle_parse_display:
  assumes "wf_handle h"
  shows "handle_parse (handle_display h) = Some h"
proof -
  from assms obtain f where f: "handle_field h = Some f" "f \<noteq> []" "of_char CHR ''/'' \<notin> set f"
    by (auto simp: wf_handle_def)
  obtain c cs where p: "handle_path h = c # cs" "c \<noteq> of_char CHR ''/''"
    using assms by (cases "handle_path h") (auto simp: wf_handle_def)
  from f p have "rsplit_once (of_char CHR ''/'') (handle_path h @ lit ''/'' @ f)
      = Some (handle_path h, f)"
    by (simp add: rsplit_once_Some_iff)
  with f p show ?thesis
    by (auto simp: handle_parse_def handle_display_def starts_with_iff)
qed

interpretation handle_text: text_codec handle_display handle_parse wf_handle
  by unfold_locales (rule handle_parse_display)

section \<open>Properties\<close>

text \<open>C40. Every reference the parser accepts prints back, in the notation it was written in,
  as exactly the text that was parsed, and parsing that print gives the same reference: the
  parse loses nothing and the canonical \<open>op://\<close> print of any accepted reference whose field
  has no slash is parsed back unchanged.\<close>

theorem ref_parse_roundtrip:
  assumes "ref_parse s = Inr r"
  shows "(s = to_op_uri r \<or> s = to_dot_notation r) \<and> ref_field r \<noteq> [] \<and>
    (of_char CHR ''/'' \<notin> set (ref_field r) \<longrightarrow> ref_parse (to_op_uri r) = Inr r)"
  using assms
proof (cases rule: ref_parse_cases)
  case op
  then show ?thesis by (simp add: wf_op_ref_def ref_parse_to_op_uri)
next
  case dot
  then have "ref_field r \<noteq> []" by (simp add: wf_dot_ref_def)
  with dot show ?thesis by (auto intro: ref_parse_to_op_uri simp: wf_op_ref_def)
qed

theorem ref_parse_roundtrip_witness:
  "ref_parse (lit ''work/aws.password'')
     = Inr \<lparr>ref_path = lit ''work/aws'', ref_field = lit ''password''\<rparr> \<and>
   ref_parse (to_op_uri \<lparr>ref_path = lit ''work/aws'', ref_field = lit ''password''\<rparr>)
     = Inr \<lparr>ref_path = lit ''work/aws'', ref_field = lit ''password''\<rparr>"
proof -
  have h: "ref_parse (lit ''work/aws.password'')
     = Inr \<lparr>ref_path = lit ''work/aws'', ref_field = lit ''password''\<rparr>"
    by (simp add: ref_parse_def op_scheme_def rsplit_once_def)
  show ?thesis using h ref_parse_roundtrip [OF h] by simp
qed

end
