(* ===== verification/Glob.thy ===== *)
theory Glob
  imports Prelude
begin

text \<open>
  The path globs of \<^verbatim>\<open>symvault-core/src/policy.rs\<close>: the pattern parser, the memoised
  backtracking matcher \<open>glob_match\<close>, and the row-by-row matcher \<open>glob_match_with_budget\<close>
  that network-facing callers use with a shared work allowance. Both matchers are related
  to a declarative meaning of a token list, \<open>glob_spec\<close>.

  The Rust parser walks an index over the vector of characters; here the index is the
  remaining suffix.
\<close>

section \<open>Tokens and the pattern parser\<close>

datatype glob_token =
    Star
  | Any
  | Literal uchar
  | Class (negated: bool) (ranges: "(uchar \<times> uchar) list")

fun class_character :: "uchar list \<Rightarrow> (uchar \<times> uchar list) option" where
  "class_character [] = None"
| "class_character (c # cs) =
     (if c = ch_backslash then (case cs of [] \<Rightarrow> None | e # es \<Rightarrow> Some (e, es))
      else if c = ch_minus \<or> c = ch_rbracket then None
      else Some (c, cs))"

lemma class_character_length:
  "class_character cs = Some (c, r) \<Longrightarrow> length r < length cs"
  by (cases cs) (auto split: if_splits list.splits)

declare class_character.simps(2) [simp del]

function parse_class_loop ::
  "bool \<Rightarrow> (uchar \<times> uchar) list \<Rightarrow> uchar list \<Rightarrow> (glob_token \<times> uchar list) option" where
  "parse_class_loop neg rs [] = None"
| "parse_class_loop neg rs (c # cs) =
     (if c = ch_rbracket \<and> rs \<noteq> [] then Some (Class neg rs, cs)
      else (case class_character (c # cs) of
              None \<Rightarrow> None
            | Some (low, rest) \<Rightarrow>
                if rest \<noteq> [] \<and> hd rest = ch_minus then
                  (case class_character (tl rest) of
                     None \<Rightarrow> None
                   | Some (high, rest') \<Rightarrow> parse_class_loop neg (rs @ [(low, high)]) rest')
                else parse_class_loop neg (rs @ [(low, low)]) rest))"
  by pat_completeness auto
termination
  by (relation "measure (\<lambda>(_, _, cs). length cs)")
     (auto dest!: class_character_length simp: neq_Nil_conv)

definition parse_class :: "uchar list \<Rightarrow> (glob_token \<times> uchar list) option" where
  "parse_class cs =
     (case cs of
        c # cs' \<Rightarrow> if c = ch_caret then parse_class_loop True [] cs'
                   else parse_class_loop False [] cs
      | [] \<Rightarrow> parse_class_loop False [] cs)"

lemma parse_class_loop_length:
  "parse_class_loop neg rs cs = Some (t, r) \<Longrightarrow> length r < length cs"
proof (induction neg rs cs arbitrary: t r rule: parse_class_loop.induct)
  case (2 neg rs c cs)
  show ?case
  proof (cases "c = ch_rbracket \<and> rs \<noteq> []")
    case False
    with "2.prems" obtain low rest where cc: "class_character (c # cs) = Some (low, rest)"
      by (auto split: option.splits)
    note len = class_character_length [OF cc]
    show ?thesis
    proof (cases "rest \<noteq> [] \<and> hd rest = ch_minus")
      case True
      with "2.prems" False cc obtain high rest' where
        h: "class_character (tl rest) = Some (high, rest')"
        by (auto split: option.splits)
      with "2.prems" False cc True have
        "parse_class_loop neg (rs @ [(low, high)]) rest' = Some (t, r)" by simp
      with "2.IH"(1) [OF False cc refl True h refl] class_character_length [OF h] len True
      show ?thesis by (auto simp: neq_Nil_conv)
    next
      case nd: False
      with "2.prems" False cc have "parse_class_loop neg (rs @ [(low, low)]) rest = Some (t, r)"
        by simp
      with "2.IH"(2) [OF False cc refl nd] len show ?thesis by auto
    qed
  qed (use "2.prems" in auto)
qed simp

lemma parse_class_length:
  assumes "parse_class cs = Some (t, r)"
  shows "length r < length cs"
proof (cases cs)
  case (Cons c cs')
  with assms have "parse_class_loop True [] cs' = Some (t, r) \<or> parse_class_loop False [] cs = Some (t, r)"
    by (simp add: parse_class_def split: if_splits)
  then have "length r < length cs' \<or> length r < length cs"
    by (blast dest: parse_class_loop_length)
  with Cons show ?thesis by auto
qed (use assms in \<open>simp add: parse_class_def\<close>)

function parse_glob :: "uchar list \<Rightarrow> glob_token list option" where
  "parse_glob [] = Some []"
| "parse_glob (c # cs) =
     (if c = ch_star then map_option ((#) Star) (parse_glob cs)
      else if c = ch_question then map_option ((#) Any) (parse_glob cs)
      else if c = ch_lbracket then
        (case parse_class cs of
           None \<Rightarrow> None
         | Some (t, rest) \<Rightarrow> map_option ((#) t) (parse_glob rest))
      else if c = ch_backslash then
        (case cs of [] \<Rightarrow> None | e # es \<Rightarrow> map_option ((#) (Literal e)) (parse_glob es))
      else map_option ((#) (Literal c)) (parse_glob cs))"
  by pat_completeness auto
termination
  by (relation "measure length") (auto dest!: parse_class_length)

section \<open>The memoised matcher\<close>

definition class_matches :: "bool \<Rightarrow> (uchar \<times> uchar) list \<Rightarrow> uchar \<Rightarrow> bool" where
  "class_matches neg rs c =
     (let matched = list_ex (\<lambda>(low, high). low \<le> c \<and> c \<le> high) rs
      in if neg then \<not> matched else matched)"

type_synonym glob_memo = "nat \<times> nat \<Rightarrow> bool option"

text \<open>
  Each arm returns its result and the memo its recursive calls left; \<open>glob_match_at\<close>
  then stores the result under the pair of indices, as \<open>memo.insert\<close> does.
\<close>

function glob_match_at ::
  "glob_token list \<Rightarrow> uchar list \<Rightarrow> nat \<Rightarrow> nat \<Rightarrow> glob_memo \<Rightarrow> bool \<times> glob_memo" where
  "glob_match_at pat val i j memo =
     (case memo (i, j) of
        Some r \<Rightarrow> (r, memo)
      | None \<Rightarrow>
          (let (res, memo') =
             (if i < length pat then
                (case pat ! i of
                   Star \<Rightarrow>
                     (let (a, m1) = glob_match_at pat val (Suc i) j memo
                      in if a then (True, m1)
                         else if j < length val \<and> val ! j \<noteq> ch_slash
                              then glob_match_at pat val i (Suc j) m1
                              else (False, m1))
                 | Any \<Rightarrow>
                     (if j < length val \<and> val ! j \<noteq> ch_slash
                      then glob_match_at pat val (Suc i) (Suc j) memo else (False, memo))
                 | Literal e \<Rightarrow>
                     (if j < length val \<and> val ! j = e
                      then glob_match_at pat val (Suc i) (Suc j) memo else (False, memo))
                 | Class neg rs \<Rightarrow>
                     (if j < length val \<and> class_matches neg rs (val ! j)
                      then glob_match_at pat val (Suc i) (Suc j) memo else (False, memo)))
              else (j = length val, memo))
           in (res, memo'((i, j) \<mapsto> res))))"
  by pat_completeness auto
termination
  by (relation "measure (\<lambda>(pat, val, i, j, _). (length pat - i) + (length val - j))") auto

declare glob_match_at.simps [simp del]

definition glob_match :: "ustring \<Rightarrow> ustring \<Rightarrow> bool" where
  "glob_match pattern val =
     (case parse_glob pattern of
        None \<Rightarrow> False
      | Some tokens \<Rightarrow> fst (glob_match_at tokens val 0 0 Map.empty))"

section \<open>The matcher with a work allowance\<close>

abbreviation usize_max :: nat where "usize_max \<equiv> 18446744073709551615"

definition token_charge :: "nat \<Rightarrow> glob_token \<Rightarrow> nat" where
  "token_charge n t =
     min usize_max ((n + 1) * (case t of Class _ rs \<Rightarrow> max 1 (length rs) | _ \<Rightarrow> 1))"

definition dp_cell :: "glob_token \<Rightarrow> bool \<Rightarrow> bool \<Rightarrow> bool \<Rightarrow> uchar \<Rightarrow> bool" where
  "dp_cell t prev_i prev_Si next_i c =
     (case t of
        Star \<Rightarrow> prev_Si \<or> next_i \<and> c \<noteq> ch_slash
      | Any \<Rightarrow> prev_i \<and> c \<noteq> ch_slash
      | Literal e \<Rightarrow> prev_i \<and> c = e
      | Class neg rs \<Rightarrow> prev_i \<and> class_matches neg rs c)"

text \<open>The row after the inner loop has run over the first \<open>k\<close> characters.\<close>

definition dp_row_upto :: "uchar list \<Rightarrow> glob_token \<Rightarrow> bool list \<Rightarrow> nat \<Rightarrow> bool list" where
  "dp_row_upto val t prev k =
     foldl (\<lambda>next i. next[Suc i := dp_cell t (prev ! i) (prev ! Suc i) (next ! i) (val ! i)])
       ((replicate (length val + 1) False)[0 := (t = Star \<and> prev ! 0)]) [0..<k]"

definition dp_row :: "uchar list \<Rightarrow> glob_token \<Rightarrow> bool list \<Rightarrow> bool list" where
  "dp_row val t prev = dp_row_upto val t prev (length val)"

fun dp_tokens ::
  "uchar list \<Rightarrow> glob_token list \<Rightarrow> bool list \<Rightarrow> nat \<Rightarrow> bool \<times> nat" where
  "dp_tokens val [] prev budget = (prev ! length val, budget)"
| "dp_tokens val (t # ts) prev budget =
     (let charge = token_charge (length val) t
      in if budget < charge then (False, 0)
         else dp_tokens val ts (dp_row val t prev) (budget - charge))"

definition glob_match_with_budget :: "ustring \<Rightarrow> ustring \<Rightarrow> nat \<Rightarrow> bool \<times> nat" where
  "glob_match_with_budget pattern val budget =
     (case parse_glob pattern of
        None \<Rightarrow> (False, budget)
      | Some tokens \<Rightarrow>
          dp_tokens val tokens ((replicate (length val + 1) False)[0 := True]) budget)"

section \<open>What a token list means\<close>

definition tok_matches :: "glob_token \<Rightarrow> uchar list \<Rightarrow> bool" where
  "tok_matches t w =
     (case t of
        Star \<Rightarrow> ch_slash \<notin> set w
      | Any \<Rightarrow> length w = 1 \<and> hd w \<noteq> ch_slash
      | Literal e \<Rightarrow> w = [e]
      | Class neg rs \<Rightarrow> length w = 1 \<and> class_matches neg rs (hd w))"

fun glob_spec :: "glob_token list \<Rightarrow> uchar list \<Rightarrow> bool" where
  "glob_spec [] w = (w = [])"
| "glob_spec (t # ts) w =
     (\<exists>k \<le> length w. tok_matches t (take k w) \<and> glob_spec ts (drop k w))"

lemma glob_spec_iff_append:
  "glob_spec (t # ts) w \<longleftrightarrow> (\<exists>u v. w = u @ v \<and> tok_matches t u \<and> glob_spec ts v)"
proof
  assume "glob_spec (t # ts) w"
  then obtain k where "tok_matches t (take k w)" "glob_spec ts (drop k w)" by auto
  then show "\<exists>u v. w = u @ v \<and> tok_matches t u \<and> glob_spec ts v"
    by (metis append_take_drop_id)
next
  assume "\<exists>u v. w = u @ v \<and> tok_matches t u \<and> glob_spec ts v"
  then obtain u v where "w = u @ v" "tok_matches t u" "glob_spec ts v" by auto
  then show "glob_spec (t # ts) w"
    by (auto intro!: exI [of _ "length u"])
qed

lemma glob_spec_append:
  "glob_spec (ts @ us) w \<longleftrightarrow> (\<exists>u v. w = u @ v \<and> glob_spec ts u \<and> glob_spec us v)"
proof (induction ts arbitrary: w)
  case (Cons t ts)
  show ?case
    unfolding append_Cons glob_spec_iff_append Cons.IH
    by (metis append.assoc)
qed simp

declare glob_spec.simps(2) [simp del]

lemma glob_spec_Star:
  "glob_spec (Star # ts) w \<longleftrightarrow>
     glob_spec ts w \<or> (w \<noteq> [] \<and> hd w \<noteq> ch_slash \<and> glob_spec (Star # ts) (tl w))"
proof -
  have "glob_spec (Star # ts) w \<longleftrightarrow> (\<exists>u v. w = u @ v \<and> ch_slash \<notin> set u \<and> glob_spec ts v)"
    for w by (simp add: glob_spec_iff_append tok_matches_def)
  note star = this
  show ?thesis
  proof
    assume "glob_spec (Star # ts) w"
    then obtain u v where "w = u @ v" "ch_slash \<notin> set u" "glob_spec ts v" by (auto simp: star)
    then show "glob_spec ts w \<or> (w \<noteq> [] \<and> hd w \<noteq> ch_slash \<and> glob_spec (Star # ts) (tl w))"
      unfolding star by (cases u) auto
  next
    assume "glob_spec ts w \<or> (w \<noteq> [] \<and> hd w \<noteq> ch_slash \<and> glob_spec (Star # ts) (tl w))"
    then show "glob_spec (Star # ts) w"
      unfolding star
    proof (elim disjE conjE exE)
      assume "glob_spec ts w"
      then show "\<exists>u v. w = u @ v \<and> ch_slash \<notin> set u \<and> glob_spec ts v"
        by (intro exI [of _ "[]"] exI [of _ w]) simp
    next
      fix u v assume "w \<noteq> []" "hd w \<noteq> ch_slash" "tl w = u @ v" "ch_slash \<notin> set u" "glob_spec ts v"
      then show "\<exists>u v. w = u @ v \<and> ch_slash \<notin> set u \<and> glob_spec ts v"
        by (intro exI [of _ "hd w # u"] exI [of _ v]) (auto simp: neq_Nil_conv)
    qed
  qed
qed

lemma glob_spec_single:
  "glob_spec (Any # ts) w \<longleftrightarrow> w \<noteq> [] \<and> hd w \<noteq> ch_slash \<and> glob_spec ts (tl w)"
  "glob_spec (Literal e # ts) w \<longleftrightarrow> w \<noteq> [] \<and> hd w = e \<and> glob_spec ts (tl w)"
  "glob_spec (Class neg rs # ts) w \<longleftrightarrow> w \<noteq> [] \<and> class_matches neg rs (hd w) \<and> glob_spec ts (tl w)"
  by (auto simp: glob_spec_iff_append tok_matches_def length_Suc_conv neq_Nil_conv
      split: list.splits intro: exI [of _ "[_]"])

lemmas glob_spec_step = glob_spec_Star glob_spec_single

section \<open>Both matchers decide that meaning\<close>

text \<open>A memo is sound when every stored answer is the meaning at its pair of indices.\<close>

definition memo_ok :: "glob_token list \<Rightarrow> uchar list \<Rightarrow> glob_memo \<Rightarrow> bool" where
  "memo_ok pat val m \<longleftrightarrow>
     (\<forall>i j r. m (i, j) = Some r \<longrightarrow> i \<le> length pat \<longrightarrow> j \<le> length val \<longrightarrow>
        r = glob_spec (drop i pat) (drop j val))"

lemma memo_ok_upd:
  "memo_ok pat val m \<Longrightarrow> r = glob_spec (drop i pat) (drop j val) \<Longrightarrow> memo_ok pat val (m((i, j) \<mapsto> r))"
  by (auto simp: memo_ok_def)

lemma drop_step: "j < length val \<Longrightarrow> drop j val \<noteq> [] \<and> hd (drop j val) = val ! j \<and> tl (drop j val) = drop (Suc j) val"
  by (simp add: hd_drop_conv_nth tl_drop drop_Suc)

text \<open>The call at a pair of indices answers by the meaning and keeps the memo sound.\<close>

definition at_ok :: "glob_token list \<Rightarrow> uchar list \<Rightarrow> nat \<Rightarrow> nat \<Rightarrow> glob_memo \<Rightarrow> bool" where
  "at_ok pat val i j memo \<longleftrightarrow>
     fst (glob_match_at pat val i j memo) = glob_spec (drop i pat) (drop j val) \<and>
     memo_ok pat val (snd (glob_match_at pat val i j memo))"

lemma at_ok_hit:
  "memo_ok pat val memo \<Longrightarrow> i \<le> length pat \<Longrightarrow> j \<le> length val \<Longrightarrow> memo (i, j) = Some r \<Longrightarrow>
   at_ok pat val i j memo"
  by (auto simp: at_ok_def glob_match_at.simps [of pat val i j memo] memo_ok_def)

lemma at_ok_end:
  assumes "memo_ok pat val memo" "j \<le> length val" "memo (length pat, j) = None"
  shows "at_ok pat val (length pat) j memo"
proof -
  have "glob_match_at pat val (length pat) j memo = (j = length val, memo((length pat, j) \<mapsto> (j = length val)))"
    using assms by (simp add: glob_match_at.simps [of pat val "length pat" j memo])
  then show ?thesis using assms by (auto simp: at_ok_def intro!: memo_ok_upd)
qed

text \<open>The arms that consume exactly one character differ only in the test \<open>ok\<close> on it.\<close>

lemma at_ok_single:
  assumes m: "memo_ok pat val memo" and i: "i < length pat"
    and tok: "\<And>w. glob_spec (pat ! i # drop (Suc i) pat) w \<longleftrightarrow>
               w \<noteq> [] \<and> ok (hd w) \<and> glob_spec (drop (Suc i) pat) (tl w)"
    and eq: "glob_match_at pat val i j memo =
      (let (res, memo') = (if j < length val \<and> ok (val ! j)
         then glob_match_at pat val (Suc i) (Suc j) memo else (False, memo))
       in (res, memo'((i, j) \<mapsto> res)))"
    and IH: "j < length val \<Longrightarrow> ok (val ! j) \<Longrightarrow> at_ok pat val (Suc i) (Suc j) memo"
  shows "at_ok pat val i j memo"
proof -
  have pat: "drop i pat = pat ! i # drop (Suc i) pat" using i by (simp add: Cons_nth_drop_Suc)
  show ?thesis
  proof (cases "j < length val \<and> ok (val ! j)")
    case True
    then have "fst (glob_match_at pat val i j memo) = glob_spec (drop i pat) (drop j val)"
      using IH drop_step [of j val] by (auto simp: eq pat tok at_ok_def Let_def split: prod.splits)
    with True IH show ?thesis
      by (auto simp: at_ok_def eq Let_def split: prod.splits intro!: memo_ok_upd)
  next
    case False
    then have "\<not> glob_spec (drop i pat) (drop j val)"
      using drop_step [of j val] by (cases "j < length val") (auto simp: pat tok)
    with False m show ?thesis by (auto simp: at_ok_def eq intro!: memo_ok_upd)
  qed
qed

lemma at_ok_star:
  assumes i: "i < length pat" "pat ! i = Star" and None: "memo (i, j) = None"
    and am: "glob_match_at pat val (Suc i) j memo = (a, m1)" and A: "at_ok pat val (Suc i) j memo"
    and IH: "\<not> a \<Longrightarrow> j < length val \<and> val ! j \<noteq> ch_slash \<Longrightarrow> at_ok pat val i (Suc j) m1"
  shows "at_ok pat val i j memo"
proof -
  have pat: "drop i pat = Star # drop (Suc i) pat" using i by (metis Cons_nth_drop_Suc)
  from A am have a: "a = glob_spec (drop (Suc i) pat) (drop j val)" "memo_ok pat val m1"
    by (auto simp: at_ok_def)
  note star = glob_spec_Star [of "drop (Suc i) pat" "drop j val"]
  note unf = glob_match_at.simps [of pat val i j memo]
  show ?thesis
  proof (cases "\<not> a \<and> j < length val \<and> val ! j \<noteq> ch_slash")
    case go: True
    then have "glob_spec (drop i pat) (drop j val) = glob_spec (drop i pat) (drop (Suc j) val)"
      using a drop_step [of j val] by (simp add: pat star)
    with IH go i None am show ?thesis
      by (auto simp: at_ok_def unf Let_def split: prod.splits intro!: memo_ok_upd)
  next
    case stop: False
    have "glob_spec (drop i pat) (drop j val) = a"
    proof (cases a)
      case False
      with stop have "j < length val \<longrightarrow> val ! j = ch_slash" by simp
      with False a drop_step [of j val] show ?thesis
        unfolding pat star by (cases "j < length val") auto
    qed (use a star in \<open>auto simp: pat\<close>)
    with stop i None am a show ?thesis
      by (auto simp: at_ok_def unf Let_def split: prod.splits intro!: memo_ok_upd)
  qed
qed

lemma glob_match_at_correct:
  "memo_ok pat val memo \<Longrightarrow> i \<le> length pat \<Longrightarrow> j \<le> length val \<Longrightarrow> at_ok pat val i j memo"
proof (induction pat val i j memo rule: glob_match_at.induct)
  case (1 pat val i j memo)
  note unf = glob_match_at.simps [of pat val i j memo]
  consider (hit) r where "memo (i, j) = Some r"
    | (stop) "memo (i, j) = None" "i = length pat"
    | (tok) "memo (i, j) = None" "i < length pat"
    using "1.prems" by (metis le_eq_less_or_eq option.exhaust)
  then show ?case
  proof cases
    case (tok)
    then have S: "Suc i \<le> length pat" by simp
    show ?thesis
    proof (cases "pat ! i")
      case Star
      obtain a m1 where am: "glob_match_at pat val (Suc i) j memo = (a, m1)" by fastforce
      have A: "at_ok pat val (Suc i) j memo"
        using "1.IH"(1) [OF tok Star "1.prems"(1) S "1.prems"(3)] .
      then have m1: "memo_ok pat val m1" using am by (simp add: at_ok_def)
      show ?thesis
      proof (rule at_ok_star [OF tok(2) Star tok(1) am A])
        assume "\<not> a" "j < length val \<and> val ! j \<noteq> ch_slash"
        then show "at_ok pat val i (Suc j) m1"
          using "1.IH"(2) [OF tok Star am [symmetric] refl _ _ m1 "1.prems"(2)] by auto
      qed
    next
      case Any
      show ?thesis
        by (rule at_ok_single [OF "1.prems"(1) tok(2), where ok = "\<lambda>c. c \<noteq> ch_slash"])
          (use Any tok "1.IH"(3) [OF tok Any] "1.prems" in \<open>auto simp: glob_spec_single unf\<close>)
    next
      case (Literal e)
      show ?thesis
        by (rule at_ok_single [OF "1.prems"(1) tok(2), where ok = "\<lambda>c. c = e"])
          (use Literal tok "1.IH"(4) [OF tok Literal] "1.prems" in \<open>auto simp: glob_spec_single unf\<close>)
    next
      case (Class neg rs)
      show ?thesis
        by (rule at_ok_single [OF "1.prems"(1) tok(2), where ok = "class_matches neg rs"])
          (use Class tok "1.IH"(5) [OF tok Class] "1.prems" in \<open>auto simp: glob_spec_single unf\<close>)
    qed
  qed (use "1.prems" at_ok_hit at_ok_end in blast)+
qed

lemma glob_match_spec:
  "glob_match pattern val =
     (case parse_glob pattern of None \<Rightarrow> False | Some tokens \<Rightarrow> glob_spec tokens val)"
  using glob_match_at_correct [of _ val Map.empty 0 0]
  by (auto simp: glob_match_def memo_ok_def at_ok_def split: option.splits)

text \<open>
  A row holds, at every index, whether the tokens consumed so far match that prefix of the
  value; computing the next row keeps this.
\<close>

definition row_ok :: "uchar list \<Rightarrow> glob_token list \<Rightarrow> bool list \<Rightarrow> bool" where
  "row_ok val ts row \<longleftrightarrow>
     length row = Suc (length val) \<and> (\<forall>j \<le> length val. row ! j = glob_spec ts (take j val))"

lemma row_ok_init: "row_ok val [] ((replicate (length val + 1) False)[0 := True])"
  by (auto simp: row_ok_def nth_Cons split: nat.splits)

lemma glob_spec_snoc_one:
  assumes "j < length val" "\<And>w. tok_matches t w \<longleftrightarrow> length w = 1 \<and> ok (hd w)"
  shows "glob_spec (ts @ [t]) (take (Suc j) val) \<longleftrightarrow> glob_spec ts (take j val) \<and> ok (val ! j)"
proof -
  have one: "glob_spec [t] v \<longleftrightarrow> (\<exists>c. v = [c] \<and> ok c)" for v
    by (auto simp: glob_spec_iff_append assms(2) length_Suc_conv)
  show ?thesis
    using assms(1) by (auto simp: glob_spec_append one take_Suc_conv_app_nth)
qed

lemma glob_spec_snoc_Star:
  assumes "j < length val"
  shows "glob_spec (ts @ [Star]) (take (Suc j) val) \<longleftrightarrow>
    glob_spec ts (take (Suc j) val) \<or> glob_spec (ts @ [Star]) (take j val) \<and> val ! j \<noteq> ch_slash"
proof -
  have star: "glob_spec [Star] v \<longleftrightarrow> ch_slash \<notin> set v" for v
    by (auto simp: glob_spec_iff_append tok_matches_def)
  have sn: "take (Suc j) val = take j val @ [val ! j]"
    using assms by (simp add: take_Suc_conv_app_nth)
  show ?thesis
  proof
    assume "glob_spec (ts @ [Star]) (take (Suc j) val)"
    then obtain u v where uv: "take j val @ [val ! j] = u @ v" "glob_spec ts u" "ch_slash \<notin> set v"
      by (auto simp: glob_spec_append star sn)
    then show "glob_spec ts (take (Suc j) val) \<or> glob_spec (ts @ [Star]) (take j val) \<and> val ! j \<noteq> ch_slash"
    proof (cases v rule: rev_cases)
      case (snoc v' c)
      with uv have "take j val = u @ v'" "c = val ! j" by auto
      with uv snoc show ?thesis by (auto simp: glob_spec_append star)
    qed (simp add: sn)
  next
    assume "glob_spec ts (take (Suc j) val) \<or> glob_spec (ts @ [Star]) (take j val) \<and> val ! j \<noteq> ch_slash"
    then show "glob_spec (ts @ [Star]) (take (Suc j) val)"
    proof
      assume "glob_spec ts (take (Suc j) val)"
      then show ?thesis
        unfolding glob_spec_append star by (intro exI [of _ "take (Suc j) val"] exI [of _ "[]"]) simp
    next
      assume "glob_spec (ts @ [Star]) (take j val) \<and> val ! j \<noteq> ch_slash"
      then obtain u v where "take j val = u @ v" "glob_spec ts u" "ch_slash \<notin> set v" "val ! j \<noteq> ch_slash"
        by (auto simp: glob_spec_append star)
      then show ?thesis
        unfolding glob_spec_append star sn by (intro exI [of _ u] exI [of _ "v @ [val ! j]"]) auto
    qed
  qed
qed

lemma dp_cell_correct:
  assumes "row_ok val ts prev" "j < length val"
    and "next_j = glob_spec (ts @ [t]) (take j val)"
  shows "dp_cell t (prev ! j) (prev ! Suc j) next_j (val ! j) = glob_spec (ts @ [t]) (take (Suc j) val)"
proof (cases t)
  case Star
  with assms show ?thesis by (simp add: dp_cell_def glob_spec_snoc_Star row_ok_def)
next
  case Any
  with assms show ?thesis
    by (simp add: dp_cell_def row_ok_def tok_matches_def
        glob_spec_snoc_one [where ok = "\<lambda>c. c \<noteq> ch_slash"])
next
  case (Literal e)
  have "tok_matches t w \<longleftrightarrow> length w = 1 \<and> hd w = e" for w
    using Literal by (auto simp: tok_matches_def length_Suc_conv)
  with Literal assms show ?thesis
    by (simp add: dp_cell_def row_ok_def glob_spec_snoc_one [where ok = "\<lambda>c. c = e"])
next
  case (Class neg rs)
  with assms show ?thesis
    by (simp add: dp_cell_def row_ok_def tok_matches_def
        glob_spec_snoc_one [where ok = "class_matches neg rs"])
qed

lemma glob_spec_snoc_Nil: "glob_spec (ts @ [t]) [] \<longleftrightarrow> t = Star \<and> glob_spec ts []"
  by (cases t) (auto simp: glob_spec_append glob_spec_iff_append tok_matches_def)

lemma dp_row_upto_Suc:
  "dp_row_upto val t prev (Suc k) =
     (let row = dp_row_upto val t prev k
      in row[Suc k := dp_cell t (prev ! k) (prev ! Suc k) (row ! k) (val ! k)])"
  by (simp add: dp_row_upto_def Let_def)

lemma dp_row_prefix:
  assumes "row_ok val ts prev" "k \<le> length val"
  shows "length (dp_row_upto val t prev k) = Suc (length val) \<and>
    (\<forall>j \<le> k. dp_row_upto val t prev k ! j = glob_spec (ts @ [t]) (take j val))"
  using assms(2)
proof (induction k)
  case 0
  then show ?case using assms(1) by (auto simp: dp_row_upto_def row_ok_def glob_spec_snoc_Nil)
next
  case (Suc k)
  then show ?case
    by (auto simp: dp_row_upto_Suc Let_def nth_list_update le_Suc_eq dp_cell_correct [OF assms(1)])
qed

lemma dp_row_correct: "row_ok val ts prev \<Longrightarrow> row_ok val (ts @ [t]) (dp_row val t prev)"
  using dp_row_prefix [of val ts prev "length val" t] by (simp add: row_ok_def dp_row_def)

definition glob_cost :: "nat \<Rightarrow> glob_token list \<Rightarrow> nat" where
  "glob_cost n ts = sum_list (map (token_charge n) ts)"

lemma dp_tokens_correct:
  "row_ok val pre prev \<Longrightarrow>
   dp_tokens val ts prev budget =
     (if glob_cost (length val) ts \<le> budget
      then (glob_spec (pre @ ts) val, budget - glob_cost (length val) ts) else (False, 0))"
proof (induction ts arbitrary: pre prev budget)
  case Nil
  then show ?case by (simp add: row_ok_def glob_cost_def)
next
  case (Cons t ts)
  have "row_ok val (pre @ [t]) (dp_row val t prev)" using Cons.prems by (rule dp_row_correct)
  from Cons.IH [OF this] show ?case by (auto simp: glob_cost_def Let_def)
qed

lemma glob_match_with_budget_spec:
  "glob_match_with_budget pattern val budget =
     (case parse_glob pattern of
        None \<Rightarrow> (False, budget)
      | Some ts \<Rightarrow> if glob_cost (length val) ts \<le> budget
                   then (glob_match pattern val, budget - glob_cost (length val) ts) else (False, 0))"
  using dp_tokens_correct [OF row_ok_init]
  by (auto simp: glob_match_with_budget_def glob_match_spec split: option.splits)

section \<open>The contract a policy relies on\<close>

text \<open>
  What \<open>match_path\<close> and the network-facing callers need of a matcher: a pattern without
  metacharacters matches exactly itself, and a single star never matches a path with a
  slash in it. Inside the contract, a directory pattern \<open>dir/*\<close> reaches the direct children
  of \<open>dir\<close> only.
\<close>

definition meta_free :: "ustring \<Rightarrow> bool" where
  "meta_free p \<longleftrightarrow> (\<forall>c \<in> set p. c \<noteq> ch_star \<and> c \<noteq> ch_question \<and> c \<noteq> ch_lbracket \<and> c \<noteq> ch_backslash)"

locale path_matcher =
  fixes matches :: "ustring \<Rightarrow> ustring \<Rightarrow> bool"
  assumes literal: "meta_free p \<Longrightarrow> matches p v \<longleftrightarrow> v = p"
    and star_child: "meta_free p \<Longrightarrow> matches (p @ [ch_star]) v \<longleftrightarrow> (\<exists>w. v = p @ w \<and> ch_slash \<notin> set w)"
begin

lemma dir_star: "meta_free d \<Longrightarrow>
  matches (d @ lit ''/*'') v \<longleftrightarrow> (\<exists>name. v = d @ ch_slash # name \<and> ch_slash \<notin> set name)"
  using star_child [of "d @ [ch_slash]" v] by (auto simp: meta_free_def)

lemma dir_star_not_below: "meta_free d \<Longrightarrow> ch_slash \<in> set sub \<Longrightarrow> \<not> matches (d @ lit ''/*'') (d @ ch_slash # sub)"
  using dir_star [of d "d @ ch_slash # sub"] by auto

end

lemma parse_glob_meta_free: "meta_free p \<Longrightarrow> parse_glob (p @ q) = map_option ((@) (map Literal p)) (parse_glob q)"
proof (induction p)
  case Nil
  show ?case by (cases "parse_glob q") auto
next
  case (Cons c p)
  then have "parse_glob (p @ q) = map_option ((@) (map Literal p)) (parse_glob q)"
    by (simp add: meta_free_def)
  with Cons.prems show ?case by (cases "parse_glob q") (auto simp: meta_free_def)
qed

lemma glob_spec_literals: "glob_spec (map Literal p @ ts) v \<longleftrightarrow> (\<exists>w. v = p @ w \<and> glob_spec ts w)"
proof (induction p arbitrary: v)
  case (Cons c p)
  show ?case by (cases v) (auto simp: glob_spec_single Cons.IH)
qed simp

interpretation memo_glob: path_matcher glob_match
proof
  fix p v assume p: "meta_free p"
  show "glob_match p v \<longleftrightarrow> v = p"
    using parse_glob_meta_free [OF p, of "[]"] glob_spec_literals [of p "[]" v]
    by (simp add: glob_match_spec)
  show "glob_match (p @ [ch_star]) v \<longleftrightarrow> (\<exists>w. v = p @ w \<and> ch_slash \<notin> set w)"
    using parse_glob_meta_free [OF p, of "[ch_star]"] glob_spec_literals [of p "[Star]" v]
    by (simp add: glob_match_spec glob_spec_iff_append tok_matches_def)
qed

section \<open>Properties\<close>

text \<open>C12. The two matchers agree: with an allowance that covers the pattern's charges the
  budgeted row matcher returns the answer of the memoised backtracking matcher and leaves the
  allowance reduced by exactly those charges; otherwise it refuses the match and leaves no
  allowance for the patterns that follow. An invalid pattern is refused and costs nothing.\<close>

theorem glob_budget_agrees:
  "glob_match_with_budget pattern val budget =
     (case parse_glob pattern of
        None \<Rightarrow> (glob_match pattern val, budget)
      | Some ts \<Rightarrow> if glob_cost (length val) ts \<le> budget
                   then (glob_match pattern val, budget - glob_cost (length val) ts)
                   else (False, 0))"
  by (simp add: glob_match_with_budget_spec glob_match_def split: option.splits)

text \<open>C11. The memoised matcher decides the declarative meaning of the parsed pattern: the value
  splits into one piece per token, where a star takes any piece without a slash, a question mark
  one non-slash character, a literal itself and a class one character in (or, negated, outside)
  its ranges.\<close>

theorem glob_match_meaning:
  "glob_match pattern val \<longleftrightarrow>
     (\<exists>ts ws. parse_glob pattern = Some ts \<and> list_all2 tok_matches ts ws \<and> concat ws = val)"
proof -
  have "glob_spec ts w \<longleftrightarrow> (\<exists>ws. list_all2 tok_matches ts ws \<and> concat ws = w)" for ts w
  proof (induction ts arbitrary: w)
    case (Cons t ts)
    show ?case
      unfolding glob_spec_iff_append Cons.IH
      by (auto simp: list_all2_Cons1 intro: exI [of _ "_ # _"]) blast
  qed auto
  then show ?thesis by (auto simp: glob_match_spec split: option.splits)
qed

text \<open>Containment: the pattern \<open>dir/*\<close> of a directory name without metacharacters matches
  exactly the direct children of that directory, never anything deeper and never the directory
  itself.\<close>

theorem glob_dir_star:
  assumes "meta_free d"
  shows "glob_match (d @ lit ''/*'') v \<longleftrightarrow> (\<exists>name. v = d @ ch_slash # name \<and> ch_slash \<notin> set name)"
  using memo_glob.dir_star [OF assms] .

theorem glob_dir_star_witness:
  "meta_free (lit ''work'') \<and> glob_match (lit ''work'' @ lit ''/*'') (lit ''work/aws'') \<and>
   \<not> glob_match (lit ''work'' @ lit ''/*'') (lit ''work/aws/key'')"
proof -
  have h: "meta_free (lit ''work'')" by (simp add: meta_free_def)
  show ?thesis using h glob_dir_star [OF h] by auto
qed

end
