(* ===== verification/Policy.thy ===== *)
theory Policy
  imports Glob
begin

text \<open>
  \<^verbatim>\<open>symvault-core/src/policy.rs\<close> without its glob matcher (theory \<open>Glob\<close>): policy documents
  and their validation, time-of-day ranges, logical paths, rule matching and the deterministic
  policy engine. An \<open>i32\<close> or \<open>u8\<close> field is an \<open>int\<close> or a \<open>nat\<close> (no operation here can
  overflow), a \<open>BTreeMap\<close> an association list, and an error message the constructor of its
  text with the values the text quotes.
\<close>

section \<open>Actions\<close>

datatype action = Allow | Deny | Prompt | RequireBiometry | Other ustring

fun action_as_str :: "action \<Rightarrow> ustring" where
  "action_as_str Allow = lit ''allow''"
| "action_as_str Deny = lit ''deny''"
| "action_as_str Prompt = lit ''prompt''"
| "action_as_str RequireBiometry = lit ''require_biometry''"
| "action_as_str (Other v) = v"

fun action_is_valid :: "action \<Rightarrow> bool" where
  "action_is_valid (Other _) = False"
| "action_is_valid _ = True"

definition action_visit_str :: "ustring \<Rightarrow> action" where
  "action_visit_str v =
     (if v = lit ''allow'' then Allow
      else if v = lit ''deny'' then Deny
      else if v = lit ''prompt'' then Prompt
      else if v = lit ''require_biometry'' then RequireBiometry
      else Other v)"

interpretation action_text: text_codec action_as_str "\<lambda>s. Some (action_visit_str s)" action_is_valid
  by unfold_locales (auto simp: action_visit_str_def elim!: action_is_valid.elims)

section \<open>Documents\<close>

record time_range =
  tr_start :: ustring
  tr_end :: ustring

record utc_time =
  hour :: nat
  minute :: nat
  second :: nat

record rate_limit_condition =
  max_reads_per_hour :: int
  max_reads_per_day :: int

record conditions =
  c_agent_id :: ustring
  c_path :: ustring
  c_tags :: "ustring list"
  c_working_dir :: ustring
  c_time_of_day :: "time_range option"
  c_env_vars :: "(ustring \<times> ustring) list"
  c_action :: ustring
  c_rate_limit :: "rate_limit_condition option"
  c_allowed_tools :: "ustring list"
  c_max_secrets :: int

record rule =
  r_name :: ustring
  r_priority :: int
  r_conditions :: conditions
  r_action :: action

record policy =
  p_version :: ustring
  p_description :: ustring
  p_rules :: "rule list"

record eval_context =
  x_agent_id :: ustring
  x_path :: ustring
  x_tags :: "ustring list"
  x_working_dir :: ustring
  x_home_dir :: ustring
  x_env_vars :: "(ustring \<times> ustring) list"
  x_action_type :: ustring
  x_tool_name :: ustring
  x_now :: utc_time
  x_secrets_accessed :: int

record eval_result =
  res_action :: action
  res_rule_name :: ustring
  res_matched :: bool

section \<open>Time of day\<close>

datatype hhmm_error =
    CannotParse ustring ustring ustring  \<comment> \<open>value, offending part, layout element\<close>
  | HourOutOfRange ustring
  | MinuteOutOfRange ustring

definition parse_hhmm :: "ustring \<Rightarrow> hhmm_error + nat \<times> nat" where
  "parse_hhmm v =
     (case split_once ch_colon v of
        None \<Rightarrow> Inl (CannotParse v v (lit ''15''))
      | Some (h, m) \<Rightarrow>
          if str_len h \<noteq> 2 \<or> str_len m \<noteq> 2 then Inl (CannotParse v v (lit ''15''))
          else (case parse_u8 h of
                  None \<Rightarrow> Inl (CannotParse v h (lit ''15''))
                | Some hv \<Rightarrow>
                    (case parse_u8 m of
                       None \<Rightarrow> Inl (CannotParse v m (lit ''04''))
                     | Some mv \<Rightarrow>
                         if 23 < hv then Inl (HourOutOfRange v)
                         else if 59 < mv then Inl (MinuteOutOfRange v)
                         else Inr (hv, mv))))"

datatype range_error = InvalidStart ustring hhmm_error | InvalidEnd ustring hhmm_error

definition time_range_parse :: "time_range \<Rightarrow> range_error + nat \<times> nat \<times> nat \<times> nat" where
  "time_range_parse tr =
     (case parse_hhmm (tr_start tr) of
        Inl e \<Rightarrow> Inl (InvalidStart (tr_start tr) e)
      | Inr (sh, sm) \<Rightarrow>
          (case parse_hhmm (tr_end tr) of
             Inl e \<Rightarrow> Inl (InvalidEnd (tr_end tr) e)
           | Inr (eh, em) \<Rightarrow> Inr (sh, sm, eh, em)))"

definition seconds_since_midnight :: "utc_time \<Rightarrow> nat" where
  "seconds_since_midnight t = hour t * 3600 + minute t * 60 + second t"

definition time_range_contains :: "time_range \<Rightarrow> utc_time \<Rightarrow> bool" where
  "time_range_contains tr now =
     (case time_range_parse tr of
        Inl _ \<Rightarrow> False
      | Inr (sh, sm, eh, em) \<Rightarrow>
          (let start = sh * 3600 + sm * 60;
               stop = eh * 3600 + em * 60;
               current = seconds_since_midnight now
           in if stop \<le> start then start \<le> current \<or> current < stop
              else start \<le> current \<and> current < stop))"

definition from_hms :: "nat \<Rightarrow> nat \<Rightarrow> nat \<Rightarrow> utc_time option" where
  "from_hms h m s =
     (if h < 24 \<and> m < 60 \<and> s < 60 then Some \<lparr>hour = h, minute = m, second = s\<rparr> else None)"

text \<open>\<open>UtcTime::parse_rfc3339\<close>; every failure carries the same text, \<open>invalid UTC time\<close>.\<close>

definition utc_of_parts :: "ustring \<Rightarrow> ustring list \<Rightarrow> ustring + utc_time" where
  "utc_of_parts v parts =
     (case parts of
        [h, m, s] \<Rightarrow>
          (case (parse_u8 h, parse_u8 m, parse_u8 s) of
             (Some hv, Some mv, Some sv) \<Rightarrow>
               (case from_hms hv mv sv of Some t \<Rightarrow> Inr t | None \<Rightarrow> Inl v)
           | _ \<Rightarrow> Inl v)
      | _ \<Rightarrow> Inl v)"

definition utc_parse_rfc3339 :: "ustring \<Rightarrow> ustring + utc_time" where
  "utc_parse_rfc3339 v =
     (let time = (case split_once (of_char CHR ''T'') v of Some (_, t) \<Rightarrow> t | None \<Rightarrow> v);
          time = trim_end_matches (of_char CHR ''Z'') time;
          time = (case split_once ch_dot time of Some (p, _) \<Rightarrow> p | None \<Rightarrow> time)
      in utc_of_parts v (split_on ch_colon time))"

section \<open>Validation\<close>

datatype condition_error = InvalidTimeOfDay range_error | InvalidActionType ustring

datatype validation_message =
    VersionRequired
  | NoRules
  | NameRequired nat
  | DuplicateName ustring nat nat  \<comment> \<open>name, index, index reported as first seen\<close>
  | InvalidAction ustring ustring
  | InvalidCondition ustring condition_error

definition action_types :: "ustring list" where
  "action_types = map lit [''read'', ''write'', ''delete'', ''run'', ''list'', ''get'', ''set'', ''find'']"

definition validate_conditions :: "conditions \<Rightarrow> condition_error option" where
  "validate_conditions c =
     (case (case c_time_of_day c of None \<Rightarrow> None
            | Some tr \<Rightarrow> (case time_range_parse tr of Inl e \<Rightarrow> Some (InvalidTimeOfDay e) | Inr _ \<Rightarrow> None)) of
        Some e \<Rightarrow> Some e
      | None \<Rightarrow>
          if c_action c \<noteq> [] \<and> c_action c \<notin> set action_types
          then Some (InvalidActionType (c_action c)) else None)"

definition rule_messages ::
  "(ustring \<Rightarrow> nat option) \<Rightarrow> nat \<Rightarrow> rule \<Rightarrow> validation_message list" where
  "rule_messages seen i r =
     (if r_name r = [] then [NameRequired i]
      else (case seen (r_name r) of Some k \<Rightarrow> [DuplicateName (r_name r) i k] | None \<Rightarrow> []))
     @ (if action_is_valid (r_action r) then [] else [InvalidAction (r_name r) (action_as_str (r_action r))])
     @ (case validate_conditions (r_conditions r) of None \<Rightarrow> [] | Some e \<Rightarrow> [InvalidCondition (r_name r) e])"

fun validate_rules ::
  "(ustring \<Rightarrow> nat option) \<Rightarrow> nat \<Rightarrow> rule list \<Rightarrow> validation_message list" where
  "validate_rules seen i [] = []"
| "validate_rules seen i (r # rs) =
     rule_messages seen i r
     @ validate_rules (if r_name r = [] then seen else seen(r_name r \<mapsto> i)) (Suc i) rs"

definition policy_validate :: "policy \<Rightarrow> validation_message list + unit" where
  "policy_validate p =
     (let messages =
        (if p_version p = [] then [VersionRequired] else [])
        @ (if p_rules p = [] then [NoRules] else [])
        @ validate_rules Map.empty 0 (p_rules p)
      in if messages = [] then Inr () else Inl messages)"

section \<open>Logical paths\<close>

definition push_part :: "bool \<Rightarrow> ustring \<Rightarrow> ustring list \<Rightarrow> ustring list" where
  "push_part absolute part parts =
     (if part = [] \<or> part = lit ''.'' then parts
      else if part = lit ''..'' then
        (if parts \<noteq> [] \<and> last parts \<noteq> lit ''..'' then butlast parts
         else if \<not> absolute then parts @ [lit ''..''] else parts)
      else parts @ [part])"

fun clean_loop :: "bool \<Rightarrow> ustring \<Rightarrow> ustring \<Rightarrow> ustring list \<Rightarrow> ustring list" where
  "clean_loop absolute [] current parts = push_part absolute current parts"
| "clean_loop absolute (c # cs) current parts =
     (if c = ch_slash then clean_loop absolute cs [] (push_part absolute current parts)
      else clean_loop absolute cs (current @ [c]) parts)"

definition clean_path :: "ustring \<Rightarrow> ustring" where
  "clean_path v =
     (let absolute = (v \<noteq> [] \<and> hd v = ch_slash);
          joined = join [ch_slash] (clean_loop absolute v [] [])
      in if absolute then ch_slash # joined else joined)"

fun contains_double_slash :: "ustring \<Rightarrow> bool" where
  "contains_double_slash (a # b # s) = (a = ch_slash \<and> b = ch_slash \<or> contains_double_slash (b # s))"
| "contains_double_slash _ = False"

fun collapse_loop :: "bool \<Rightarrow> ustring \<Rightarrow> ustring" where
  "collapse_loop previous_slash [] = []"
| "collapse_loop previous_slash (c # cs) =
     (if c = ch_slash then
        (if previous_slash then collapse_loop True cs else c # collapse_loop True cs)
      else c # collapse_loop False cs)"

definition collapse_separators :: "ustring \<Rightarrow> ustring" where
  "collapse_separators p =
     (if \<not> contains_double_slash p then p
      else (let collapsed = collapse_loop False p
            in if ends_with [ch_slash] p \<and> \<not> ends_with [ch_slash] collapsed
               then collapsed @ [ch_slash] else collapsed))"

definition join_logical :: "ustring \<Rightarrow> ustring \<Rightarrow> ustring" where
  "join_logical base rest = clean_path (trim_end_matches ch_slash base @ [ch_slash] @ rest)"

definition under_prefix :: "ustring \<Rightarrow> ustring \<Rightarrow> bool" where
  "under_prefix prefix clean \<longleftrightarrow>
     prefix \<noteq> [] \<and> (clean = prefix \<or> starts_with (prefix @ [ch_slash]) clean)"

definition match_path :: "ustring \<Rightarrow> ustring \<Rightarrow> ustring \<Rightarrow> bool" where
  "match_path pattern0 val home =
     (let trimmed = trim pattern0
      in if trimmed = [] \<or> trimmed = [ch_star] then True
         else (let collapsed = collapse_separators trimmed;
                   pattern = (case strip_prefix (lit ''~/'') collapsed of
                                Some rest \<Rightarrow> if home \<noteq> [] then join_logical home rest else collapsed
                              | None \<Rightarrow> collapsed);
                   clean = clean_path val
               in pattern = clean \<or> glob_match pattern clean \<or>
                  (case strip_suffix (lit ''/**'') pattern of
                     Some prefix \<Rightarrow> under_prefix (trim_end_matches ch_slash prefix) clean
                   | None \<Rightarrow> False) \<or>
                  (ends_with [ch_slash] pattern \<and> under_prefix (trim_end_matches ch_slash pattern) clean) \<or>
                  (\<not> list_ex (\<lambda>c. c \<in> set (lit ''*?['')) pattern \<and>
                   (clean = pattern \<or> starts_with (pattern @ [ch_slash]) clean))))"

section \<open>Rules and the engine\<close>

definition match_string :: "ustring \<Rightarrow> ustring \<Rightarrow> bool" where
  "match_string pattern v \<longleftrightarrow> pattern = lit ''*'' \<or> pattern = v"

definition match_any_tag :: "ustring list \<Rightarrow> ustring list \<Rightarrow> bool" where
  "match_any_tag required actual = list_ex (\<lambda>r. list_ex (\<lambda>t. t = r) actual) required"

definition match_env_vars :: "(ustring \<times> ustring) list \<Rightarrow> (ustring \<times> ustring) list \<Rightarrow> bool" where
  "match_env_vars required actual =
     list_all (\<lambda>(key, pattern). case map_of actual key of None \<Rightarrow> False | Some v \<Rightarrow> match_string pattern v)
       required"

definition match_allowed_tool :: "ustring list \<Rightarrow> ustring \<Rightarrow> bool" where
  "match_allowed_tool allowed tool \<longleftrightarrow>
     allowed = [] \<or> tool = [] \<or> list_ex (\<lambda>t. t = tool) allowed"

definition matches_rule :: "rule \<Rightarrow> eval_context \<Rightarrow> bool" where
  "matches_rule r x =
     (let c = r_conditions r
      in if c_agent_id c \<noteq> [] \<and> \<not> match_string (c_agent_id c) (x_agent_id x) then False
         else if c_path c \<noteq> [] \<and> \<not> match_path (c_path c) (x_path x) (x_home_dir x) then False
         else if c_tags c \<noteq> [] \<and> \<not> match_any_tag (c_tags c) (x_tags x) then False
         else if c_working_dir c \<noteq> [] \<and> \<not> match_path (c_working_dir c) (x_working_dir x) (x_home_dir x)
           then False
         else if (case c_time_of_day c of None \<Rightarrow> False | Some tr \<Rightarrow> \<not> time_range_contains tr (x_now x))
           then False
         else if c_env_vars c \<noteq> [] \<and> \<not> match_env_vars (c_env_vars c) (x_env_vars x) then False
         else if c_action c \<noteq> [] \<and> \<not> match_string (c_action c) (x_action_type x) then False
         else if c_allowed_tools c \<noteq> [] \<and> \<not> match_allowed_tool (c_allowed_tools c) (x_tool_name x)
           then False
         else if c_rate_limit c \<noteq> None then False
         else if 0 < c_max_secrets c \<and> c_max_secrets c \<le> x_secrets_accessed x then False
         else True)"

definition default_result :: eval_result where
  "default_result = \<lparr>res_action = Deny, res_rule_name = [], res_matched = False\<rparr>"

text \<open>\<open>Vec::sort_by_key\<close> is stable, as \<open>sort_key\<close> is; \<open>Reverse\<close> makes the order descending.\<close>

definition engine_new :: "policy list \<Rightarrow> rule list" where
  "engine_new policies = sort_key (\<lambda>r. - r_priority r) (concat (map p_rules policies))"

fun engine_evaluate :: "rule list \<Rightarrow> eval_context \<Rightarrow> eval_result" where
  "engine_evaluate [] x = default_result"
| "engine_evaluate (r # rs) x =
     (if matches_rule r x
      then \<lparr>res_action = r_action r, res_rule_name = r_name r, res_matched = True\<rparr>
      else engine_evaluate rs x)"

section \<open>Lemmas on the engine\<close>

lemma engine_evaluate_find:
  "engine_evaluate rs x =
     (case find (\<lambda>r. matches_rule r x) rs of
        None \<Rightarrow> default_result
      | Some r \<Rightarrow> \<lparr>res_action = r_action r, res_rule_name = r_name r, res_matched = True\<rparr>)"
  by (induction rs) auto

text \<open>
  The first match in a stably sorted list is a match of least key, and the first of that key
  in the original order.
\<close>

lemma find_filter_key: "find P (filter Q xs) = find (\<lambda>x. Q x \<and> P x) xs"
  by (induction xs) auto

lemma find_sort_key:
  fixes f :: "'a \<Rightarrow> 'k :: linorder"
  assumes "find P (sort_key f xs) = Some r"
  shows "P r \<and> (\<exists>i < length xs. xs ! i = r \<and>
           (\<forall>j < length xs. P (xs ! j) \<longrightarrow> f r < f (xs ! j) \<or> f r = f (xs ! j) \<and> i \<le> j))"
proof -
  from assms have "find (\<lambda>x. f x = f r \<and> P x) (sort_key f xs) = Some r"
    by (auto simp: find_Some_iff)
  then have "find P (filter (\<lambda>x. f x = f r) (sort_key f xs)) = Some r"
    by (simp add: find_filter_key)
  then have "find (\<lambda>x. f x = f r \<and> P x) xs = Some r"
    by (simp add: sort_key_stable find_filter_key)
  then obtain i where i: "i < length xs" "xs ! i = r" "P r"
      and first: "\<And>j. j < i \<Longrightarrow> \<not> (f (xs ! j) = f r \<and> P (xs ! j))"
    by (auto simp: find_Some_iff)
  have least: "f r \<le> f y" if y: "y \<in> set xs" "P y" for y
  proof -
    from assms obtain k where k: "k < length xs" "sort_key f xs ! k = r"
        "\<forall>j<k. \<not> P (sort_key f xs ! j)" by (auto simp: find_Some_iff)
    from y obtain m where m: "m < length xs" "sort_key f xs ! m = y"
      by (metis in_set_conv_nth length_sort set_sort)
    with y k have "k \<le> m" by (metis not_le)
    moreover have "sorted (map f (sort_key f xs))" by simp
    ultimately show ?thesis
      using k m by (metis length_map length_sort nth_map sorted_iff_nth_mono)
  qed
  have "f r < f (xs ! j) \<or> f r = f (xs ! j) \<and> i \<le> j" if "j < length xs" "P (xs ! j)" for j
    using least [of "xs ! j"] first [of j] that by (metis le_neq_trans not_le nth_mem)
  with i show ?thesis by blast
qed

section \<open>Lemmas on validation\<close>

lemma rule_messages_ok:
  "rule_messages seen i r = [] \<longleftrightarrow>
     r_name r \<noteq> [] \<and> seen (r_name r) = None \<and> action_is_valid (r_action r) \<and>
     validate_conditions (r_conditions r) = None"
  by (auto simp: rule_messages_def split: option.splits)

definition rule_ok :: "rule \<Rightarrow> bool" where
  "rule_ok r \<longleftrightarrow> r_name r \<noteq> [] \<and> action_is_valid (r_action r) \<and>
     validate_conditions (r_conditions r) = None"

lemma validate_rules_ok:
  "validate_rules seen i rs = [] \<longleftrightarrow>
     list_all rule_ok rs \<and> distinct (map r_name rs) \<and> (\<forall>r \<in> set rs. seen (r_name r) = None)"
  by (induction rs arbitrary: seen i) (auto simp: rule_messages_ok rule_ok_def image_iff)

text \<open>The index a duplicate-name message reports is the nearest earlier one.\<close>

lemma rule_messages_duplicate:
  "DuplicateName n i' k \<in> set (rule_messages seen i r) \<longleftrightarrow>
     i' = i \<and> n = r_name r \<and> n \<noteq> [] \<and> seen n = Some k"
  by (auto simp: rule_messages_def split: option.splits)

text \<open>The names seen once the loop has passed the rules \<open>rs\<close>, numbered from \<open>b\<close>.\<close>

fun seen_after :: "(ustring \<Rightarrow> nat option) \<Rightarrow> nat \<Rightarrow> rule list \<Rightarrow> (ustring \<Rightarrow> nat option)" where
  "seen_after seen b [] = seen"
| "seen_after seen b (r # rs) =
     seen_after (if r_name r = [] then seen else seen(r_name r \<mapsto> b)) (Suc b) rs"

lemma seen_after_append:
  "seen_after seen b (rs @ [r]) =
     (let s = seen_after seen b rs in if r_name r = [] then s else s(r_name r \<mapsto> b + length rs))"
  by (induction rs arbitrary: seen b) (auto simp: Let_def)

lemma seen_after_nearest:
  "seen_after Map.empty 0 rs n = Some k \<longleftrightarrow>
     n \<noteq> [] \<and> k < length rs \<and> r_name (rs ! k) = n \<and> (\<forall>l. k < l \<and> l < length rs \<longrightarrow> r_name (rs ! l) \<noteq> n)"
proof (induction rs arbitrary: k rule: rev_induct)
  case (snoc r rs)
  have "(rs @ [r]) ! length rs = r" by simp
  note last = this
  show ?case
  proof (cases "r_name r = n \<and> n \<noteq> []")
    case True
    then have "seen_after Map.empty 0 (rs @ [r]) n = Some (length rs)"
      by (simp add: seen_after_append Let_def)
    moreover have "k = length rs"
      if "k < length (rs @ [r])" "\<forall>l. k < l \<and> l < length (rs @ [r]) \<longrightarrow> r_name ((rs @ [r]) ! l) \<noteq> n"
      using that True last by (metis length_append_singleton lessI less_SucE)
    ultimately show ?thesis using True by auto
  next
    case False
    then have "seen_after Map.empty 0 (rs @ [r]) n = seen_after Map.empty 0 rs n \<or> n = []"
      by (auto simp: seen_after_append Let_def)
    moreover have "n \<noteq> [] \<Longrightarrow> r_name ((rs @ [r]) ! length rs) \<noteq> n" using False by auto
    ultimately show ?thesis
      using False snoc.IH by (cases "n = []") (auto simp: nth_append less_Suc_eq seen_after_append Let_def)
  qed
qed simp

lemma validate_rules_append:
  "validate_rules seen b (rs @ rs') =
     validate_rules seen b rs @ validate_rules (seen_after seen b rs) (b + length rs) rs'"
  by (induction rs arbitrary: seen b) auto

lemma validate_rules_indices:
  "DuplicateName n i k \<in> set (validate_rules seen b rs) \<Longrightarrow> b \<le> i \<and> i < b + length rs"
  by (induction rs arbitrary: seen b) (fastforce simp: rule_messages_duplicate)+

lemma validate_rules_duplicate:
  assumes "i < length rs"
  shows "DuplicateName n i k \<in> set (validate_rules Map.empty 0 rs) \<longleftrightarrow>
     r_name (rs ! i) = n \<and> seen_after Map.empty 0 (take i rs) n = Some k"
proof -
  have "validate_rules Map.empty 0 rs = validate_rules Map.empty 0 (take i rs) @
      rule_messages (seen_after Map.empty 0 (take i rs)) i (rs ! i) @
      validate_rules (seen_after Map.empty 0 (take (Suc i) rs)) (Suc i) (drop (Suc i) rs)"
    using assms validate_rules_append [of Map.empty 0 "take i rs" "rs ! i # drop (Suc i) rs"]
    by (simp add: id_take_nth_drop [symmetric] take_Suc_conv_app_nth seen_after_append Let_def)
  moreover have "seen_after Map.empty 0 (take i rs) n = Some k \<Longrightarrow> n \<noteq> []"
    by (simp add: seen_after_nearest)
  ultimately show ?thesis
    using validate_rules_indices [of n i k] by (fastforce simp: rule_messages_duplicate)
qed

section \<open>Properties of the engine\<close>

text \<open>C5. The engine is deny-by-default and picks by priority: when no rule of any policy matches
  the context the result is an unmatched denial; otherwise it is the action and name of a matching
  rule such that every other matching rule has a lower priority, or the same priority and a later
  position in the order of the documents.\<close>

theorem engine_evaluate_priority:
  "let rules = concat (map p_rules policies); res = engine_evaluate (engine_new policies) x in
     (if \<exists>r \<in> set rules. matches_rule r x
      then \<exists>i < length rules. matches_rule (rules ! i) x \<and>
             res = \<lparr>res_action = r_action (rules ! i), res_rule_name = r_name (rules ! i), res_matched = True\<rparr> \<and>
             (\<forall>j < length rules. matches_rule (rules ! j) x \<longrightarrow>
                r_priority (rules ! j) < r_priority (rules ! i) \<or>
                r_priority (rules ! j) = r_priority (rules ! i) \<and> i \<le> j)
      else res = \<lparr>res_action = Deny, res_rule_name = [], res_matched = False\<rparr>)"
proof (cases "find (\<lambda>r. matches_rule r x) (engine_new policies)")
  case None
  then have "\<not> (\<exists>r \<in> set (concat (map p_rules policies)). matches_rule r x)"
    by (auto simp: find_None_iff engine_new_def)
  with None show ?thesis by (simp add: engine_evaluate_find default_result_def)
next
  case (Some r)
  define rules where "rules = concat (map p_rules policies)"
  from find_sort_key [OF Some [unfolded engine_new_def]] obtain i where
    i: "matches_rule r x" "i < length rules" "rules ! i = r" "\<forall>j < length rules. matches_rule (rules ! j) x \<longrightarrow>
       r_priority (rules ! j) < r_priority r \<or> r_priority (rules ! j) = r_priority r \<and> i \<le> j"
    unfolding rules_def by fastforce
  then have "\<exists>r \<in> set rules. matches_rule r x" by auto
  with i Some show ?thesis
    unfolding Let_def rules_def [symmetric] if_P [OF \<open>\<exists>r \<in> set rules. matches_rule r x\<close>]
    by (intro exI [of _ i]) (simp add: engine_evaluate_find)
qed

text \<open>Validation accepts exactly the well-formed documents: a version, at least one rule, every
  rule named, names pairwise distinct, every action one of the four known ones, and every rule's
  conditions valid.\<close>

theorem policy_validate_iff:
  "policy_validate p = Inr () \<longleftrightarrow>
     p_version p \<noteq> [] \<and> p_rules p \<noteq> [] \<and> distinct (map r_name (p_rules p)) \<and>
     (\<forall>r \<in> set (p_rules p). r_name r \<noteq> [] \<and> action_is_valid (r_action r) \<and>
        validate_conditions (r_conditions r) = None)"
  by (auto simp: policy_validate_def validate_rules_ok rule_ok_def list_all_iff)

text \<open>The index that a duplicate-name message gives as the one where the name was first seen is
  the nearest earlier rule of that name, which is the first one only when the name occurs twice: a
  third rule of a name is reported against the second.\<close>

theorem policy_validate_duplicate_index:
  assumes "policy_validate p = Inl msgs" and "i < length (p_rules p)"
  shows "DuplicateName n i k \<in> set msgs \<longleftrightarrow>
     r_name (p_rules p ! i) = n \<and> n \<noteq> [] \<and> k < i \<and> r_name (p_rules p ! k) = n \<and>
     (\<forall>l. k < l \<and> l < i \<longrightarrow> r_name (p_rules p ! l) \<noteq> n)"
proof -
  from assms(1) have "DuplicateName n i k \<in> set msgs \<longleftrightarrow>
      DuplicateName n i k \<in> set (validate_rules Map.empty 0 (p_rules p))"
    by (auto simp: policy_validate_def Let_def split: if_splits)
  also have "\<dots> \<longleftrightarrow> r_name (p_rules p ! i) = n \<and> seen_after Map.empty 0 (take i (p_rules p)) n = Some k"
    by (rule validate_rules_duplicate [OF assms(2)])
  finally show ?thesis using assms(2) by (auto simp: seen_after_nearest)
qed

definition sample_conditions :: conditions where
  "sample_conditions = \<lparr>c_agent_id = [], c_path = [], c_tags = [], c_working_dir = [],
     c_time_of_day = None, c_env_vars = [], c_action = [], c_rate_limit = None,
     c_allowed_tools = [], c_max_secrets = 0\<rparr>"

definition sample_rule :: "string \<Rightarrow> int \<Rightarrow> action \<Rightarrow> rule" where
  "sample_rule n pr a = \<lparr>r_name = lit n, r_priority = pr, r_conditions = sample_conditions, r_action = a\<rparr>"

definition sample_triple :: policy where
  "sample_triple = \<lparr>p_version = lit ''1'', p_description = [],
     p_rules = [sample_rule ''a'' 0 Allow, sample_rule ''a'' 0 Deny, sample_rule ''a'' 0 Prompt]\<rparr>"

theorem policy_validate_duplicate_index_witness:
  "policy_validate sample_triple = Inl [DuplicateName (lit ''a'') 1 0, DuplicateName (lit ''a'') 2 1] \<and>
   \<not> (DuplicateName (lit ''a'') 2 0 \<in>
        set [DuplicateName (lit ''a'') 1 0, DuplicateName (lit ''a'') 2 1])"
proof -
  have h: "policy_validate sample_triple
      = Inl [DuplicateName (lit ''a'') 1 0, DuplicateName (lit ''a'') 2 1]"
    by (simp add: policy_validate_def sample_triple_def sample_rule_def rule_messages_def
        validate_conditions_def sample_conditions_def)
  have len: "2 < length (p_rules sample_triple)" by (simp add: sample_triple_def)
  have "r_name (p_rules sample_triple ! 1) = lit ''a''" by (simp add: sample_triple_def sample_rule_def)
  then show ?thesis
    using h policy_validate_duplicate_index [OF h len, of "lit ''a''" 0] by auto
qed

definition sample_context :: eval_context where
  "sample_context = \<lparr>x_agent_id = lit ''agent'', x_path = lit ''work/aws'', x_tags = [],
     x_working_dir = [], x_home_dir = [], x_env_vars = [], x_action_type = lit ''read'',
     x_tool_name = [], x_now = \<lparr>hour = 12, minute = 0, second = 0\<rparr>, x_secrets_accessed = 0\<rparr>"

definition sample_ranked :: policy where
  "sample_ranked = \<lparr>p_version = lit ''1'', p_description = [],
     p_rules = [sample_rule ''a'' 1 Allow, sample_rule ''b'' 7 Deny, sample_rule ''c'' 7 Prompt]\<rparr>"

lemma sample_rule_simps [simp]:
  "r_name (sample_rule n pr a) = lit n"
  "r_priority (sample_rule n pr a) = pr"
  "r_action (sample_rule n pr a) = a"
  "matches_rule (sample_rule n pr a) x"
  by (simp_all add: sample_rule_def matches_rule_def sample_conditions_def)

theorem engine_evaluate_priority_witness:
  "(\<exists>r \<in> set (concat (map p_rules [sample_ranked])). matches_rule r sample_context) \<and>
   engine_evaluate (engine_new [sample_ranked]) sample_context
     = \<lparr>res_action = Deny, res_rule_name = lit ''b'', res_matched = True\<rparr>"
proof -
  define rules where "rules = [sample_rule ''a'' 1 Allow, sample_rule ''b'' 7 Deny, sample_rule ''c'' 7 Prompt]"
  have R: "concat (map p_rules [sample_ranked]) = rules" by (simp add: sample_ranked_def rules_def)
  have ex: "\<exists>r \<in> set rules. matches_rule r sample_context" by (simp add: rules_def)
  have len: "length rules = 3" by (simp add: rules_def)
  obtain i where i: "i < 3" "engine_evaluate (engine_new [sample_ranked]) sample_context =
        \<lparr>res_action = r_action (rules ! i), res_rule_name = r_name (rules ! i), res_matched = True\<rparr>"
      and top: "\<forall>j < 3. matches_rule (rules ! j) sample_context \<longrightarrow>
        r_priority (rules ! j) < r_priority (rules ! i) \<or> r_priority (rules ! j) = r_priority (rules ! i) \<and> i \<le> j"
    using engine_evaluate_priority [of "[sample_ranked]" sample_context] ex
    unfolding R Let_def if_P [OF ex] len by blast
  have "i = 1"
    using i(1) top [rule_format, of 1] by (auto simp: rules_def nth_Cons split: nat.splits)
  with i(2) R ex show ?thesis by (simp add: rules_def)
qed

theorem policy_validate_iff_witness:
  "policy_validate sample_ranked = Inr () \<and> distinct (map r_name (p_rules sample_ranked))"
proof -
  have "policy_validate sample_ranked = Inr ()"
    unfolding policy_validate_iff
    by (simp add: sample_ranked_def sample_rule_def sample_conditions_def validate_conditions_def)
  then show ?thesis using policy_validate_iff [of sample_ranked] by simp
qed

section \<open>Time ranges\<close>

lemma parse_hhmm_bounds:
  assumes "parse_hhmm v = Inr (h, m)"
  shows "h < 24 \<and> m < 60"
  using assms by (auto simp: parse_hhmm_def split: option.splits if_splits)

definition clock_ok :: "utc_time \<Rightarrow> bool" where
  "clock_ok t \<longleftrightarrow> hour t < 24 \<and> minute t < 60 \<and> second t < 60"

lemma from_hms_clock_ok: "from_hms h m s = Some t \<Longrightarrow> clock_ok t"
  by (auto simp: from_hms_def clock_ok_def split: if_splits)

lemma utc_parse_clock_ok: "utc_parse_rfc3339 v = Inr t \<Longrightarrow> clock_ok t"
proof -
  assume "utc_parse_rfc3339 v = Inr t"
  then obtain ps where "utc_of_parts v ps = Inr t" by (auto simp: utc_parse_rfc3339_def Let_def)
  then obtain h m s where "from_hms h m s = Some t"
    by (auto simp: utc_of_parts_def split: list.split_asm option.split_asm)
  then show ?thesis by (rule from_hms_clock_ok)
qed

lemma seconds_bound: "clock_ok t \<Longrightarrow> seconds_since_midnight t < 86400"
  unfolding clock_ok_def seconds_since_midnight_def by linarith

text \<open>Membership in a cyclic interval of the day, as a distance from the start.\<close>

lemma cyclic_interval:
  fixes s e c :: nat
  assumes "s < 86400" "e < 86400" "c < 86400"
  shows "(if e \<le> s then s \<le> c \<or> c < e else s \<le> c \<and> c < e) \<longleftrightarrow>
    s = e \<or> (c + 86400 - s) mod 86400 < (e + 86400 - s) mod 86400"
proof -
  have dist: "(x + 86400 - s) mod 86400 = (if s \<le> x then x - s else x + 86400 - s)" if "x < 86400" for x
  proof (cases "s \<le> x")
    case True
    then have "x + 86400 - s = (x - s) + 86400" by linarith
    then have "(x + 86400 - s) mod 86400 = (x - s) mod 86400" by (simp only: mod_add_self2)
    with True that show ?thesis by (simp only: if_True) (simp add: less_imp_diff_less)
  qed (use that assms in simp)
  show ?thesis unfolding dist [OF assms(2)] dist [OF assms(3)] using assms by (auto split: if_splits)
qed

text \<open>A time-of-day range that parses holds exactly on a cyclic interval of the day: counted
  forward around the clock from the start, the current second comes before the end; equal endpoints
  hold all day. A range that does not parse never holds.\<close>

theorem time_range_contains_cyclic:
  assumes "clock_ok now"
  shows "time_range_contains tr now \<longleftrightarrow>
    (\<exists>sh sm eh em. time_range_parse tr = Inr (sh, sm, eh, em) \<and>
      (let start = sh * 3600 + sm * 60; stop = eh * 3600 + em * 60 in
        start = stop \<or>
        (seconds_since_midnight now + 86400 - start) mod 86400 < (stop + 86400 - start) mod 86400))"
proof (cases "time_range_parse tr")
  case (Inr r)
  obtain sh sm eh em where r: "r = (sh, sm, eh, em)" by (cases r) auto
  from Inr r have "parse_hhmm (tr_start tr) = Inr (sh, sm)" "parse_hhmm (tr_end tr) = Inr (eh, em)"
    by (auto simp: time_range_parse_def split: sum.splits)
  then have b: "sh < 24" "sm < 60" "eh < 24" "em < 60" by (blast dest: parse_hhmm_bounds)+
  have "sh * 3600 + sm * 60 < 86400" "eh * 3600 + em * 60 < 86400" using b by linarith+
  from cyclic_interval [OF this seconds_bound [OF assms]] Inr r show ?thesis
    by (simp add: time_range_contains_def Let_def)
qed (simp add: time_range_contains_def)

theorem time_range_contains_cyclic_witness:
  "clock_ok \<lparr>hour = 3, minute = 0, second = 0\<rparr> \<and>
   time_range_contains \<lparr>tr_start = lit ''22:00'', tr_end = lit ''06:00''\<rparr> \<lparr>hour = 3, minute = 0, second = 0\<rparr>"
proof -
  have h: "clock_ok \<lparr>hour = 3, minute = 0, second = 0\<rparr>" by (simp add: clock_ok_def)
  have "time_range_parse \<lparr>tr_start = lit ''22:00'', tr_end = lit ''06:00''\<rparr> = Inr (22, 0, 6, 0)"
    by (simp add: time_range_parse_def parse_hhmm_def parse_u8_def is_digit_def digits_value_def utf8_width_def)
  then show ?thesis
    using h time_range_contains_cyclic [OF h] by (auto simp: seconds_since_midnight_def)
qed

text \<open>The parser of clock times accepts a plus sign in place of the first digit of the hour or of
  the minute, although the documented form is two digits on each side: \<open>+9:+5\<close> reads as 09:05.
  Every accepted text has two one-byte characters on each side of its first colon and names a valid
  hour and minute.\<close>

theorem parse_hhmm_accepts:
  assumes "parse_hhmm v = Inr (h, m)"
  shows "\<exists>a b c d. v = [a, b, ch_colon, c, d] \<and> h < 24 \<and> m < 60 \<and>
    (is_digit a \<or> a = ch_plus) \<and> is_digit b \<and> (is_digit c \<or> c = ch_plus) \<and> is_digit d"
proof -
  from assms obtain hs ms where v: "v = hs @ ch_colon # ms" and len: "str_len hs = 2" "str_len ms = 2"
      and p: "parse_u8 hs = Some h" "parse_u8 ms = Some m"
    by (auto simp: parse_hhmm_def split_once_Some_iff split: option.splits if_splits)
  have two: "\<exists>a b. s = [a, b] \<and> (is_digit a \<or> a = ch_plus) \<and> is_digit b"
    if "str_len s = 2" "parse_u8 s = Some n" for s n
  proof -
    from that(2) obtain ds where ds: "ds \<noteq> []" "list_all is_digit ds" "s = ds \<or> s = ch_plus # ds"
      by (auto simp: parse_u8_def Let_def split: if_splits list.splits)
    have w: "utf8_width c = 1" if "is_digit c" for c using that by (simp add: is_digit_def utf8_width_def)
    have "str_len ds = length ds" using ds(2) by (induction ds) (auto simp: w)
    moreover have "utf8_width ch_plus = 1" by (simp add: utf8_width_def)
    ultimately have "length s = 2" using ds(3) that(1) by auto
    then obtain a b where "s = [a, b]" by (metis Suc_1 length_0_conv length_Suc_conv One_nat_def)
    with ds show ?thesis by auto
  qed
  show ?thesis
    using v two [OF len(1) p(1)] two [OF len(2) p(2)] parse_hhmm_bounds [OF assms] by fastforce
qed

theorem parse_hhmm_accepts_witness:
  "parse_hhmm (lit ''+9:+5'') = Inr (9, 5) \<and> \<not> is_digit (hd (lit ''+9:+5''))"
proof -
  have h: "parse_hhmm (lit ''+9:+5'') = Inr (9, 5)"
    by (simp add: parse_hhmm_def parse_u8_def is_digit_def digits_value_def utf8_width_def)
  show ?thesis using h parse_hhmm_accepts [OF h] by (auto simp: is_digit_def)
qed

section \<open>Paths\<close>

abbreviation dotdot :: ustring where "dotdot \<equiv> [ch_dot, ch_dot]"

lemma clean_loop_split:
  "ch_slash \<notin> set current \<Longrightarrow>
   clean_loop ab cs current parts = foldl (\<lambda>ps p. push_part ab p ps) parts (split_on ch_slash (current @ cs))"
proof (induction ab cs current parts rule: clean_loop.induct)
  case (1 ab current parts)
  then show ?case by (simp add: split_on_no_sep)
next
  case (2 ab c cs current parts)
  then show ?case by (auto simp: split_on_append_sep)
qed

text \<open>
  The shape of cleaned parts: no empty part, no dot, no slash inside a part, and parent
  references only at the front of a relative path.
\<close>

definition part_ok :: "ustring \<Rightarrow> bool" where
  "part_ok p \<longleftrightarrow> p \<noteq> [] \<and> p \<noteq> [ch_dot] \<and> ch_slash \<notin> set p"

definition parts_ok :: "bool \<Rightarrow> ustring list \<Rightarrow> bool" where
  "parts_ok ab ps \<longleftrightarrow> (\<forall>p \<in> set ps. part_ok p) \<and>
     (\<exists>k qs. ps = replicate k dotdot @ qs \<and> dotdot \<notin> set qs \<and> (ab \<longrightarrow> k = 0))"

lemma parts_okI:
  "(\<And>p. p \<in> set ps \<Longrightarrow> part_ok p) \<Longrightarrow> ps = replicate k dotdot @ qs \<Longrightarrow> dotdot \<notin> set qs \<Longrightarrow>
   (ab \<Longrightarrow> k = 0) \<Longrightarrow> parts_ok ab ps"
  unfolding parts_ok_def by blast

lemma parts_okE:
  assumes "parts_ok ab ps"
  obtains k qs where "\<And>p. p \<in> set ps \<Longrightarrow> part_ok p" "ps = replicate k dotdot @ qs"
    "dotdot \<notin> set qs" "ab \<Longrightarrow> k = 0"
  using assms unfolding parts_ok_def by blast

lemma parts_ok_butlast:
  assumes "parts_ok ab ps" "ps \<noteq> []" "last ps \<noteq> dotdot"
  shows "parts_ok ab (butlast ps)"
  using assms(1)
proof (rule parts_okE)
  fix k qs
  assume ok: "\<And>p. p \<in> set ps \<Longrightarrow> part_ok p" and ps: "ps = replicate k dotdot @ qs"
    and qs: "dotdot \<notin> set qs" and k: "ab \<Longrightarrow> k = 0"
  have "qs \<noteq> []" using ps assms(2,3) by (auto simp: last_replicate)
  then have "butlast ps = replicate k dotdot @ butlast qs" using ps by (simp add: butlast_append)
  then show ?thesis
    by (rule parts_okI [rotated]) (use ok qs k in \<open>auto dest: in_set_butlastD\<close>)
qed

lemma parts_ok_up:
  assumes "parts_ok False ps" "ps = [] \<or> last ps = dotdot"
  shows "parts_ok False (ps @ [dotdot])"
  using assms(1)
proof (rule parts_okE)
  fix k qs
  assume ok: "\<And>p. p \<in> set ps \<Longrightarrow> part_ok p" and ps: "ps = replicate k dotdot @ qs"
    and qs: "dotdot \<notin> set qs"
  have "qs = []" using ps qs assms(2) by (metis append_is_Nil_conv last_appendR last_in_set)
  with ps have "ps @ [dotdot] = replicate (Suc k) dotdot @ []" by (simp add: replicate_append_same)
  then show ?thesis by (rule parts_okI [rotated]) (use ok in \<open>auto simp: part_ok_def\<close>)
qed

lemma parts_ok_snoc:
  assumes "parts_ok ab ps" "part_ok p" "p \<noteq> dotdot"
  shows "parts_ok ab (ps @ [p])"
  using assms(1)
proof (rule parts_okE)
  fix k qs
  assume ok: "\<And>p. p \<in> set ps \<Longrightarrow> part_ok p" and ps: "ps = replicate k dotdot @ qs"
    and qs: "dotdot \<notin> set qs" and k: "ab \<Longrightarrow> k = 0"
  from ps have "ps @ [p] = replicate k dotdot @ (qs @ [p])" by simp
  then show ?thesis by (rule parts_okI [rotated]) (use ok qs k assms in auto)
qed

lemma push_part_ok:
  assumes "parts_ok ab ps" "ch_slash \<notin> set p"
  shows "parts_ok ab (push_part ab p ps)"
  using assms parts_ok_butlast [of ab ps] parts_ok_up [of ps] parts_ok_snoc [of ab ps p]
  by (auto simp: push_part_def part_ok_def)

lemma foldl_push_ok:
  "parts_ok ab ps \<Longrightarrow> (\<And>p. p \<in> set xs \<Longrightarrow> ch_slash \<notin> set p) \<Longrightarrow>
   parts_ok ab (foldl (\<lambda>ps p. push_part ab p ps) ps xs)"
  by (induction xs arbitrary: ps) (auto simp: push_part_ok)

text \<open>Parts of that shape go through the loop unchanged.\<close>

lemma push_part_keep:
  assumes "parts_ok ab (ps @ p # qs)"
  shows "push_part ab p ps = ps @ [p]"
proof (cases "p = dotdot")
  case True
  from assms obtain k rs where eq: "ps @ p # qs = replicate k dotdot @ rs"
      and rs: "dotdot \<notin> set rs" and k: "ab \<longrightarrow> k = 0" by (auto elim!: parts_okE)
  have lt: "length ps < k"
  proof (rule ccontr)
    assume "\<not> length ps < k"
    then have "(replicate k dotdot @ rs) ! length ps \<in> set rs"
      using arg_cong [OF eq, of length] by (simp add: nth_append)
    then have "p \<in> set rs" unfolding eq [symmetric] by simp
    with True rs show False by simp
  qed
  then have "ps = replicate (length ps) dotdot"
    using arg_cong [OF eq, of "take (length ps)"] by simp
  then have "ps = [] \<or> last ps = dotdot" by (metis last_replicate length_0_conv)
  with True k lt show ?thesis by (auto simp: push_part_def)
next
  case False
  with assms show ?thesis by (auto simp: push_part_def parts_ok_def part_ok_def)
qed

lemma foldl_push_keep:
  "parts_ok ab (ps @ xs) \<Longrightarrow> foldl (\<lambda>ps p. push_part ab p ps) ps xs = ps @ xs"
proof (induction xs arbitrary: ps)
  case (Cons p xs)
  with push_part_keep [of ab ps p xs] show ?case by simp
qed simp

definition path_absolute :: "ustring \<Rightarrow> bool" where
  "path_absolute v \<longleftrightarrow> v \<noteq> [] \<and> hd v = ch_slash"

definition path_parts :: "ustring \<Rightarrow> ustring list" where
  "path_parts v = foldl (\<lambda>ps p. push_part (path_absolute v) p ps) [] (split_on ch_slash v)"

lemma clean_path_parts:
  "clean_path v = (if path_absolute v then [ch_slash] else []) @ join [ch_slash] (path_parts v)"
  by (simp add: clean_path_def clean_loop_split path_parts_def path_absolute_def Let_def)

lemma path_parts_ok: "parts_ok (path_absolute v) (path_parts v)"
  unfolding path_parts_def
  by (rule foldl_push_ok) (auto simp: split_on_pieces intro: parts_okI [of _ 0 "[]"])

lemma path_parts_join:
  assumes "parts_ok ab ps"
  shows "path_absolute ((if ab then [ch_slash] else []) @ join [ch_slash] ps) = ab"
    "path_parts ((if ab then [ch_slash] else []) @ join [ch_slash] ps) = ps"
proof -
  have nosep: "\<And>p. p \<in> set ps \<Longrightarrow> ch_slash \<notin> set p" using assms by (auto simp: parts_ok_def part_ok_def)
  show a: "path_absolute ((if ab then [ch_slash] else []) @ join [ch_slash] ps) = ab"
  proof (cases ps)
    case (Cons p qs)
    with assms have "p \<noteq> []" "ch_slash \<notin> set p" by (auto simp: parts_ok_def part_ok_def)
    with Cons show ?thesis by (cases qs; cases p) (auto simp: path_absolute_def)
  qed (auto simp: path_absolute_def)
  have split: "split_on ch_slash (join [ch_slash] ps) = (if ps = [] then [[]] else ps)"
    using split_on_join [OF _ nosep] by auto
  have "split_on ch_slash ((if ab then [ch_slash] else []) @ join [ch_slash] ps)
      = (if ab then [[]] else []) @ (if ps = [] then [[]] else ps)"
    using split by simp
  moreover have "push_part ab [] [] = []" by (simp add: push_part_def)
  ultimately show "path_parts ((if ab then [ch_slash] else []) @ join [ch_slash] ps) = ps"
    using foldl_push_keep [of ab "[]" ps] assms unfolding path_parts_def a by auto
qed

lemma path_parts_clean:
  "path_absolute (clean_path v) = path_absolute v" "path_parts (clean_path v) = path_parts v"
  using path_parts_join [OF path_parts_ok, of v] by (simp_all add: clean_path_parts)

lemma clean_path_idem: "clean_path (clean_path v) = clean_path v"
  unfolding clean_path_parts [of "clean_path v"] path_parts_clean by (simp add: clean_path_parts [of v])

text \<open>
  A plain directory name: no glob metacharacter, no empty component, no trailing slash, no
  surrounding white space and no home prefix.
\<close>

definition plain_dir :: "ustring \<Rightarrow> bool" where
  "plain_dir d \<longleftrightarrow> d \<noteq> [] \<and> meta_free d \<and> \<not> contains_double_slash d \<and> last d \<noteq> ch_slash \<and>
     \<not> is_whitespace (hd d) \<and> \<not> is_whitespace (last d) \<and> strip_prefix (lit ''~/'') (d @ [ch_slash]) = None"

lemma plain_dir_double_slash:
  "\<not> contains_double_slash d \<Longrightarrow> d \<noteq> [] \<Longrightarrow> last d \<noteq> ch_slash \<Longrightarrow>
   \<not> contains_double_slash (d @ [ch_slash, ch_star, ch_star])"
  by (induction d rule: contains_double_slash.induct) auto

lemma strip_prefix_None_append: "strip_prefix p (s @ [c]) = None \<Longrightarrow> length p \<le> length s + 1 \<Longrightarrow> strip_prefix p (s @ c # t) = None"
proof (rule ccontr)
  assume none: "strip_prefix p (s @ [c]) = None" and len: "length p \<le> length s + 1"
    and "strip_prefix p (s @ c # t) \<noteq> None"
  then obtain r where "(s @ [c]) @ t = p @ r" by (auto simp: strip_prefix_Some_iff)
  then have "s @ [c] = p @ take (length (s @ [c]) - length p) r"
    using len by (metis (no_types, lifting) append_eq_append_conv2 append_take_drop_id length_append
        length_append_singleton Suc_eq_plus1 append_eq_conv_conj take_all take_append)
  with none show False by (metis strip_prefix_append option.distinct(1))
qed

lemma glob_match_subtree_pattern:
  assumes "meta_free d" "glob_match (d @ [ch_slash, ch_star, ch_star]) v"
  shows "starts_with (d @ [ch_slash]) v"
proof -
  have "parse_glob [ch_slash, ch_star, ch_star] = Some [Literal ch_slash, Star, Star]" by simp
  with assms obtain w where "v = d @ w" "glob_spec [Literal ch_slash, Star, Star] w"
    by (auto simp: glob_match_spec parse_glob_meta_free glob_spec_literals)
  then show ?thesis by (cases w) (auto simp: glob_spec_single starts_with_iff)
qed

text \<open>A pattern that trimming, collapsing and home expansion leave alone.\<close>

definition inert_pattern :: "ustring \<Rightarrow> bool" where
  "inert_pattern p \<longleftrightarrow> p \<noteq> [] \<and> p \<noteq> [ch_star] \<and> trim p = p \<and> collapse_separators p = p \<and>
     strip_prefix (lit ''~/'') p = None"

lemma match_path_inert:
  assumes "inert_pattern p"
  shows "match_path p v home \<longleftrightarrow>
    (let clean = clean_path v in
      p = clean \<or> glob_match p clean \<or>
      (case strip_suffix [ch_slash, ch_star, ch_star] p of
         Some prefix \<Rightarrow> under_prefix (trim_end_matches ch_slash prefix) clean | None \<Rightarrow> False) \<or>
      (ends_with [ch_slash] p \<and> under_prefix (trim_end_matches ch_slash p) clean) \<or>
      (\<not> list_ex (\<lambda>c. c = ch_star \<or> c = ch_question \<or> c = ch_lbracket) p \<and>
       (clean = p \<or> starts_with (p @ [ch_slash]) clean)))"
  using assms by (simp add: match_path_def inert_pattern_def Let_def)

lemma inert_subtree:
  assumes "plain_dir d"
  shows "inert_pattern (d @ [ch_slash, ch_star, ch_star])"
proof -
  have d: "d \<noteq> []" using assms by (auto simp: plain_dir_def)
  have "trim (d @ [ch_slash, ch_star, ch_star]) = d @ [ch_slash, ch_star, ch_star]"
    by (rule trim_id) (use assms in \<open>auto simp: plain_dir_def is_whitespace_def\<close>)
  moreover have "collapse_separators (d @ [ch_slash, ch_star, ch_star]) = d @ [ch_slash, ch_star, ch_star]"
    using assms plain_dir_double_slash [of d] by (auto simp: collapse_separators_def plain_dir_def)
  moreover have "length (lit ''~/'') \<le> length d + 1" using d by (cases d) auto
  then have "strip_prefix (lit ''~/'') (d @ [ch_slash, ch_star, ch_star]) = None"
    using assms strip_prefix_None_append [of "lit ''~/''" d ch_slash "[ch_star, ch_star]"]
    by (simp add: plain_dir_def del: lit_simps)
  ultimately show ?thesis using d by (auto simp: inert_pattern_def simp del: lit_simps)
qed

lemma inert_plain:
  assumes "plain_dir d"
  shows "inert_pattern d"
proof -
  have "trim d = d" by (rule trim_id) (use assms in \<open>auto simp: plain_dir_def\<close>)
  moreover have "strip_prefix (lit ''~/'') d = None"
  proof (rule ccontr)
    assume "strip_prefix (lit ''~/'') d \<noteq> None"
    then obtain r where "d = lit ''~/'' @ r" by (auto simp: strip_prefix_Some_iff)
    then have "strip_prefix (lit ''~/'') (d @ [ch_slash]) = Some (r @ [ch_slash])" by simp
    with assms show False by (simp add: plain_dir_def del: lit_simps)
  qed
  ultimately show ?thesis
    using assms by (auto simp: inert_pattern_def plain_dir_def meta_free_def collapse_separators_def simp del: lit_simps)
qed

lemma match_path_subtree:
  assumes "plain_dir d"
  shows "match_path (d @ lit ''/**'') v home \<longleftrightarrow>
    clean_path v = d \<or> starts_with (d @ [ch_slash]) (clean_path v)"
proof -
  let ?p = "d @ [ch_slash, ch_star, ch_star]"
  have d: "d \<noteq> []" "meta_free d" "last d \<noteq> ch_slash" using assms by (auto simp: plain_dir_def)
  have suf: "strip_suffix [ch_slash, ch_star, ch_star] ?p = Some d" by (simp add: strip_suffix_Some_iff)
  have tr: "trim_end_matches ch_slash d = d" using d by (simp add: trim_end_matches_id)
  have ne: "\<not> ends_with [ch_slash] ?p" by (simp add: ends_with_single)
  have self: "?p = clean_path v \<Longrightarrow> starts_with (d @ [ch_slash]) (clean_path v)"
    by (metis append.assoc append_Cons append_Nil starts_with_iff)
  have "match_path (d @ lit ''/**'') v home \<longleftrightarrow>
      ?p = clean_path v \<or> glob_match ?p (clean_path v) \<or> under_prefix d (clean_path v)"
    using match_path_inert [OF inert_subtree [OF assms], of v home] ne by (simp add: suf tr Let_def)
  then show ?thesis
    using self glob_match_subtree_pattern [OF d(2), of "clean_path v"] d(1) by (auto simp: under_prefix_def)
qed

lemma match_path_plain:
  assumes "plain_dir d"
  shows "match_path d v home \<longleftrightarrow> clean_path v = d \<or> starts_with (d @ [ch_slash]) (clean_path v)"
proof -
  have d: "d \<noteq> []" "meta_free d" "last d \<noteq> ch_slash" using assms by (auto simp: plain_dir_def)
  have suf: "strip_suffix [ch_slash, ch_star, ch_star] d = None"
    using d(2) by (cases "strip_suffix [ch_slash, ch_star, ch_star] d")
      (auto simp: strip_suffix_Some_iff meta_free_def)
  have ne: "\<not> ends_with [ch_slash] d" "\<not> list_ex (\<lambda>c. c = ch_star \<or> c = ch_question \<or> c = ch_lbracket) d"
    using d by (auto simp: ends_with_single meta_free_def list_ex_iff)
  show ?thesis
    using match_path_inert [OF inert_plain [OF assms], of v home] ne memo_glob.literal [OF d(2)]
    by (auto simp: suf Let_def)
qed

text \<open>Components of a cleaned path below a plain directory.\<close>

lemma split_clean_path:
  "split_on ch_slash (clean_path v) =
     (if path_absolute v then [[]] else []) @ (if path_parts v = [] then [[]] else path_parts v)"
proof -
  have "\<And>p. p \<in> set (path_parts v) \<Longrightarrow> ch_slash \<notin> set p"
    using path_parts_ok [of v] by (auto simp: parts_ok_def part_ok_def)
  then have "split_on ch_slash (join [ch_slash] (path_parts v)) = (if path_parts v = [] then [[]] else path_parts v)"
    using split_on_join [of "path_parts v" ch_slash] by auto
  then show ?thesis by (simp add: clean_path_parts)
qed

lemma split_on_append: "split_on d (s @ d # t) = split_on d s @ split_on d t"
  by (induction s) (auto split: list.splits)

lemma parents_only_first:
  assumes "parts_ok ab (xs @ ys)" "xs \<noteq> []" "last xs \<noteq> dotdot"
  shows "dotdot \<notin> set ys"
  using assms(1)
proof (rule parts_okE)
  fix k qs assume eq: "xs @ ys = replicate k dotdot @ qs" and qs: "dotdot \<notin> set qs"
  have "k < length xs \<or> k = 0"
  proof (rule ccontr)
    assume "\<not> (k < length xs \<or> k = 0)"
    then have "xs = replicate (length xs) dotdot"
      using arg_cong [OF eq, of "take (length xs)"] by simp
    with assms(2,3) show False by (metis last_replicate length_0_conv)
  qed
  then have "ys = drop (length xs - k) qs"
    using arg_cong [OF eq, of "drop (length xs)"] by auto
  with qs show ?thesis by (meson in_set_dropD)
qed

lemma clean_path_below:
  assumes "clean_path v = d @ ch_slash # r" "d \<noteq> []" "last (split_on ch_slash d) \<noteq> dotdot"
  shows "dotdot \<notin> set (split_on ch_slash r) \<and> [ch_dot] \<notin> set (split_on ch_slash r)"
proof -
  have "path_parts v \<noteq> []"
  proof
    assume "path_parts v = []"
    then have "length (clean_path v) \<le> 1" by (simp add: clean_path_parts)
    with assms(1,2) show False by (cases d) auto
  qed
  then have eq: "split_on ch_slash d @ split_on ch_slash r = (if path_absolute v then [[]] else []) @ path_parts v"
    using split_clean_path [of v] assms(1) by (simp add: split_on_append)
  obtain X where X: "split_on ch_slash d = (if path_absolute v then [[]] else []) @ X"
      "path_parts v = X @ split_on ch_slash r" "X \<noteq> []"
  proof (cases "path_absolute v")
    case True
    with eq obtain X where X: "split_on ch_slash d = [] # X" "path_parts v = X @ split_on ch_slash r"
      by (cases "split_on ch_slash d") auto
    have "X \<noteq> []"
    proof
      assume "X = []"
      with X have "join [ch_slash] (split_on ch_slash d) = []" by simp
      with assms(2) show False by simp
    qed
    with X True that show thesis by simp
  qed (use eq that in auto)
  have "last X \<noteq> dotdot" using X assms(3) by (simp split: if_splits)
  moreover have ok: "parts_ok (path_absolute v) (X @ split_on ch_slash r)"
    using path_parts_ok [of v] X(2) by simp
  ultimately show ?thesis
    using parents_only_first [OF ok X(3)] ok by (auto simp: parts_ok_def part_ok_def)
qed

section \<open>Properties of paths\<close>

text \<open>Cleaning a path is idempotent and yields a normal form: no dot component, parent
  components only at the front, and none at all when the path is absolute.\<close>

theorem clean_path_normal_form:
  "clean_path (clean_path v) = clean_path v \<and>
   [ch_dot] \<notin> set (split_on ch_slash (clean_path v)) \<and>
   (\<exists>k qs. split_on ch_slash (clean_path v) = replicate k dotdot @ qs \<and> dotdot \<notin> set qs \<and>
      (v \<noteq> [] \<and> hd v = ch_slash \<longrightarrow> k = 0))"
proof -
  obtain k qs where ok: "\<And>p. p \<in> set (path_parts v) \<Longrightarrow> part_ok p"
      and ps: "path_parts v = replicate k dotdot @ qs" "dotdot \<notin> set qs" "path_absolute v \<Longrightarrow> k = 0"
    using path_parts_ok [of v] by (rule parts_okE) blast
  have "\<exists>k qs. split_on ch_slash (clean_path v) = replicate k dotdot @ qs \<and> dotdot \<notin> set qs \<and>
      (path_absolute v \<longrightarrow> k = 0)"
  proof (cases "path_absolute v \<or> path_parts v = []")
    case True
    then have "dotdot \<notin> set (split_on ch_slash (clean_path v))" using ps by (auto simp: split_clean_path)
    then show ?thesis by (intro exI [of _ 0]) auto
  next
    case False
    with ps show ?thesis by (auto simp: split_clean_path)
  qed
  moreover have "[ch_dot] \<notin> set (split_on ch_slash (clean_path v))"
    using ok by (auto simp: split_clean_path part_ok_def)
  ultimately show ?thesis by (simp add: clean_path_idem path_absolute_def)
qed

theorem clean_path_normal_form_witness:
  "clean_path (lit ''/work/../../etc/./passwd'') = lit ''/etc/passwd'' \<and>
   clean_path (clean_path (lit ''/work/../../etc/./passwd'')) = lit ''/etc/passwd''"
proof -
  have "clean_path (lit ''/work/../../etc/./passwd'') = lit ''/etc/passwd''"
    by (simp add: clean_path_def push_part_def)
  then show ?thesis using clean_path_normal_form [of "lit ''/work/../../etc/./passwd''"] by simp
qed

text \<open>C13. Confinement: when a rule's pattern is a plain directory followed by \<open>/**\<close>, every value it
  matches, however it is spelled, cleans to the directory itself or to a path that extends the
  directory's components by components that are neither a dot nor a parent reference. Conversely
  every value whose cleaned path is the directory or below it matches.\<close>

theorem match_path_confined:
  assumes "plain_dir d" and "last (split_on ch_slash d) \<noteq> dotdot"
  shows "match_path (d @ lit ''/**'') v home \<longleftrightarrow>
    (\<exists>rest. split_on ch_slash (clean_path v) = split_on ch_slash d @ rest \<and>
       dotdot \<notin> set rest \<and> [ch_dot] \<notin> set rest)"
proof
  have d: "d \<noteq> []" using assms by (simp add: plain_dir_def)
  assume "match_path (d @ lit ''/**'') v home"
  then consider "clean_path v = d" | r where "clean_path v = d @ ch_slash # r"
    using match_path_subtree [OF assms(1)] by (auto simp: starts_with_iff)
  then show "\<exists>rest. split_on ch_slash (clean_path v) = split_on ch_slash d @ rest \<and>
       dotdot \<notin> set rest \<and> [ch_dot] \<notin> set rest"
  proof cases
    case (2 r)
    with clean_path_below [OF 2 d assms(2)] show ?thesis by (simp add: split_on_append)
  qed simp
next
  assume "\<exists>rest. split_on ch_slash (clean_path v) = split_on ch_slash d @ rest \<and>
       dotdot \<notin> set rest \<and> [ch_dot] \<notin> set rest"
  then obtain rest where r: "split_on ch_slash (clean_path v) = split_on ch_slash d @ rest" by blast
  have "clean_path v = join [ch_slash] (split_on ch_slash d @ rest)" using r by (metis join_split_on)
  also have "\<dots> = d @ (if rest = [] then [] else ch_slash # join [ch_slash] rest)" by (simp add: join_append)
  finally show "match_path (d @ lit ''/**'') v home"
    unfolding match_path_subtree [OF assms(1)] starts_with_iff by (auto split: if_splits)
qed

theorem match_path_confined_witness:
  "plain_dir (lit ''work'') \<and> last (split_on ch_slash (lit ''work'')) \<noteq> dotdot \<and>
   \<not> match_path (lit ''work'' @ lit ''/**'') (lit ''work/../etc'') (lit ''/home'')"
proof -
  have h: "plain_dir (lit ''work'')"
    by (simp add: plain_dir_def meta_free_def is_whitespace_def)
  have l: "last (split_on ch_slash (lit ''work'')) \<noteq> dotdot" by simp
  have "split_on ch_slash (clean_path (lit ''work/../etc'')) = [lit ''etc'']"
    by (simp add: clean_path_def push_part_def)
  then show ?thesis using h l match_path_confined [OF h l] by auto
qed

end
