(* ===== verification/Rate_Limiter.thy ===== *)
theory Rate_Limiter
  imports Prelude "HOL-Library.AList" "HOL-Library.Multiset"
begin

unbundle bit_operations_syntax

text \<open>
  \<^verbatim>\<open>symvault-mcp/src/ratelimit.rs\<close>: the per-client fixed-window limiter of the HTTP transport, its
  key cap with eviction, and the client key derived from the peer address and proxy headers.

  An \<open>Instant\<close> is a number of clock ticks; \<open>checked_add\<close> fails past \<open>instant_max\<close>. The
  \<open>HashMap\<close> of attempts is an association list with distinct keys; whatever the source reads off
  by iterating goes through \<open>iter\<close>, an arbitrary permutation, because the iteration order of a
  \<open>HashMap\<close> is unspecified. Counters are \<open>nat\<close>. Parsing the text of an IP address, which is the
  standard library's, is the argument \<open>parse_ip\<close>.
\<close>

section \<open>State\<close>

datatype ip_addr = V4 "32 word" | V6 "128 word"

datatype trusted_proxy = Addr ip_addr | Prefix ip_addr nat

record rl_entry =
  reset_at :: nat
  count :: nat

type_synonym attempts_map = "(ustring \<times> rl_entry) list"

record rl_state =
  attempts :: attempts_map
  next_cleanup :: nat
  eviction_count :: nat
  cleanup_count :: nat

record rate_limiter =
  limit :: nat
  window :: nat
  max_entries :: nat
  trusted :: "trusted_proxy list"
  instant_max :: nat

definition MAX_RATE_LIMITER_ENTRIES :: nat where "MAX_RATE_LIMITER_ENTRIES = 10000"
definition CLEANUP_INTERVAL :: nat where "CLEANUP_INTERVAL = 300000000000"
definition WINDOW :: nat where "WINDOW = 60000000000"
definition DEFAULT_LIMIT :: int where "DEFAULT_LIMIT = 60"

definition instant_add :: "nat \<Rightarrow> nat \<Rightarrow> nat \<Rightarrow> nat" where
  "instant_add imax now d = (if now + d \<le> imax then now + d else now)"

section \<open>The limiter\<close>

definition rl_new_at ::
  "(ustring \<Rightarrow> trusted_proxy option) \<Rightarrow> nat \<Rightarrow> nat \<Rightarrow> nat \<Rightarrow> ustring list \<Rightarrow> nat \<Rightarrow> rate_limiter \<times> rl_state" where
  "rl_new_at parse imax lim win trusted_ips origin =
     (\<lparr>limit = lim, window = win, max_entries = MAX_RATE_LIMITER_ENTRIES,
       trusted = List.map_filter parse trusted_ips, instant_max = imax\<rparr>,
      \<lparr>attempts = [], next_cleanup = instant_add imax origin CLEANUP_INTERVAL,
       eviction_count = 0, cleanup_count = 0\<rparr>)"

definition rl_from_config ::
  "(ustring \<Rightarrow> trusted_proxy option) \<Rightarrow> nat \<Rightarrow> int \<Rightarrow> ustring list \<Rightarrow> nat \<Rightarrow> (rate_limiter \<times> rl_state) option" where
  "rl_from_config parse imax configured trusted_ips origin =
     (let lim = (if configured < 0 then DEFAULT_LIMIT else configured)
      in if lim = 0 then None
         else Some (rl_new_at parse imax (nat \<bar>lim\<bar>) WINDOW trusted_ips origin))"

definition with_max_entries :: "rate_limiter \<Rightarrow> nat \<Rightarrow> rate_limiter" where
  "with_max_entries rl n = rl\<lparr>max_entries := n\<rparr>"

text \<open>The sweep of expired keys, on the first request past the deadline.\<close>

definition sweep :: "rate_limiter \<Rightarrow> nat \<Rightarrow> rl_state \<Rightarrow> rl_state" where
  "sweep rl now st =
     (if next_cleanup st \<le> now then
        (let kept = filter (\<lambda>(_, e). now \<le> reset_at e) (attempts st)
         in st\<lparr>attempts := kept,
               cleanup_count := cleanup_count st + (length (attempts st) - length kept),
               next_cleanup := instant_add (instant_max rl) now CLEANUP_INTERVAL\<rparr>)
      else st)"

text \<open>The loop that removes expired keys until the map is below the cap.\<close>

fun evict_expired :: "nat \<Rightarrow> ustring list \<Rightarrow> rl_state \<Rightarrow> bool \<times> rl_state" where
  "evict_expired cap [] st = (False, st)"
| "evict_expired cap (k # ks) st =
     (let st' = st\<lparr>attempts := AList.delete k (attempts st), eviction_count := eviction_count st + 1\<rparr>
      in if length (attempts st') < cap then (True, st') else evict_expired cap ks st')"

text \<open>\<open>Iterator::min_by_key\<close>: the first of the least elements.\<close>

fun min_by_reset :: "attempts_map \<Rightarrow> (ustring \<times> rl_entry) option" where
  "min_by_reset [] = None"
| "min_by_reset (x # xs) =
     (case min_by_reset xs of
        None \<Rightarrow> Some x
      | Some y \<Rightarrow> if reset_at (snd y) < reset_at (snd x) then Some y else Some x)"

definition evict_oldest ::
  "(attempts_map \<Rightarrow> attempts_map) \<Rightarrow> rate_limiter \<Rightarrow> nat \<Rightarrow> rl_state \<Rightarrow> rl_state" where
  "evict_oldest iter rl now st =
     (let expired = map fst (filter (\<lambda>(_, e). reset_at e < now) (iter (attempts st)));
          (returned, st') = evict_expired (max_entries rl) expired st
      in if returned then st'
         else if length (attempts st') < max_entries rl then st'
         else (case min_by_reset (iter (attempts st')) of
                 None \<Rightarrow> st'
               | Some (k, _) \<Rightarrow> st'\<lparr>attempts := AList.delete k (attempts st'),
                                    eviction_count := eviction_count st' + 1\<rparr>))"

definition allow_at ::
  "(attempts_map \<Rightarrow> attempts_map) \<Rightarrow> rate_limiter \<Rightarrow> ustring \<Rightarrow> nat \<Rightarrow> rl_state \<Rightarrow> bool \<times> rl_state" where
  "allow_at iter rl key now st0 =
     (let st = sweep rl now st0;
          open_window =
            (let st' = (if 0 < max_entries rl \<and> max_entries rl \<le> length (attempts st)
                        then evict_oldest iter rl now st else st)
             in (True, st'\<lparr>attempts := AList.update key
                    \<lparr>reset_at = instant_add (instant_max rl) now (window rl), count = 1\<rparr> (attempts st')\<rparr>))
      in case map_of (attempts st) key of
           Some e \<Rightarrow>
             if now \<le> reset_at e then
               (if limit rl \<le> count e then (False, st)
                else (True, st\<lparr>attempts := AList.update key (e\<lparr>count := count e + 1\<rparr>) (attempts st)\<rparr>))
             else open_window
         | None \<Rightarrow> open_window)"

section \<open>Client keys\<close>

definition prefix_contains :: "ip_addr \<Rightarrow> nat \<Rightarrow> ip_addr \<Rightarrow> bool" where
  "prefix_contains network bits addr =
     (case (network, addr) of
        (V4 n, V4 a) \<Rightarrow>
          (let mask = (if 32 - bits < 32 then push_bit (32 - bits) (- 1 :: 32 word) else 0)
           in n AND mask = a AND mask)
      | (V6 n, V6 a) \<Rightarrow>
          (let mask = (if 128 - bits < 128 then push_bit (128 - bits) (- 1 :: 128 word) else 0)
           in n AND mask = a AND mask)
      | _ \<Rightarrow> False)"

fun is_ipv4 :: "ip_addr \<Rightarrow> bool" where
  "is_ipv4 (V4 _) = True"
| "is_ipv4 (V6 _) = False"

definition parse_trusted :: "(ustring \<Rightarrow> ip_addr option) \<Rightarrow> ustring \<Rightarrow> trusted_proxy option" where
  "parse_trusted parse_ip entry =
     (case rsplit_once ch_slash entry of
        None \<Rightarrow> map_option Addr (parse_ip entry)
      | Some (address, bits_text) \<Rightarrow>
          if of_char CHR ''%'' \<in> set address then None
          else (case parse_ip address of
                  None \<Rightarrow> None
                | Some ip \<Rightarrow>
                    if bits_text = [] then None
                    else if 1 < str_len bits_text \<and> \<not> (49 \<le> hd bits_text \<and> hd bits_text \<le> 57) then None
                    else if \<not> list_all is_digit bits_text then None
                    else (case parse_u8 bits_text of
                            None \<Rightarrow> None
                          | Some bits \<Rightarrow>
                              if (if is_ipv4 ip then 32 else 128) < bits then None
                              else Some (Prefix ip bits))))"

text \<open>
  \<open>net.SplitHostPort\<close>, the host only. In the bracketed case the first closing bracket must be
  followed by the last colon and something must follow it.
\<close>

definition split_host_port :: "ustring \<Rightarrow> ustring option" where
  "split_host_port hp =
     (case rsplit_once ch_colon hp of
        None \<Rightarrow> None
      | Some (before, port) \<Rightarrow>
          if starts_with [ch_lbracket] hp then
            (case split_once ch_rbracket hp of
               None \<Rightarrow> None
             | Some (open, rest) \<Rightarrow>
                 if rest = [] then None
                 else if open @ [ch_rbracket] \<noteq> before then None
                 else if ch_lbracket \<in> set (tl hp) \<or> ch_rbracket \<in> set (ch_colon # port) then None
                 else Some (tl open))
          else if ch_colon \<in> set before then None
          else if ch_lbracket \<in> set hp \<or> ch_rbracket \<in> set (ch_colon # port) then None
          else Some before)"

definition is_trusted_proxy :: "(ustring \<Rightarrow> ip_addr option) \<Rightarrow> rate_limiter \<Rightarrow> ustring \<Rightarrow> bool" where
  "is_trusted_proxy parse_ip rl remote =
     (if trusted rl = [] then False
      else (let host = (case split_host_port remote of Some h \<Rightarrow> h | None \<Rightarrow> remote)
            in if host = [] then False
               else (case parse_ip host of
                       None \<Rightarrow> False
                     | Some addr \<Rightarrow>
                         list_ex (\<lambda>t. case t of Addr a \<Rightarrow> a = addr | Prefix n b \<Rightarrow> prefix_contains n b addr)
                           (trusted rl))))"

definition client_key ::
  "(ustring \<Rightarrow> ip_addr option) \<Rightarrow> rate_limiter \<Rightarrow> ustring \<Rightarrow> ustring \<Rightarrow> ustring \<Rightarrow> ustring" where
  "client_key parse_ip rl remote forwarded_for real_ip =
     (if is_trusted_proxy parse_ip rl remote \<and> forwarded_for \<noteq> []
        then trim (hd (split_on ch_comma forwarded_for))
      else if is_trusted_proxy parse_ip rl remote \<and> real_ip \<noteq> [] then real_ip
      else if remote \<noteq> [] then
        (case split_host_port remote of
           Some host \<Rightarrow> if host \<noteq> [] then host else remote
         | None \<Rightarrow> remote)
      else lit ''unknown'')"

section \<open>Association lists with distinct keys\<close>

lemma length_delete_key:
  assumes "distinct (map fst xs)" "k \<in> fst ` set xs"
  shows "Suc (length (AList.delete k xs)) = length xs"
  using assms
proof (induction xs)
  case (Cons x xs)
  show ?case
  proof (cases "fst x = k")
    case True
    with Cons.prems have "k \<notin> fst ` set xs" by auto
    with True show ?thesis by (cases x) simp
  next
    case False
    with Cons show ?thesis by (cases x) auto
  qed
qed simp

lemma length_update_key:
  "length (AList.update k v xs) = (if k \<in> fst ` set xs then length xs else Suc (length xs))"
  by (induction xs) auto

lemma distinct_filter_keys: "distinct (map fst xs) \<Longrightarrow> distinct (map fst (filter P xs))"
  by (induction xs) auto

lemma length_filter_key:
  assumes "distinct (map fst xs)" "k \<in> fst ` set xs" "k \<notin> fst ` set (filter P xs)"
  shows "length (filter P xs) < length xs"
proof -
  from assms obtain e where e: "(k, e) \<in> set xs" by auto
  with assms(3) have "\<not> P (k, e)" by force
  with e show ?thesis by (rule length_filter_less)
qed

section \<open>Invariant and eviction\<close>

definition iter_ok :: "(attempts_map \<Rightarrow> attempts_map) \<Rightarrow> bool" where
  "iter_ok iter \<longleftrightarrow> (\<forall>xs. mset (iter xs) = mset xs)"

definition rl_inv :: "rate_limiter \<Rightarrow> rl_state \<Rightarrow> bool" where
  "rl_inv rl st \<longleftrightarrow> distinct (map fst (attempts st)) \<and>
     (0 < max_entries rl \<longrightarrow> length (attempts st) \<le> max_entries rl)"

lemma iter_set: "iter_ok iter \<Longrightarrow> set (iter xs) = set xs"
  by (metis iter_ok_def mset_eq_setD)

lemma min_by_reset_Some:
  "min_by_reset xs = Some x \<Longrightarrow> x \<in> set xs \<and> (\<forall>y \<in> set xs. reset_at (snd x) \<le> reset_at (snd y))"
proof (induction xs arbitrary: x)
  case (Cons z xs)
  show ?case
  proof (cases "min_by_reset xs")
    case None
    then have "xs = []" by (cases xs) (auto split: option.splits if_splits)
    with Cons.prems show ?thesis by simp
  next
    case (Some y)
    with Cons.prems Cons.IH [OF Some] show ?thesis by (auto split: if_splits)
  qed
qed simp

lemma min_by_reset_None: "min_by_reset xs = None \<longleftrightarrow> xs = []"
  by (cases xs) (auto split: option.splits)

text \<open>At the cap, eviction removes exactly one key: an expired one if there is any, otherwise one
  whose window ends first.\<close>

definition evictable :: "attempts_map \<Rightarrow> nat \<Rightarrow> ustring \<Rightarrow> bool" where
  "evictable xs now k \<longleftrightarrow> (\<exists>e. map_of xs k = Some e \<and>
     (reset_at e < now \<or> (\<forall>(k', e') \<in> set xs. now \<le> reset_at e' \<and> reset_at e \<le> reset_at e')))"

lemma evict_oldest_at_cap:
  assumes inv: "rl_inv rl st" and cap: "0 < max_entries rl" "max_entries rl \<le> length (attempts st)"
    and iter: "iter_ok iter"
  shows "\<exists>k. evictable (attempts st) now k \<and>
    evict_oldest iter rl now st =
      st\<lparr>attempts := AList.delete k (attempts st), eviction_count := eviction_count st + 1\<rparr>"
proof -
  have dist: "distinct (map fst (attempts st))" and len: "length (attempts st) = max_entries rl"
    using inv cap by (auto simp: rl_inv_def)
  have one: "length (AList.delete k (attempts st)) < max_entries rl" if "k \<in> fst ` set (attempts st)" for k
    using length_delete_key [OF dist that] len by simp
  show ?thesis
  proof (cases "map fst (filter (\<lambda>(_, e). reset_at e < now) (iter (attempts st)))")
    case (Cons k ks)
    then have "k \<in> fst ` set (filter (\<lambda>(_, e). reset_at e < now) (iter (attempts st)))"
      by (metis list.set_intros(1) set_map)
    then obtain e where e: "(k, e) \<in> set (attempts st)" "reset_at e < now"
      using iter_set [OF iter] by auto
    then have "evictable (attempts st) now k" using dist by (auto simp: evictable_def)
    moreover have "k \<in> fst ` set (attempts st)" using e by force
    ultimately show ?thesis using one Cons by (auto simp: evict_oldest_def Let_def)
  next
    case Nil
    then have live: "\<forall>(k', e') \<in> set (attempts st). now \<le> reset_at e'"
      using iter_set [OF iter, of "attempts st"] by (auto simp: filter_empty_conv not_less)
    have "iter (attempts st) \<noteq> []" using cap iter_set [OF iter, of "attempts st"] by auto
    then obtain x where x: "min_by_reset (iter (attempts st)) = Some x"
      using min_by_reset_None by fastforce
    then have m: "x \<in> set (attempts st)" "\<forall>y \<in> set (attempts st). reset_at (snd x) \<le> reset_at (snd y)"
      using min_by_reset_Some [OF x] iter_set [OF iter, of "attempts st"] by auto
    then have "evictable (attempts st) now (fst x)"
      unfolding evictable_def using live dist by (intro exI [of _ "snd x"]) auto
    moreover have "evict_oldest iter rl now st =
        st\<lparr>attempts := AList.delete (fst x) (attempts st), eviction_count := eviction_count st + 1\<rparr>"
      using Nil x len by (auto simp: evict_oldest_def Let_def split: prod.splits)
    ultimately show ?thesis by blast
  qed
qed

lemma sweep_inv: "rl_inv rl st \<Longrightarrow> rl_inv rl (sweep rl now st)"
  by (auto simp: rl_inv_def sweep_def Let_def distinct_filter_keys intro: order_trans [OF length_filter_le])

text \<open>The state in which a new window is opened: below the cap, or key already tracked.\<close>

definition make_room ::
  "(attempts_map \<Rightarrow> attempts_map) \<Rightarrow> rate_limiter \<Rightarrow> nat \<Rightarrow> rl_state \<Rightarrow> rl_state" where
  "make_room iter rl now st =
     (if 0 < max_entries rl \<and> max_entries rl \<le> length (attempts st) then evict_oldest iter rl now st else st)"

lemma make_room_inv:
  assumes "rl_inv rl st" "iter_ok iter"
  shows "distinct (map fst (attempts (make_room iter rl now st))) \<and>
    (0 < max_entries rl \<longrightarrow> length (attempts (make_room iter rl now st)) < max_entries rl)"
proof (cases "0 < max_entries rl \<and> max_entries rl \<le> length (attempts st)")
  case True
  then obtain k where k: "evictable (attempts st) now k" "make_room iter rl now st =
      st\<lparr>attempts := AList.delete k (attempts st), eviction_count := eviction_count st + 1\<rparr>"
    using evict_oldest_at_cap [OF assms(1) _ _ assms(2)] by (auto simp: make_room_def)
  have "k \<in> fst ` set (attempts st)" using k(1) by (auto simp: evictable_def dest: map_of_SomeD intro: rev_image_eqI)
  with k True assms(1) length_delete_key [of "attempts st" k] show ?thesis
    by (auto simp: rl_inv_def distinct_delete)
qed (use assms in \<open>auto simp: make_room_def rl_inv_def\<close>)

definition opened :: "rate_limiter \<Rightarrow> nat \<Rightarrow> rl_entry" where
  "opened rl now = \<lparr>reset_at = instant_add (instant_max rl) now (window rl), count = 1\<rparr>"

lemma allow_at_cases:
  obtains (serve) e where "map_of (attempts (sweep rl now st)) key = Some e" "now \<le> reset_at e" "count e < limit rl"
      "allow_at iter rl key now st = (True, (sweep rl now st)\<lparr>attempts :=
         AList.update key (e\<lparr>count := count e + 1\<rparr>) (attempts (sweep rl now st))\<rparr>)"
  | (refuse) e where "map_of (attempts (sweep rl now st)) key = Some e" "now \<le> reset_at e" "limit rl \<le> count e"
      "allow_at iter rl key now st = (False, sweep rl now st)"
  | (new_window) "\<And>e. map_of (attempts (sweep rl now st)) key = Some e \<Longrightarrow> reset_at e < now"
      "allow_at iter rl key now st = (True, (make_room iter rl now (sweep rl now st))\<lparr>attempts :=
         AList.update key (opened rl now) (attempts (make_room iter rl now (sweep rl now st)))\<rparr>)"
proof (cases "map_of (attempts (sweep rl now st)) key")
  case None
  with that(3) show thesis by (simp add: allow_at_def make_room_def opened_def Let_def)
next
  case (Some e)
  show thesis
  proof (cases "now \<le> reset_at e")
    case True
    with Some that(1,2) show thesis
      by (cases "limit rl \<le> count e") (auto simp: allow_at_def Let_def)
  next
    case False
    with Some that(3) show thesis by (simp add: allow_at_def make_room_def opened_def Let_def)
  qed
qed

lemma allow_at_inv:
  assumes "rl_inv rl st" "iter_ok iter"
  shows "rl_inv rl (snd (allow_at iter rl key now st))"
proof -
  have s: "rl_inv rl (sweep rl now st)" using assms(1) by (rule sweep_inv)
  show ?thesis
  proof (cases rule: allow_at_cases [of rl now st key iter])
    case (serve e)
    then have "key \<in> fst ` set (attempts (sweep rl now st))"
      by (auto dest: map_of_SomeD intro: rev_image_eqI)
    with serve s show ?thesis by (auto simp: rl_inv_def length_update_key distinct_update)
  next
    case new_window
    with make_room_inv [OF s assms(2), of now] show ?thesis
      by (auto simp: rl_inv_def length_update_key distinct_update)
  qed (use s in simp)
qed

section \<open>The fixed window as a specification\<close>

text \<open>
  What one client key observes: its live window, or nothing. An expired entry is the same as an
  absent one.
\<close>

definition live :: "rl_state \<Rightarrow> nat \<Rightarrow> ustring \<Rightarrow> rl_entry option" where
  "live st t k = (case map_of (attempts st) k of
     Some e \<Rightarrow> if t \<le> reset_at e then Some e else None | None \<Rightarrow> None)"

definition fixed_window :: "rate_limiter \<Rightarrow> nat \<Rightarrow> rl_entry option \<Rightarrow> bool \<times> rl_entry" where
  "fixed_window rl now w =
     (case w of
        Some e \<Rightarrow> if count e < limit rl then (True, e\<lparr>count := count e + 1\<rparr>) else (False, e)
      | None \<Rightarrow> (True, opened rl now))"

definition unless_expired :: "nat \<Rightarrow> rl_entry \<Rightarrow> rl_entry option" where
  "unless_expired t e = (if t \<le> reset_at e then Some e else None)"

definition has_room :: "rate_limiter \<Rightarrow> rl_state \<Rightarrow> ustring \<Rightarrow> bool" where
  "has_room rl st key \<longleftrightarrow> max_entries rl = 0 \<or> length (attempts st) < max_entries rl \<or>
     key \<in> fst ` set (attempts st)"

lemma live_sweep: "distinct (map fst (attempts st)) \<Longrightarrow> now \<le> t \<Longrightarrow> live (sweep rl now st) t k = live st t k"
  by (auto simp: live_def sweep_def Let_def map_of_filter_val split: option.splits)

lemma has_room_sweep:
  assumes "rl_inv rl st" "has_room rl st key"
  shows "has_room rl (sweep rl now st) key"
proof (cases "next_cleanup st \<le> now")
  case True
  define kept where "kept = filter (\<lambda>(_, e). now \<le> reset_at e) (attempts st)"
  have at: "attempts (sweep rl now st) = kept" using True by (simp add: sweep_def Let_def kept_def)
  have le: "length kept \<le> length (attempts st)" by (simp add: kept_def)
  have lt: "key \<in> fst ` set (attempts st) \<Longrightarrow> key \<notin> fst ` set kept \<Longrightarrow> length kept < length (attempts st)"
    using length_filter_key [of "attempts st" key] assms(1) by (simp add: rl_inv_def kept_def)
  have "length (attempts st) \<le> max_entries rl \<or> max_entries rl = 0" using assms(1) by (auto simp: rl_inv_def)
  with assms(2) le lt show ?thesis unfolding has_room_def at by linarith
qed (use assms in \<open>simp add: sweep_def\<close>)

text \<open>Making room takes a live window away from nobody when the key itself is tracked or the map
  is below its cap.\<close>

lemma live_make_room:
  assumes inv: "rl_inv rl st" and iter: "iter_ok iter" and room: "has_room rl st key"
    and exp: "\<And>e. map_of (attempts st) key = Some e \<Longrightarrow> reset_at e < now" and t: "now \<le> t"
  shows "live (make_room iter rl now st) t k = live st t k"
proof (cases "0 < max_entries rl \<and> max_entries rl \<le> length (attempts st)")
  case True
  then obtain k0 where k0: "evictable (attempts st) now k0" "make_room iter rl now st =
      st\<lparr>attempts := AList.delete k0 (attempts st), eviction_count := eviction_count st + 1\<rparr>"
    using evict_oldest_at_cap [OF inv _ _ iter] by (auto simp: make_room_def)
  from True room have "key \<in> fst ` set (attempts st)" by (auto simp: has_room_def)
  then obtain e where e: "map_of (attempts st) key = Some e" by (auto dest: weak_map_of_SomeI)
  with exp have "(key, e) \<in> set (attempts st)" "reset_at e < now" by (auto dest: map_of_SomeD)
  with k0(1) obtain e0 where "map_of (attempts st) k0 = Some e0" "reset_at e0 < now"
    by (fastforce simp: evictable_def)
  then have "live st t k0 = None" using t by (simp add: live_def)
  then show ?thesis by (cases "k = k0") (auto simp: k0(2) live_def delete_conv')
next
  case False
  then have "make_room iter rl now st = st" unfolding make_room_def by (rule if_not_P)
  then show ?thesis by simp
qed

lemma allow_at_refines:
  assumes "rl_inv rl st" "iter_ok iter" "has_room rl st key" "now \<le> t"
  shows "fst (allow_at iter rl key now st) = fst (fixed_window rl now (live st now key)) \<and>
    live (snd (allow_at iter rl key now st)) t k =
      (if k = key then unless_expired t (snd (fixed_window rl now (live st now key))) else live st t k)"
proof -
  have d: "distinct (map fst (attempts st))" using assms(1) by (simp add: rl_inv_def)
  have lv: "live (sweep rl now st) t' k' = live st t' k'" if "now \<le> t'" for t' k'
    using live_sweep [OF d that] .
  show ?thesis
  proof (cases rule: allow_at_cases [of rl now st key iter])
    case (serve e)
    then have "live st now key = Some e" using lv [of now key] by (simp add: live_def)
    with serve lv [OF assms(4), of k] show ?thesis
      by (auto simp: fixed_window_def unless_expired_def live_def update_conv')
  next
    case (refuse e)
    then have "live st now key = Some e" using lv [of now key] by (simp add: live_def)
    with refuse lv [OF assms(4), of k] show ?thesis
      by (auto simp: fixed_window_def unless_expired_def live_def)
  next
    case new_window
    then have none: "live st now key = None" using lv [of now key]
      by (auto simp: live_def split: option.splits if_splits)
    have "live (make_room iter rl now (sweep rl now st)) t k = live st t k"
      using live_make_room [OF sweep_inv [OF assms(1)] assms(2) has_room_sweep [OF assms(1,3)] new_window(1) assms(4)]
        lv [OF assms(4)] by simp
    with new_window(2) none show ?thesis
      by (auto simp: fixed_window_def unless_expired_def live_def update_conv')
  qed
qed

lemma allow_at_keys:
  assumes "rl_inv rl st" "iter_ok iter"
  shows "fst ` set (attempts (snd (allow_at iter rl key now st))) \<subseteq> insert key (fst ` set (attempts st))"
proof -
  have sw: "fst ` set (attempts (sweep rl now st)) \<subseteq> fst ` set (attempts st)"
    by (auto simp: sweep_def Let_def)
  have mk: "fst ` set (attempts (make_room iter rl now (sweep rl now st))) \<subseteq> fst ` set (attempts (sweep rl now st))"
  proof (cases "0 < max_entries rl \<and> max_entries rl \<le> length (attempts (sweep rl now st))")
    case True
    then obtain k0 where "make_room iter rl now (sweep rl now st) = (sweep rl now st)\<lparr>attempts :=
        AList.delete k0 (attempts (sweep rl now st)), eviction_count := eviction_count (sweep rl now st) + 1\<rparr>"
      using evict_oldest_at_cap [OF sweep_inv [OF assms(1)] _ _ assms(2)] unfolding make_room_def by fastforce
    then show ?thesis using dom_delete_subset by simp
  next
    case False
    then have "make_room iter rl now (sweep rl now st) = sweep rl now st"
      unfolding make_room_def by (rule if_not_P)
    then show ?thesis by simp
  qed
  show ?thesis
  proof (cases rule: allow_at_cases [of rl now st key iter])
    case (serve e)
    have "fst ` set (attempts (snd (allow_at iter rl key now st))) = insert key (fst ` set (attempts (sweep rl now st)))"
      unfolding serve(4) by (simp add: dom_update)
    then show ?thesis using insert_mono [OF sw] by (simp only:)
  next
    case (refuse e)
    with sw show ?thesis by (simp only: snd_conv) blast
  next
    case new_window
    have "fst ` set (attempts (snd (allow_at iter rl key now st))) =
        insert key (fst ` set (attempts (make_room iter rl now (sweep rl now st))))"
      unfolding new_window(2) by (simp add: dom_update)
    then show ?thesis using insert_mono [OF order_trans [OF mk sw]] by (simp only:)
  qed
qed

section \<open>Sequences of requests\<close>

fun rl_run ::
  "(attempts_map \<Rightarrow> attempts_map) \<Rightarrow> rate_limiter \<Rightarrow> (ustring \<times> nat) list \<Rightarrow> rl_state \<Rightarrow> bool list \<times> rl_state" where
  "rl_run iter rl [] st = ([], st)"
| "rl_run iter rl ((k, t) # rs) st =
     (let (b, st') = allow_at iter rl k t st; (bs, st'') = rl_run iter rl rs st'
      in (b # bs, st''))"

definition served :: "ustring \<Rightarrow> (ustring \<times> nat) list \<Rightarrow> bool list \<Rightarrow> nat" where
  "served key rs bs = length (filter (\<lambda>((k, _), b). k = key \<and> b) (zip rs bs))"

definition fits :: "rate_limiter \<Rightarrow> rl_state \<Rightarrow> (ustring \<times> nat) list \<Rightarrow> bool" where
  "fits rl st rs \<longleftrightarrow> max_entries rl = 0 \<or> card (fst ` set (attempts st) \<union> fst ` set rs) \<le> max_entries rl"

lemma fits_has_room:
  assumes "rl_inv rl st" "fits rl st ((k, t) # rs)"
  shows "has_room rl st k"
proof (cases "k \<in> fst ` set (attempts st) \<or> max_entries rl = 0")
  case False
  have "length (attempts st) = card (fst ` set (attempts st))"
    using assms(1) by (metis distinct_card length_map rl_inv_def set_map)
  also have "\<dots> < card (fst ` set (attempts st) \<union> fst ` set ((k, t) # rs))"
    using False by (intro psubset_card_mono) auto
  also have "\<dots> \<le> max_entries rl" using assms(2) False by (simp add: fits_def)
  finally show ?thesis by (simp add: has_room_def)
qed (auto simp: has_room_def)

lemma fits_step:
  assumes "rl_inv rl st" "iter_ok iter" "fits rl st ((k, t) # rs)"
  shows "fits rl (snd (allow_at iter rl k t st)) rs"
proof -
  have "fst ` set (attempts (snd (allow_at iter rl k t st))) \<union> fst ` set rs
      \<subseteq> fst ` set (attempts st) \<union> fst ` set ((k, t) # rs)"
    using allow_at_keys [OF assms(1,2), of k t] by auto
  from card_mono [OF _ this] assms(3) show ?thesis by (auto simp: fits_def)
qed

lemma rl_run_open_window:
  assumes "rl_inv rl st" "iter_ok iter" "fits rl st rs"
    and "map_of (attempts st) key = Some e" "count e \<le> limit rl" "\<forall>(k, t) \<in> set rs. t \<le> reset_at e"
  shows "served key rs (fst (rl_run iter rl rs st)) = min (limit rl - count e) (length (filter (\<lambda>(k, _). k = key) rs))"
  using assms
proof (induction rs arbitrary: st e)
  case (Cons r rs)
  obtain k t where r: "r = (k, t)" by (cases r)
  obtain b st' where a: "allow_at iter rl k t st = (b, st')" by fastforce
  have inv: "rl_inv rl st'" using allow_at_inv [OF Cons.prems(1,2), of k t] a by simp
  have fit: "fits rl st' rs" using fits_step [OF Cons.prems(1,2)] Cons.prems(3) a r by (metis snd_conv)
  have t: "t \<le> reset_at e" "\<forall>(k, t) \<in> set rs. t \<le> reset_at e" using Cons.prems(6) r by auto
  have lv: "live st t key = Some e" using Cons.prems(4) t by (simp add: live_def)
  note ref = allow_at_refines [where now = t and t = t and k = key and key = k,
      OF Cons.prems(1,2) fits_has_room [OF Cons.prems(1) Cons.prems(3) [unfolded r]] order_refl, unfolded a fst_conv snd_conv]
  have run: "fst (rl_run iter rl (r # rs) st) = b # fst (rl_run iter rl rs st')"
    using a r by (simp add: case_prod_unfold Let_def)
  show ?case
  proof (cases "k = key")
    case True
    define e' where "e' = snd (fixed_window rl t (Some e))"
    have b: "b = (count e < limit rl)" and l': "live st' t key = unless_expired t e'"
      using ref True lv by (auto simp: e'_def fixed_window_def)
    have e': "reset_at e' = reset_at e" "count e' = (if b then count e + 1 else count e)" "count e' \<le> limit rl"
      using Cons.prems(5) b by (auto simp: e'_def fixed_window_def)
    then have m: "map_of (attempts st') key = Some e'"
      using l' t by (auto simp: live_def unless_expired_def split: option.splits if_splits)
    show ?thesis
      using Cons.IH [OF inv Cons.prems(2) fit m e'(3)] t e' b True r run Cons.prems(5)
      by (auto simp: served_def min_def)
  next
    case False
    then have "live st' t key = Some e" using ref lv by auto
    then have m: "map_of (attempts st') key = Some e"
      by (auto simp: live_def split: option.splits if_splits)
    show ?thesis
      using Cons.IH [OF inv Cons.prems(2) fit m Cons.prems(5) t(2)] False r run by (auto simp: served_def)
  qed
qed (simp add: served_def)

section \<open>Properties\<close>

text \<open>The limiter as a machine whose steps are requests under any iteration order.\<close>

definition rl_fresh :: "rl_state \<Rightarrow> bool" where
  "rl_fresh st \<longleftrightarrow> attempts st = []"

definition rl_step :: "rate_limiter \<Rightarrow> rl_state \<Rightarrow> rl_state \<Rightarrow> bool" where
  "rl_step rl st st' \<longleftrightarrow> (\<exists>iter key now. iter_ok iter \<and> st' = snd (allow_at iter rl key now st))"

interpretation limiter: guarded_machine rl_fresh "rl_step rl" "rl_inv rl"
  by unfold_locales (auto simp: rl_fresh_def rl_step_def rl_inv_def intro: allow_at_inv [unfolded rl_inv_def, THEN conjunct1] allow_at_inv [unfolded rl_inv_def, THEN conjunct2, rule_format])

lemma iter_ok_id [simp]: "iter_ok id"
  by (simp add: iter_ok_def)

lemma rl_run_reach: "iter_ok iter \<Longrightarrow> (rl_step rl)\<^sup>*\<^sup>* st (snd (rl_run iter rl rs st))"
proof (induction rs arbitrary: st)
  case (Cons r rs)
  obtain k t where r: "r = (k, t)" by (cases r)
  have "rl_step rl st (snd (allow_at iter rl k t st))" using Cons.prems by (auto simp: rl_step_def)
  with Cons.IH [OF Cons.prems, of "snd (allow_at iter rl k t st)"] show ?case
    by (simp add: r case_prod_unfold Let_def converse_rtranclp_into_rtranclp)
qed simp

text \<open>
  C14. Memory bound: from a fresh limiter, whatever clients send and in whatever order the
  \<open>HashMap\<close> iterates, the tracked keys stay distinct and never exceed \<open>max_entries\<close> (unless the
  cap is disabled by 0).
\<close>

theorem rl_run_bounded:
  assumes "iter_ok iter" "attempts st = []" "0 < max_entries rl"
  shows "length (attempts (snd (rl_run iter rl rs st))) \<le> max_entries rl \<and>
    distinct (map fst (attempts (snd (rl_run iter rl rs st))))"
  using limiter.inv_run [OF _ rl_run_reach [OF assms(1), of rl st rs]] assms(2,3)
  by (simp add: rl_fresh_def rl_inv_def)

definition rl_demo :: rate_limiter where
  "rl_demo = \<lparr>limit = 2, window = 10, max_entries = 2, trusted = [Prefix (V4 0x0A000000) 8], instant_max = 1000\<rparr>"

definition rl_demo_state :: rl_state where
  "rl_demo_state = \<lparr>attempts = [], next_cleanup = 500, eviction_count = 0, cleanup_count = 0\<rparr>"

theorem rl_run_bounded_witness:
  "length (attempts (snd (rl_run id rl_demo [([1], 0), ([2], 1), ([3], 2)] rl_demo_state))) \<le> 2"
  using rl_run_bounded [of id rl_demo_state rl_demo "[([1], 0), ([2], 1), ([3], 2)]"]
  by (simp add: rl_demo_def rl_demo_state_def)



text \<open>
  Eviction: a new client arriving at a full map (after the periodic sweep) is served, and
  exactly one tracked key loses its window: an expired one if there is any, otherwise one whose
  window ends first. Nobody else's window changes.
\<close>

theorem allow_at_full:
  assumes "rl_inv rl st" "iter_ok iter" "0 < max_entries rl"
    and "max_entries rl \<le> length (attempts (sweep rl now st))" "key \<notin> fst ` set (attempts (sweep rl now st))"
  shows "fst (allow_at iter rl key now st) \<and>
    (\<exists>k. evictable (attempts (sweep rl now st)) now k \<and>
      map_of (attempts (snd (allow_at iter rl key now st))) =
        (map_of (attempts (sweep rl now st)))(k := None, key \<mapsto> opened rl now) \<and>
      eviction_count (snd (allow_at iter rl key now st)) = eviction_count st + 1)"
proof -
  have none: "map_of (attempts (sweep rl now st)) key = None"
    using assms(5) by (simp add: map_of_eq_None_iff)
  have ev: "eviction_count (sweep rl now st) = eviction_count st" by (simp add: sweep_def Let_def)
  obtain k where k: "evictable (attempts (sweep rl now st)) now k" "evict_oldest iter rl now (sweep rl now st) =
      (sweep rl now st)\<lparr>attempts := AList.delete k (attempts (sweep rl now st)),
        eviction_count := eviction_count (sweep rl now st) + 1\<rparr>"
    using evict_oldest_at_cap [OF sweep_inv [OF assms(1)] assms(3,4,2)] by blast
  have a: "allow_at iter rl key now st = (True, (evict_oldest iter rl now (sweep rl now st))\<lparr>attempts :=
      AList.update key (opened rl now) (attempts (evict_oldest iter rl now (sweep rl now st)))\<rparr>)"
    using none assms(3,4) by (simp add: allow_at_def Let_def opened_def)
  show ?thesis unfolding a using k ev
    by (auto intro!: exI [of _ k] simp: update_conv' delete_conv')
qed

theorem allow_at_full_witness:
  "fst (allow_at id (rl_demo\<lparr>max_entries := 1\<rparr>) [9] 5
     (rl_demo_state\<lparr>attempts := [([1], \<lparr>reset_at = 10, count = 1\<rparr>)]\<rparr>))"
  using allow_at_full [of "rl_demo\<lparr>max_entries := 1\<rparr>"
     "rl_demo_state\<lparr>attempts := [([1], \<lparr>reset_at = 10, count = 1\<rparr>)]\<rparr>" id 5 "[9]"]
  by (simp add: rl_demo_def rl_demo_state_def rl_inv_def sweep_def)

lemma and_top_mask_eq_iff:
  fixes n a :: "'w::len word"
  shows "n AND push_bit m (- 1) = a AND push_bit m (- 1) \<longleftrightarrow> drop_bit m n = drop_bit m a"
proof
  assume h: "n AND push_bit m (- 1) = a AND push_bit m (- 1)"
  show "drop_bit m n = drop_bit m a"
  proof (rule bit_eqI)
    fix i
    have "bit (n AND push_bit m (- 1)) (m + i) = bit (a AND push_bit m (- 1)) (m + i)" using h by simp
    then show "bit (drop_bit m n) i = bit (drop_bit m a) i"
      by (auto simp: bit_simps dest: bit_imp_le_length)
  qed
next
  assume h: "drop_bit m n = drop_bit m a"
  have "bit n i = bit a i" if "m \<le> i" for i
    using arg_cong [OF h, of "\<lambda>w. bit w (i - m)"] that by (simp add: bit_simps)
  then show "n AND push_bit m (- 1) = a AND push_bit m (- 1)"
    by (intro bit_eqI) (auto simp: bit_simps)
qed

text \<open>A trusted entry covers an address when it is that address, or when their top bits agree.\<close>

fun covers :: "trusted_proxy \<Rightarrow> ip_addr \<Rightarrow> bool" where
  "covers (Addr a) addr = (a = addr)"
| "covers (Prefix (V4 n) b) (V4 a) = (drop_bit (32 - b) n = drop_bit (32 - b) a)"
| "covers (Prefix (V6 n) b) (V6 a) = (drop_bit (128 - b) n = drop_bit (128 - b) a)"
| "covers (Prefix _ _) _ = False"

lemma drop_bit_word_length: "LENGTH('w) \<le> m \<Longrightarrow> drop_bit m (n :: 'w::len word) = 0"
  by (rule bit_eqI) (auto simp: bit_simps dest: bit_imp_le_length)

lemma prefix_contains_covers: "prefix_contains n b a = covers (Prefix n b) a"
  by (cases n; cases a)
    (auto simp: prefix_contains_def Let_def and_top_mask_eq_iff [simplified] drop_bit_word_length)

lemma trusted_entry_covers:
  "(case t of Addr a \<Rightarrow> a = addr | Prefix n b \<Rightarrow> prefix_contains n b addr) = covers t addr"
  by (cases t) (simp_all add: prefix_contains_covers)

lemma is_trusted_proxy_iff:
  "is_trusted_proxy parse_ip rl remote \<longleftrightarrow>
     (\<exists>addr t. (case split_host_port remote of Some h \<Rightarrow> h | None \<Rightarrow> remote) \<noteq> [] \<and>
        parse_ip (case split_host_port remote of Some h \<Rightarrow> h | None \<Rightarrow> remote) = Some addr \<and>
        t \<in> set (trusted rl) \<and> covers t addr)"
  by (auto simp: is_trusted_proxy_def Let_def list_ex_iff trusted_entry_covers split: option.splits)

text \<open>
  A client cannot choose its own key: if the proxy headers have any influence on the key under
  which a peer is counted, the host part of the socket address is an IP address covered by an entry
  of \<open>trusted_proxy_ips\<close> (equal to it, or with the same top bits as its CIDR prefix, within one
  address family).
\<close>

theorem client_key_not_spoofable:
  assumes "client_key parse_ip rl remote ff ri \<noteq> client_key parse_ip rl remote ff' ri'"
  shows "\<exists>addr t. parse_ip (case split_host_port remote of Some h \<Rightarrow> h | None \<Rightarrow> remote) = Some addr \<and>
    t \<in> set (trusted rl) \<and> covers t addr"
proof -
  have "is_trusted_proxy parse_ip rl remote" using assms by (cases "is_trusted_proxy parse_ip rl remote") (simp_all add: client_key_def)
  then show ?thesis using is_trusted_proxy_iff by blast
qed

theorem client_key_not_spoofable_witness:
  "\<exists>addr t. (\<lambda>h. if h = lit ''p'' then Some (V4 0x0A010203) else None) (lit ''p'') = Some addr \<and>
    t \<in> set (trusted rl_demo) \<and> covers t addr"
  using client_key_not_spoofable [of "\<lambda>h. if h = lit ''p'' then Some (V4 0x0A010203) else None" rl_demo
      "lit ''p:1''" "lit ''a''" "[]" "lit ''b''" "[]"]
  by (simp add: client_key_def is_trusted_proxy_def split_host_port_def rsplit_once_def starts_with_def
      rl_demo_def prefix_contains_def trim_def is_whitespace_def Let_def)

end
