(* ===== verification/Timestamps.thy ===== *)
theory Timestamps
  imports Prelude
begin

text \<open>
  The textual timestamps of the session cache (\<^verbatim>\<open>symvault-core/src/session.rs\<close>,
  \<open>timestamp\<close> and \<open>parse_timestamp\<close>): the proleptic Gregorian calendar computed from a day count
  and back, RFC 3339 printing with a minimal fraction, and the parser. An instant is an \<open>int\<close>,
  nanoseconds since the Unix epoch; the parser works on the UTF-8 bytes of its text.
\<close>

section \<open>Civil dates\<close>

text \<open>The date of a day count, as \<open>timestamp\<close> computes it.\<close>

definition civil_from_days :: "int \<Rightarrow> int \<times> int \<times> int" where
  "civil_from_days days =
     (let z = days + 719468;
          era = tdiv (if 0 \<le> z then z else z - 146096) 146097;
          doe = z - era * 146097;
          yoe = tdiv (doe - tdiv doe 1460 + tdiv doe 36524 - tdiv doe 146096) 365;
          doy = doe - (365 * yoe + tdiv yoe 4 - tdiv yoe 100);
          mp = tdiv (5 * doy + 2) 153;
          day = doy - tdiv (153 * mp + 2) 5 + 1;
          month = mp + (if mp < 10 then 3 else - 9);
          y = yoe + era * 400
      in (y + (if month \<le> 2 then 1 else 0), month, day))"

text \<open>The day count of a date, as \<open>parse_timestamp\<close> computes it.\<close>

definition days_from_civil :: "int \<Rightarrow> int \<Rightarrow> int \<Rightarrow> int" where
  "days_from_civil y m d =
     (let yy = (if m \<le> 2 then y - 1 else y);
          era = tdiv (if 0 \<le> yy then yy else yy - 399) 400;
          yoe = yy - era * 400;
          doy = tdiv (153 * (m + (if 2 < m then - 3 else 9)) + 2) 5 + d - 1;
          doe = yoe * 365 + tdiv yoe 4 - tdiv yoe 100 + doy
      in era * 146097 + doe - 719468)"

definition leap_year :: "int \<Rightarrow> bool" where
  "leap_year y \<longleftrightarrow> y mod 4 = 0 \<and> (y mod 100 \<noteq> 0 \<or> y mod 400 = 0)"

definition days_in_month :: "int \<Rightarrow> int \<Rightarrow> int" where
  "days_in_month y m =
     (if m = 2 then (if leap_year y then 29 else 28)
      else if m = 4 \<or> m = 6 \<or> m = 9 \<or> m = 11 then 30 else 31)"

lemma capped_div:
  fixes n b c :: int
  assumes "0 \<le> n" "0 < b" "0 \<le> c"
  obtains q where "0 \<le> q" "q \<le> c" "0 \<le> n - b * q" "n - b * q < b \<or> q = c"
proof (cases "n div b \<le> c")
  case True
  have "b * (n div b) + n mod b = n" "0 \<le> n mod b" "n mod b < b" using assms(2) by auto
  with True assms that [of "n div b"] show thesis by (auto simp: pos_imp_zdiv_nonneg_iff)
next
  case False
  then have "b * c \<le> b * (n div b)" using assms(2) by simp
  moreover have "b * (n div b) \<le> n" using assms(2) mult_div_mod_eq [of b n] pos_mod_sign [of b n] by linarith
  ultimately have "b * c \<le> n" by (rule order_trans)
  with assms that [of c] show thesis by simp
qed

text \<open>A day of the 400-year era splits into centuries, four-year cycles, years and days.\<close>

lemma era_split:
  fixes doe :: int
  assumes "0 \<le> doe" "doe \<le> 146096"
  obtains a q r e where "doe = 36524 * a + 1461 * q + 365 * r + e"
    "0 \<le> a" "a \<le> 3" "0 \<le> q" "q \<le> 24" "0 \<le> r" "r \<le> 3" "0 \<le> e" "e \<le> 365"
    "e = 365 \<Longrightarrow> r = 3 \<and> (q \<le> 23 \<or> a = 3)"
proof -
  obtain a where a: "0 \<le> a" "a \<le> 3" "0 \<le> doe - 36524 * a" "doe - 36524 * a < 36524 \<or> a = 3"
    using capped_div [OF assms(1), of 36524 3] by auto
  define s where "s = doe - 36524 * a"
  obtain q where q: "0 \<le> q" "q \<le> 24" "0 \<le> s - 1461 * q" "s - 1461 * q < 1461 \<or> q = 24"
    using capped_div [of s 1461 24] a(3) by (auto simp: s_def)
  define u where "u = s - 1461 * q"
  obtain r where r: "0 \<le> r" "r \<le> 3" "0 \<le> u - 365 * r" "u - 365 * r < 365 \<or> r = 3"
    using capped_div [of u 365 3] q(3) by (auto simp: u_def)
  have s: "s \<le> 36524" "a \<noteq> 3 \<Longrightarrow> s < 36524" using a assms(2) by (auto simp: s_def)
  have u: "u \<le> 1460" "u = 1460 \<Longrightarrow> q \<le> 23 \<or> a = 3" using q s by (auto simp: u_def)
  show thesis
    by (rule that [of a q r "u - 365 * r"]) (use a q r u s_def u_def in auto)
qed

lemma year_of_era:
  fixes doe :: int
  assumes "0 \<le> doe" "doe \<le> 146096"
  defines "yoe \<equiv> (doe - doe div 1460 + doe div 36524 - doe div 146096) div 365"
  shows "0 \<le> yoe" "yoe \<le> 399"
    and "0 \<le> doe - (365 * yoe + yoe div 4 - yoe div 100)" "doe - (365 * yoe + yoe div 4 - yoe div 100) \<le> 365"
    and "doe - (365 * yoe + yoe div 4 - yoe div 100) = 365 \<Longrightarrow> leap_year (yoe + 1)"
proof -
  obtain a q r e where doe: "doe = 36524 * a + 1461 * q + 365 * r + e"
    and b: "0 \<le> a" "a \<le> 3" "0 \<le> q" "q \<le> 24" "0 \<le> r" "r \<le> 3" "0 \<le> e" "e \<le> 365"
    and last: "e = 365 \<Longrightarrow> r = 3 \<and> (q \<le> 23 \<or> a = 3)"
    by (rule era_split [OF assms(1,2)]) blast
  define k where "k = (if 1460 \<le> 24 * a + q + 365 * r + e then 1 else 0 :: int)"
  have d1: "doe div 1460 = 25 * a + q + k"
    by (rule div_unique_pos [where r = "24 * a + q + 365 * r + e - 1460 * k"])
      (use doe b in \<open>auto simp: k_def\<close>)
  have d2: "doe div 36524 - doe div 146096 = a"
  proof (cases "doe = 146096")
    case False
    then have "1461 * q + 365 * r + e < 36524"
      using doe b last assms(2) by (cases "e = 365") auto
    then have "doe div 36524 = a"
      using doe b by (intro div_unique_pos [where r = "1461 * q + 365 * r + e"]) auto
    moreover have "doe div 146096 = 0" using False assms by simp
    ultimately show ?thesis by simp
  qed (use doe b in auto)
  have "0 \<le> e - k" "e - k < 365" using b last by (cases "e = 365"; auto simp: k_def)+
  then have y: "yoe = 100 * a + 4 * q + r"
    unfolding yoe_def using d1 d2 doe
    by (intro div_unique_pos [where r = "e - k"]) auto
  have y4: "yoe div 4 = 25 * a + q" and y100: "yoe div 100 = a"
    using y b by (intro div_unique_pos [where r = r]; simp)
      (intro div_unique_pos [where r = "4 * q + r"]; use y b in simp)
  have doy: "doe - (365 * yoe + yoe div 4 - yoe div 100) = e"
    unfolding y4 y100 using y doe by simp
  show "0 \<le> yoe" "yoe \<le> 399" using y b by auto
  show "0 \<le> doe - (365 * yoe + yoe div 4 - yoe div 100)" "doe - (365 * yoe + yoe div 4 - yoe div 100) \<le> 365"
    using doy b by auto
  assume "doe - (365 * yoe + yoe div 4 - yoe div 100) = 365"
  then have r: "r = 3" "q \<le> 23 \<or> a = 3" using doy last by auto
  then have y1: "yoe + 1 = 4 * (25 * a + q + 1)" "yoe + 1 = 4 * (q + 1) + a * 100" using y by simp_all
  have "(yoe + 1) mod 4 = 0" unfolding y1(1) by simp
  moreover have "(yoe + 1) mod 100 \<noteq> 0" if "q \<le> 23" unfolding y1(2) using that b by simp
  moreover have "(yoe + 1) mod 400 = 0" if "\<not> q \<le> 23"
  proof -
    have "q = 24" "a = 3" using that r(2) b by auto
    then have "yoe + 1 = 400" using y1(2) by simp
    then show ?thesis by simp
  qed
  ultimately show "leap_year (yoe + 1)" unfolding leap_year_def by (cases "q \<le> 23") simp_all
qed

lemma month_of_year:
  fixes doy :: int
  assumes "0 \<le> doy" "doy \<le> 365"
  defines "mp \<equiv> (5 * doy + 2) div 153"
  defines "m \<equiv> mp + (if mp < 10 then 3 else - 9)"
  defines "d \<equiv> doy - (153 * mp + 2) div 5 + 1"
  shows "0 \<le> mp" "mp \<le> 11" "1 \<le> d" "d \<le> (if m = 2 then 29 else if m = 4 \<or> m = 6 \<or> m = 9 \<or> m = 11 then 30 else 31)"
    and "m = 2 \<Longrightarrow> d = 29 \<Longrightarrow> doy = 365"
proof -
  have b: "153 * mp \<le> 5 * doy + 2" "5 * doy + 2 < 153 * mp + 153"
    unfolding mp_def using div_bounds [of 153 "5 * doy + 2"] by auto
  have mp: "0 \<le> mp" "mp \<le> 11" using b assms(1,2) by linarith+
  have "mp = 0 \<or> mp = 1 \<or> mp = 2 \<or> mp = 3 \<or> mp = 4 \<or> mp = 5 \<or> mp = 6 \<or> mp = 7 \<or> mp = 8 \<or>
      mp = 9 \<or> mp = 10 \<or> mp = 11" using mp by arith
  then have "1 \<le> d \<and> d \<le> (if m = 2 then 29 else if m = 4 \<or> m = 6 \<or> m = 9 \<or> m = 11 then 30 else 31) \<and>
      (m = 2 \<longrightarrow> d = 29 \<longrightarrow> doy = 365)"
    by (elim disjE) (use b assms(2) in \<open>simp_all add: m_def d_def\<close>)
  with mp show "0 \<le> mp" "mp \<le> 11" "1 \<le> d"
    "d \<le> (if m = 2 then 29 else if m = 4 \<or> m = 6 \<or> m = 9 \<or> m = 11 then 30 else 31)"
    "m = 2 \<Longrightarrow> d = 29 \<Longrightarrow> doy = 365" by auto
qed

text \<open>Every day from the epoch on is a valid date, and the date gives the day back.\<close>

lemma civil_days:
  assumes "0 \<le> days" "civil_from_days days = (y, m, d)"
  shows "days_from_civil y m d = days" "1 \<le> m" "m \<le> 12" "1 \<le> d" "d \<le> days_in_month y m" "0 \<le> y"
    and "days \<le> 2932896 \<Longrightarrow> y \<le> 9999"
proof -
  define z where "z = days + 719468"
  define era where "era = z div 146097"
  define doe where "doe = z - era * 146097"
  have doe: "0 \<le> doe" "doe \<le> 146096" and era: "0 \<le> era"
    using assms(1) div_bounds [of 146097 z]
    unfolding doe_def era_def by (auto simp: z_def pos_imp_zdiv_nonneg_iff)
  define yoe where "yoe = (doe - doe div 1460 + doe div 36524 - doe div 146096) div 365"
  define doy where "doy = doe - (365 * yoe + yoe div 4 - yoe div 100)"
  define mp where "mp = (5 * doy + 2) div 153"
  note yo = year_of_era [OF doe, folded yoe_def doy_def]
  note mo = month_of_year [OF yo(3,4), folded mp_def]
  have est: "0 \<le> doe - doe div 1460 + doe div 36524 - doe div 146096"
    using doe div_bounds [of 1460 doe] div_bounds [of 36524 doe] div_bounds [of 146096 doe] by linarith
  have z0: "0 \<le> z" using assms(1) by (simp add: z_def)
  have t: "tdiv (if 0 \<le> z then z else z - 146096) 146097 = era" "tdiv doe 1460 = doe div 1460"
      "tdiv doe 36524 = doe div 36524" "tdiv doe 146096 = doe div 146096"
      "tdiv (doe - doe div 1460 + doe div 36524 - doe div 146096) 365 = yoe"
      "tdiv yoe 4 = yoe div 4" "tdiv yoe 100 = yoe div 100"
      "tdiv (5 * doy + 2) 153 = mp" "tdiv (153 * mp + 2) 5 = (153 * mp + 2) div 5"
    subgoal using z0 by (simp add: era_def)
    subgoal using doe(1) by (rule tdiv_nonneg)
    subgoal using doe(1) by (rule tdiv_nonneg)
    subgoal using doe(1) by (rule tdiv_nonneg)
    subgoal unfolding yoe_def using est by (rule tdiv_nonneg)
    subgoal using yo(1) by (rule tdiv_nonneg)
    subgoal using yo(1) by (rule tdiv_nonneg)
    subgoal unfolding mp_def using yo(3) by (intro tdiv_nonneg) linarith
    subgoal using mo(1) by (intro tdiv_nonneg) linarith
    done
  have "civil_from_days days =
      (yoe + era * 400 + (if mp + (if mp < 10 then 3 else - 9) \<le> 2 then 1 else 0),
       mp + (if mp < 10 then 3 else - 9), doy - (153 * mp + 2) div 5 + 1)"
    unfolding civil_from_days_def Let_def z_def [symmetric]
    by (simp only: t doe_def [symmetric] doy_def [symmetric])
  then have ymd: "m = mp + (if mp < 10 then 3 else - 9)" "d = doy - (153 * mp + 2) div 5 + 1"
      "y = yoe + era * 400 + (if m \<le> 2 then 1 else 0)"
    using assms(2) by simp_all
  show m: "1 \<le> m" "m \<le> 12" using ymd(1) mo(1,2) by auto
  show "1 \<le> d" using mo(3) ymd(2) by simp
  have yy: "(if m \<le> 2 then y - 1 else y) = yoe + era * 400" using ymd(3) by auto
  show "0 \<le> y" using ymd(3) yo(1) era by auto
  have "leap_year y" if "m = 2" "d = 29"
  proof -
    have "leap_year (yoe + 1)" using yo(5) mo(5) that ymd by auto
    moreover have "y = yoe + 1 + 400 * era" using ymd(3) that(1) by simp
    moreover have "400 * era = 4 * (100 * era)" "400 * era = 100 * (4 * era)" by simp_all
    ultimately show ?thesis unfolding leap_year_def by (metis mod_mult_self2)
  qed
  then show "d \<le> days_in_month y m"
    using mo(4) ymd(1,2) unfolding days_in_month_def by (cases "d = 29") (auto split: if_splits)
  have "(yoe + era * 400) div 400 = era" using yo(1,2) by simp
  moreover have "m + (if 2 < m then - 3 else 9) = mp" using ymd(1) mo(1,2) by auto
  moreover have "0 \<le> yoe + era * 400" using yo(1) era by simp
  ultimately show "days_from_civil y m d = days"
    using yo(1) mo(1) ymd(2) unfolding days_from_civil_def yy Let_def
    by (simp add: doy_def doe_def z_def)
  assume "days \<le> 2932896"
  then have z: "z \<le> 3652364" by (simp add: z_def)
  then have e24: "era \<le> 24" unfolding era_def using div_bounds [of 146097 z] by linarith
  show "y \<le> 9999"
  proof (rule ccontr)
    assume "\<not> y \<le> 9999"
    then have h: "era = 24" "yoe = 399" "m \<le> 2" using ymd(3) yo(2) e24 era by (auto split: if_splits)
    then have "10 \<le> mp" using ymd(1) mo(1) by (auto split: if_splits)
    then have "306 \<le> doy" unfolding mp_def using div_bounds [of 153 "5 * doy + 2"] by linarith
    then show False using h z by (simp add: doy_def doe_def)
  qed
qed

section \<open>Text\<close>

datatype session_error =
    Keyring ustring
  | NotFound
  | Expired ustring
  | Malformed ustring
  | LegacyPlaintext
  | Crypto ustring
  | WrapKeyMissing
  | WrapKeyInvalid ustring

definition fraction_suffix :: "nat \<Rightarrow> ustring" where
  "fraction_suffix frac = (if frac = 0 then [] else ch_dot # trim_end_matches 48 (pad 9 frac))"

definition timestamp :: "int \<Rightarrow> session_error + ustring" where
  "timestamp t =
     (if t < 0 then Inl (Malformed (lit ''second time provided was later than self''))
      else
        (let s = t div 1000000000;
             days = s div 86400;
             rem = nat (s mod 86400);
             (y, month, day) = civil_from_days days
         in Inr (pad 4 (nat y) @ ch_minus # pad 2 (nat month) @ ch_minus # pad 2 (nat day) @ 84 #
                 pad 2 (rem div 3600) @ ch_colon # pad 2 (rem div 60 mod 60) @ ch_colon # pad 2 (rem mod 60) @
                 fraction_suffix (nat (t mod 1000000000)) @ [90])))"

text \<open>The closure \<open>n\<close> of the parser: the digits at \<open>a..z\<close> as a number.\<close>

definition num_field :: "nat list \<Rightarrow> nat \<Rightarrow> nat \<Rightarrow> nat option" where
  "num_field b a z =
     (let digits = take (z - a) (drop a b)
      in if z \<le> length b \<and> list_all is_digit digits then Some (digits_value digits) else None)"

text \<open>The fraction after the seconds and the position that follows it.\<close>

definition parse_fraction :: "nat list \<Rightarrow> (nat \<times> nat) option" where
  "parse_fraction b =
     (if b ! 19 = ch_dot \<or> b ! 19 = ch_comma then
        (let digits = takeWhile (\<lambda>x. \<not> (x = 90 \<or> x = ch_plus \<or> x = ch_minus)) (drop 20 b)
         in if digits = [] \<or> \<not> list_all is_digit digits then None
            else (let width = min (length digits) 9
                  in Some (digits_value (take width digits) * 10 ^ (9 - width), 20 + length digits)))
      else Some (0, 19))"

definition parse_offset :: "nat list \<Rightarrow> nat \<Rightarrow> int option" where
  "parse_offset b e =
     (if length b \<le> e then None
      else if b ! e = 90 \<and> e + 1 = length b then Some 0
      else if (b ! e = ch_plus \<or> b ! e = ch_minus) \<and> e + 6 = length b \<and> b ! (e + 3) = ch_colon then
        (case (num_field b (e + 1) (e + 3), num_field b (e + 4) (e + 6)) of
           (Some hours, Some minutes) \<Rightarrow>
             if 23 < hours \<or> 59 < minutes then None
             else (let seconds = int (hours * 60 + minutes) * 60
                   in Some (if b ! e = ch_plus then seconds else - seconds))
         | _ \<Rightarrow> None)
      else None)"

definition parse_timestamp :: "ustring \<Rightarrow> int option" where
  "parse_timestamp v =
     (let b = as_bytes v
      in if length b < 20 \<or> b ! 4 \<noteq> ch_minus \<or> b ! 7 \<noteq> ch_minus \<or> b ! 10 \<noteq> 84 \<or>
            b ! 13 \<noteq> ch_colon \<or> b ! 16 \<noteq> ch_colon then None
         else
           (case (num_field b 0 4, num_field b 5 7, num_field b 8 10,
                  num_field b 11 13, num_field b 14 16, num_field b 17 19) of
              (Some y, Some m, Some d, Some h, Some mi, Some sec) \<Rightarrow>
                if m = 0 \<or> 12 < m \<or> d = 0 \<or> 31 < d \<or> 23 < h \<or> 59 < mi \<or> 59 < sec then None
                else if days_in_month (int y) (int m) < int d then None
                else
                  (case parse_fraction b of
                     None \<Rightarrow> None
                   | Some (frac, e) \<Rightarrow>
                       (case parse_offset b e of
                          None \<Rightarrow> None
                        | Some offset \<Rightarrow>
                            Option.bind (i128_checked (days_from_civil (int y) (int m) (int d) * 86400)) (\<lambda>x1.
                            Option.bind (i128_checked (x1 + int (h * 3600 + mi * 60 + sec))) (\<lambda>x2.
                            Option.bind (i128_checked (x2 - offset)) (\<lambda>x3.
                            Option.bind (i128_checked (x3 * 1000000000)) (\<lambda>x4.
                            i128_checked (x4 + int frac)))))))
            | _ \<Rightarrow> None))"

section \<open>Reading back what was printed\<close>

lemma two_digits:
  assumes "length xs = 2" "\<And>c. c \<in> set xs \<Longrightarrow> is_digit c"
  obtains a b where "xs = [a, b]" "is_digit a" "is_digit b"
  using assms by (auto simp: length_Suc_conv numeral_2_eq_2)

lemma four_digits:
  assumes "length xs = 4" "\<And>c. c \<in> set xs \<Longrightarrow> is_digit c"
  obtains a b c d where "xs = [a, b, c, d]" "is_digit a" "is_digit b" "is_digit c" "is_digit d"
proof -
  have "length xs = Suc (Suc (Suc (Suc 0)))" using assms(1) by simp
  then obtain a b c d where "xs = [a, b, c, d]" by (auto simp: length_Suc_conv)
  with assms(2) that show thesis by simp
qed

lemma trim_zeros:
  fixes xs :: ustring
  obtains k where "xs = trim_end_matches d xs @ replicate k d"
proof -
  have "rev xs = takeWhile (\<lambda>c. c = d) (rev xs) @ dropWhile (\<lambda>c. c = d) (rev xs)" by simp
  then have "xs = rev (dropWhile (\<lambda>c. c = d) (rev xs)) @ rev (takeWhile (\<lambda>c. c = d) (rev xs))"
    by (metis rev_append rev_rev_ident)
  moreover have "rev (takeWhile (\<lambda>c. c = d) (rev xs)) = replicate (length (takeWhile (\<lambda>c. c = d) (rev xs))) d"
    by (intro replicate_eqI) (auto dest: set_takeWhileD)
  ultimately show thesis using that unfolding trim_end_matches_def by metis
qed

lemma fraction_digits:
  assumes "frac < 1000000000" "frac \<noteq> 0"
  defines "ds \<equiv> trim_end_matches 48 (pad 9 frac)"
  shows "ds \<noteq> []" "length ds \<le> 9" "list_all is_digit ds" "digits_value ds * 10 ^ (9 - length ds) = frac"
proof -
  obtain k where k: "pad 9 frac = ds @ replicate k 48"
    using trim_zeros [of "pad 9 frac" 48] unfolding ds_def by blast
  have "length (pad 9 frac) = 9" using assms(1) by (intro length_pad) auto
  then have l: "length ds + k = 9" using arg_cong [OF k, of length] by simp
  have v: "digits_value ds * 10 ^ k = frac"
    using arg_cong [OF k, of digits_value] by (simp add: pad_simps digits_value_append)
  show "ds \<noteq> []" using v assms(2) by auto
  show "length ds \<le> 9" using l by simp
  show "digits_value ds * 10 ^ (9 - length ds) = frac" using v l by (metis add_diff_cancel_left')
  have "set ds \<subseteq> set (pad 9 frac)" unfolding k by simp
  then show "list_all is_digit ds" using pad_simps(2) [of _ 9 frac] by (auto simp: list_all_iff)
qed

lemma parse_fraction_suffix:
  assumes "length pre = 19" "frac < 1000000000"
  shows "parse_fraction (pre @ fraction_suffix frac @ [90]) = Some (frac, 19 + length (fraction_suffix frac))"
proof (cases "frac = 0")
  case True
  then show ?thesis using assms(1) by (simp add: parse_fraction_def fraction_suffix_def nth_append)
next
  case False
  define ds where "ds = trim_end_matches 48 (pad 9 frac)"
  note d = fraction_digits [OF assms(2) False, folded ds_def]
  have "takeWhile (\<lambda>x. \<not> (x = 90 \<or> x = ch_plus \<or> x = ch_minus)) (ds @ [90]) = ds"
    using d(3) by (subst takeWhile_append2) (auto simp: list_all_iff is_digit_def)
  then show ?thesis
    using False assms(1) d
    by (simp add: parse_fraction_def fraction_suffix_def ds_def [symmetric] nth_append Let_def)
qed

lemma parse_offset_Z: "parse_offset (p @ [90]) (length p) = Some 0"
  by (simp add: parse_offset_def)

lemma fraction_suffix_ascii: "frac < 1000000000 \<Longrightarrow> c \<in> set (fraction_suffix frac) \<Longrightarrow> c < 128"
  using fraction_digits(3) [of frac]
  by (auto simp: fraction_suffix_def list_all_iff is_digit_def split: if_splits)

text \<open>The six numbers of a printed timestamp, at the positions the parser reads.\<close>

lemma stamp_fields:
  assumes "y < 10000" "m < 100" "d < 100" "h < 100" "mi < 100" "sec < 100"
    and "b = pad 4 y @ ch_minus # pad 2 m @ ch_minus # pad 2 d @ 84 #
      pad 2 h @ ch_colon # pad 2 mi @ ch_colon # pad 2 sec @ tail"
  shows "num_field b 0 4 = Some y" "num_field b 5 7 = Some m" "num_field b 8 10 = Some d"
    "num_field b 11 13 = Some h" "num_field b 14 16 = Some mi" "num_field b 17 19 = Some sec"
    "b ! 4 = ch_minus" "b ! 7 = ch_minus" "b ! 10 = 84" "b ! 13 = ch_colon" "b ! 16 = ch_colon"
    "length b = 19 + length tail"
proof -
  obtain y1 y2 y3 y4 where y: "pad 4 y = [y1, y2, y3, y4]" "is_digit y1" "is_digit y2" "is_digit y3" "is_digit y4"
    by (rule four_digits [of "pad 4 y"]) (use assms(1) in \<open>auto simp: length_pad pad_simps\<close>)
  have two: "\<exists>a c. pad 2 n = [a, c] \<and> is_digit a \<and> is_digit c" if "n < 100" for n
    by (rule two_digits [of "pad 2 n"]) (use that in \<open>auto simp: length_pad pad_simps\<close>)
  obtain m1 m2 d1 d2 h1 h2 i1 i2 s1 s2 where t:
      "pad 2 m = [m1, m2]" "is_digit m1" "is_digit m2" "pad 2 d = [d1, d2]" "is_digit d1" "is_digit d2"
      "pad 2 h = [h1, h2]" "is_digit h1" "is_digit h2" "pad 2 mi = [i1, i2]" "is_digit i1" "is_digit i2"
      "pad 2 sec = [s1, s2]" "is_digit s1" "is_digit s2"
    using two [OF assms(2)] two [OF assms(3)] two [OF assms(4)] two [OF assms(5)] two [OF assms(6)] by blast
  have v: "digits_value [y1, y2, y3, y4] = y" "digits_value [m1, m2] = m" "digits_value [d1, d2] = d"
      "digits_value [h1, h2] = h" "digits_value [i1, i2] = mi" "digits_value [s1, s2] = sec"
    by (simp_all only: y(1) [symmetric] t(1,4,7,10,13) [symmetric] pad_simps(1))
  have b: "b = [y1, y2, y3, y4, 45, m1, m2, 45, d1, d2, 84, h1, h2, 58, i1, i2, 58, s1, s2] @ tail"
    by (simp add: assms(7) y(1) t)
  show "num_field b 0 4 = Some y" "num_field b 5 7 = Some m" "num_field b 8 10 = Some d"
    "num_field b 11 13 = Some h" "num_field b 14 16 = Some mi" "num_field b 17 19 = Some sec"
    using y t v unfolding num_field_def b by simp_all
  show "b ! 4 = ch_minus" "b ! 7 = ch_minus" "b ! 10 = 84" "b ! 13 = ch_colon" "b ! 16 = ch_colon"
    "length b = 19 + length tail"
    unfolding b by simp_all
qed

lemma digit_ascii: "c \<in> set (pad w n) \<Longrightarrow> c < 128"
  using pad_simps(2) [of c w n] by (simp add: is_digit_def)

lemma seconds_of_day:
  fixes r :: nat
  assumes "r < 86400"
  shows "r div 3600 < 24" "r div 60 mod 60 < 60" "r mod 60 < 60"
    "r div 3600 * 3600 + r div 60 mod 60 * 60 + r mod 60 = r"
proof -
  show "r div 3600 < 24" using assms by (simp add: div_less_iff_less_mult)
  have "r div 3600 = r div 60 div 60" by (simp add: div_mult2_eq [symmetric])
  then show "r div 3600 * 3600 + r div 60 mod 60 * 60 + r mod 60 = r"
    using div_mult_mod_eq [of "r div 60" 60] div_mult_mod_eq [of r 60] by linarith
qed simp_all

lemma timestamp_reads_back:
  assumes "0 \<le> t" "t < 253402300800000000000"
  shows "\<exists>v. timestamp t = Inr v \<and> parse_timestamp v = Some t"
proof -
  define s where "s = t div 1000000000"
  define days where "days = s div 86400"
  define rem where "rem = nat (s mod 86400)"
  define frac where "frac = nat (t mod 1000000000)"
  obtain y m d where c: "civil_from_days days = (y, m, d)" by (cases "civil_from_days days")
  have s: "0 \<le> s" "s < 253402300800" using assms by (simp_all add: s_def pos_imp_zdiv_nonneg_iff)
  have days: "0 \<le> days" "days \<le> 2932896" using s by (simp_all add: days_def pos_imp_zdiv_nonneg_iff)
  have t: "t = s * 1000000000 + int frac" "s = days * 86400 + int rem" "frac < 1000000000" "rem < 86400"
    by (simp_all add: s_def frac_def days_def rem_def nat_less_iff)
  note civ = civil_days [OF days(1) c]
  have ymd: "int (nat y) = y" "int (nat m) = m" "int (nat d) = d" "nat y < 10000" "nat m < 100" "nat d < 100"
      "1 \<le> nat m" "nat m \<le> 12" "1 \<le> nat d" "nat d \<le> 31"
    using civ days(2) by (auto simp: days_in_month_def split: if_splits)
  note hms = seconds_of_day [OF t(4)]
  define b where "b = pad 4 (nat y) @ ch_minus # pad 2 (nat m) @ ch_minus # pad 2 (nat d) @ 84 #
      pad 2 (rem div 3600) @ ch_colon # pad 2 (rem div 60 mod 60) @ ch_colon # pad 2 (rem mod 60) @
      (fraction_suffix frac @ [90])"
  have ts: "timestamp t = Inr b"
    using assms(1) c by (simp add: timestamp_def b_def Let_def s_def [symmetric] days_def [symmetric]
        rem_def [symmetric] frac_def [symmetric])
  have asc: "as_bytes b = b"
    by (rule as_bytes_ascii) (auto simp: b_def dest: digit_ascii fraction_suffix_ascii [OF t(3)])
  note f = stamp_fields [OF ymd(4,5,6) _ _ _ b_def]
  have f': "rem div 3600 < 100" "rem div 60 mod 60 < 100" "rem mod 60 < 100" using hms by linarith+
  define pre where "pre = pad 4 (nat y) @ ch_minus # pad 2 (nat m) @ ch_minus # pad 2 (nat d) @ 84 #
      pad 2 (rem div 3600) @ ch_colon # pad 2 (rem div 60 mod 60) @ ch_colon # pad 2 (rem mod 60)"
  have pre: "b = pre @ fraction_suffix frac @ [90]" "length pre = 19"
    using ymd(4,5,6) f' by (simp_all add: pre_def b_def length_pad)
  have frac: "parse_fraction b = Some (frac, 19 + length (fraction_suffix frac))"
    using parse_fraction_suffix [OF pre(2) t(3)] pre(1) by simp
  have off: "parse_offset b (19 + length (fraction_suffix frac)) = Some 0"
    using parse_offset_Z [of "pre @ fraction_suffix frac"] pre by simp
  have chk: "i128_checked (days * 86400) = Some (days * 86400)" "i128_checked s = Some s"
      "i128_checked (s * 1000000000) = Some (s * 1000000000)" "i128_checked t = Some t"
    using days s assms by (simp_all add: i128_checked_def)
  have sum: "days * 86400 + int (rem div 3600 * 3600 + rem div 60 mod 60 * 60 + rem mod 60) = s"
    using hms(4) t(2) by (simp only:)
  have lim: "\<not> 59 < rem div 60 mod 60" "\<not> 59 < rem mod 60" using hms(2,3) by linarith+
  have "parse_timestamp b = Some t"
    using f(1-11) [OF f'] pre ymd(1-3,7-10) hms(1) lim civ(1,2,4,5) frac off chk sum t(1)
    unfolding parse_timestamp_def Let_def asc by simp
  with ts show ?thesis by blast
qed

text \<open>The instants the text format covers, and the text of one.\<close>

definition stamp_range :: "int \<Rightarrow> bool" where
  "stamp_range t \<longleftrightarrow> 0 \<le> t \<and> t < 253402300800000000000"

definition stamp_text :: "int \<Rightarrow> ustring" where
  "stamp_text t = (case timestamp t of Inr v \<Rightarrow> v | Inl _ \<Rightarrow> [])"

lemma timestamp_stamp_text: "0 \<le> t \<Longrightarrow> timestamp t = Inr (stamp_text t)"
  by (simp add: stamp_text_def timestamp_def Let_def split: prod.splits)

interpretation stamp: text_codec stamp_text parse_timestamp stamp_range
  using timestamp_reads_back timestamp_stamp_text
  by unfold_locales (fastforce simp: stamp_range_def)

text \<open>
  A timestamp the session cache writes reads back as the same instant, to the nanosecond, for
  every clock from the Unix epoch to the end of the year 9999: the calendar computation, the
  padding and the stripped fraction lose nothing. Two instants never share a text.
\<close>

theorem timestamp_roundtrip:
  assumes "0 \<le> t" "t < 253402300800000000000"
  shows "(\<exists>v. timestamp t = Inr v \<and> parse_timestamp v = Some t) \<and>
    (\<forall>u \<in> {0 ..< 253402300800000000000}. timestamp u = timestamp t \<longrightarrow> u = t)"
proof -
  have "u = t" if "u \<in> {0 ..< 253402300800000000000}" "timestamp u = timestamp t" for u
    using stamp.enc_inj [of u t] that assms by (simp add: stamp_range_def stamp_text_def)
  then show ?thesis using timestamp_reads_back [OF assms] by blast
qed

theorem timestamp_roundtrip_witness:
  "\<exists>v. timestamp 1709210096500000000 = Inr v \<and> parse_timestamp v = Some 1709210096500000000"
  using timestamp_roundtrip [of 1709210096500000000] by simp

end
