(* ===== verification/Framing.thy ===== *)
theory Framing
  imports Prelude
begin

text \<open>
  A length-prefixed encoding of records as number lists. It stands in for JSON where a theorem about
  stored records is applied to a concrete encoder and decoder that satisfy the laws it asks for.
\<close>

definition frames :: "nat list list \<Rightarrow> nat list" where
  "frames xs = concat (map (\<lambda>x. length x # x) xs)"

function unframes :: "nat list \<Rightarrow> nat list list option" where
  "unframes [] = Some []"
| "unframes (n # r) = (if n \<le> length r then map_option (Cons (take n r)) (unframes (drop n r)) else None)"
  by pat_completeness auto
termination by (relation "measure length") auto

lemma unframes_frames: "unframes (frames xs) = Some xs"
  by (induction xs) (simp_all add: frames_def)

definition opt_frame :: "ustring option \<Rightarrow> nat list" where
  "opt_frame v = (case v of None \<Rightarrow> [] | Some x \<Rightarrow> 1 # x)"

definition unopt_frame :: "nat list \<Rightarrow> ustring option" where
  "unopt_frame v = (case v of [] \<Rightarrow> None | _ # x \<Rightarrow> Some x)"

definition int_frame :: "int \<Rightarrow> nat list" where
  "int_frame i = [nat i, nat (- i)]"

definition unint_frame :: "nat list \<Rightarrow> int" where
  "unint_frame v = int (v ! 0) - int (v ! 1)"

lemma frame_inverses [simp]: "unopt_frame (opt_frame v) = v" "unint_frame (int_frame i) = i"
  by (auto simp: unopt_frame_def opt_frame_def unint_frame_def int_frame_def split: option.splits)

definition list_frame :: "ustring list option \<Rightarrow> nat list" where
  "list_frame v = (case v of None \<Rightarrow> [] | Some l \<Rightarrow> 1 # frames l)"

definition unlist_frame :: "nat list \<Rightarrow> ustring list option" where
  "unlist_frame v = (case v of [] \<Rightarrow> None | _ # b \<Rightarrow> unframes b)"

definition bool_frame :: "bool \<Rightarrow> nat list" where
  "bool_frame b = (if b then [1] else [])"

lemma list_frame_inverse [simp]: "unlist_frame (list_frame v) = v" "(bool_frame b \<noteq> []) = b"
  by (auto simp: unlist_frame_def list_frame_def bool_frame_def unframes_frames split: option.splits)

text \<open>
  The same numbers as one line of ASCII text between braces, for encoders whose output is a line.
\<close>

definition nums_text :: "nat list \<Rightarrow> ustring" where
  "nums_text xs = 123 # concat (map (\<lambda>n. dec n @ [44]) xs) @ [125]"

definition nums_of_text :: "ustring \<Rightarrow> nat list option" where
  "nums_of_text t = (case t of [] \<Rightarrow> None | _ # r \<Rightarrow> Some (map digits_value (butlast (split_on 44 (butlast r)))))"

lemma dec_no_comma: "44 \<notin> set (dec n)"
  using dec_digits [of 44 n] by (auto simp: is_digit_def)

lemma nums_of_nums_text [simp]: "nums_of_text (nums_text xs) = Some xs"
proof -
  have "split_on 44 (concat (map (\<lambda>n. dec n @ [44]) xs)) = map dec xs @ [[]]"
    by (induction xs) (simp_all add: split_on_append_sep dec_no_comma)
  then show ?thesis by (simp add: nums_of_text_def nums_text_def comp_def)
qed

lemma nums_text_ascii: "c \<in> set (nums_text xs) \<Longrightarrow> 44 \<le> c \<and> c < 128"
  by (auto simp: nums_text_def is_digit_def split: if_splits dest!: dec_digits)

lemma nums_text_line:
  "utf8_decode (nums_text xs) = Some (nums_text xs)" "10 \<notin> set (nums_text xs)" "13 \<notin> set (nums_text xs)"
  "nums_text xs \<noteq> []" "trim (nums_text xs) = nums_text xs"
proof -
  show "utf8_decode (nums_text xs) = Some (nums_text xs)"
    by (rule utf8_decode_ascii) (auto dest: nums_text_ascii)
  show "10 \<notin> set (nums_text xs)" "13 \<notin> set (nums_text xs)" using nums_text_ascii [of _ xs] by fastforce+
  show "nums_text xs \<noteq> []" by (simp add: nums_text_def)
  show "trim (nums_text xs) = nums_text xs" by (rule trim_id) (simp add: nums_text_def is_whitespace_def)
qed

end
