(* ===== verification/Session.thy ===== *)
theory Session
  imports Timestamps Framing
begin

text \<open>
  \<^verbatim>\<open>symvault-core/src/session.rs\<close>: the keyring boundary, the in-memory keyring and the session
  manager that caches the passphrase and the identity of an unlocked vault.

  A keyring is a record of three operations on a state of any type, as the source's trait object
  is; bytes are numbers. What the manager takes from other crates is the record \<open>session_libs\<close>:
  base64, AES-256-GCM and the JSON encoding of the two stored records, with the laws that
  \<open>libs_ok\<close> names. The clock reading and the random bytes of an operation are arguments; a
  random source that fails gives an error text instead of bytes.
\<close>

section \<open>Keyring keys\<close>

definition split_keyring_key :: "ustring \<Rightarrow> (ustring \<times> ustring) option" where
  "split_keyring_key key = rsplit_once 124 key"

definition SESSION_ACCOUNT :: ustring where "SESSION_ACCOUNT = lit ''session''"
definition IDENTITY_ACCOUNT :: ustring where "IDENTITY_ACCOUNT = lit ''identity''"
definition WRAP_KEY_ACCOUNT :: ustring where "WRAP_KEY_ACCOUNT = lit ''wrap-key''"
definition DEFAULT_MAX_LIFETIME :: int where "DEFAULT_MAX_LIFETIME = 28800000000000"
definition GO_ZERO_NANOS :: int where "GO_ZERO_NANOS = - 62135596800000000000"

definition session_key :: "ustring \<Rightarrow> ustring \<Rightarrow> ustring" where
  "session_key vault account = lit ''symvault:'' @ vault @ 124 # account"

section \<open>Keyrings\<close>

type_synonym blob = "nat list"

record 's keyring =
  kr_get :: "'s \<Rightarrow> ustring \<Rightarrow> session_error + blob"
  kr_set :: "'s \<Rightarrow> ustring \<Rightarrow> blob \<Rightarrow> (session_error + unit) \<times> 's"
  kr_delete :: "'s \<Rightarrow> ustring \<Rightarrow> (session_error + unit) \<times> 's"

record memory_state =
  kv_values :: "ustring \<Rightarrow> blob option"
  poisoned :: bool

definition poison_error :: session_error where
  "poison_error = Keyring (lit ''keyring mutex poisoned'')"

definition memory_keyring :: "memory_state keyring" where
  "memory_keyring =
     \<lparr>kr_get = (\<lambda>s k. if poisoned s then Inl poison_error
                     else (case kv_values s k of Some v \<Rightarrow> Inr v | None \<Rightarrow> Inl NotFound)),
      kr_set = (\<lambda>s k v. if poisoned s then (Inl poison_error, s)
                       else (Inr (), s\<lparr>kv_values := (kv_values s)(k \<mapsto> v)\<rparr>)),
      kr_delete = (\<lambda>s k. if poisoned s then (Inl poison_error, s)
                        else (Inr (), s\<lparr>kv_values := (kv_values s)(k := None)\<rparr>))\<rparr>"

definition native_error :: session_error where
  "native_error = Keyring (lit ''native keyring backend unavailable'')"

definition native_keyring :: "unit keyring" where
  "native_keyring =
     \<lparr>kr_get = (\<lambda>s k. Inl native_error), kr_set = (\<lambda>s k v. (Inl native_error, s)),
      kr_delete = (\<lambda>s k. (Inl native_error, s))\<rparr>"

section \<open>Stored records\<close>

record stored_session =
  ss_saved_at :: ustring
  ss_last_access :: ustring
  ss_passphrase :: "ustring option"
  ss_encrypted_passphrase :: "ustring option"
  ss_nonce :: "ustring option"
  ss_ttl_ns :: int
  ss_max_lifetime_ns :: int

record stored_identity =
  si_saved_at :: ustring
  si_last_access :: ustring
  si_encrypted_identity :: ustring
  si_nonce :: ustring
  si_ttl_ns :: int
  si_max_lifetime_ns :: int

definition ts_nanos :: "ustring \<Rightarrow> session_error + int" where
  "ts_nanos v = (case parse_timestamp v of
     Some n \<Rightarrow> Inr n | None \<Rightarrow> Inl (Malformed (lit ''invalid timestamp '' @ v)))"

definition is_go_zero :: "ustring \<Rightarrow> bool" where
  "is_go_zero v = (case ts_nanos v of Inr n \<Rightarrow> n = GO_ZERO_NANOS | Inl _ \<Rightarrow> False)"

definition session_validate :: "stored_session \<Rightarrow> session_error + unit" where
  "session_validate s = res_bind (ts_nanos (ss_saved_at s)) (\<lambda>_. res_bind (ts_nanos (ss_last_access s)) (\<lambda>_. Inr ()))"

definition identity_validate :: "stored_identity \<Rightarrow> session_error + unit" where
  "identity_validate i = res_bind (ts_nanos (si_saved_at i)) (\<lambda>_. res_bind (ts_nanos (si_last_access i)) (\<lambda>_. Inr ()))"

text \<open>The third-party functions; each text of an error they report is opaque.\<close>

record session_libs =
  b64_encode :: "blob \<Rightarrow> ustring"
  b64_decode :: "ustring \<Rightarrow> blob option"
  aead_encrypt :: "blob \<Rightarrow> blob \<Rightarrow> blob \<Rightarrow> blob option"
  aead_decrypt :: "blob \<Rightarrow> blob \<Rightarrow> blob \<Rightarrow> blob option"
  session_to_json :: "stored_session \<Rightarrow> blob option"
  session_of_json :: "blob \<Rightarrow> stored_session option"
  identity_to_json :: "stored_identity \<Rightarrow> blob option"
  identity_of_json :: "blob \<Rightarrow> stored_identity option"

definition lib_error :: ustring where "lib_error = lit ''library error''"

section \<open>The manager\<close>

definition duration_ns :: "nat \<Rightarrow> int" where
  "duration_ns d = min (int d) i64_max"

definition sm_now :: "int \<Rightarrow> session_error + (int \<times> ustring)" where
  "sm_now t =
     (if t < 0 then Inl (Malformed (lit ''second time provided was later than self''))
      else res_bind (timestamp t) (\<lambda>v. Inr (min t i128_max, v)))"

definition load_wrap_key ::
  "session_libs \<Rightarrow> 's keyring \<Rightarrow> ustring \<Rightarrow> 's \<Rightarrow> session_error + blob" where
  "load_wrap_key L K vault s =
     (case kr_get K s (session_key vault WRAP_KEY_ACCOUNT) of
        Inl NotFound \<Rightarrow> Inl WrapKeyMissing
      | Inl e \<Rightarrow> Inl e
      | Inr raw \<Rightarrow>
          if raw = [] then Inl WrapKeyMissing
          else (case Option.bind (utf8_decode raw) (b64_decode L) of
                  None \<Rightarrow> Inl (WrapKeyInvalid (lit ''not standard base64''))
                | Some decoded \<Rightarrow>
                    if length decoded = 32 then Inr decoded
                    else Inl (WrapKeyInvalid
                      (lit ''invalid length: got '' @ dec (length decoded) @ lit '', want 32''))))"

definition get_or_create_wrap_key ::
  "session_libs \<Rightarrow> 's keyring \<Rightarrow> ustring + blob \<Rightarrow> ustring \<Rightarrow> 's \<Rightarrow> (session_error + blob) \<times> 's" where
  "get_or_create_wrap_key L K rk vault s =
     (case load_wrap_key L K vault s of
        Inr key \<Rightarrow> (Inr key, s)
      | Inl _ \<Rightarrow>
          (case rk of
             Inl e \<Rightarrow> (Inl (Crypto e), s)
           | Inr raw \<Rightarrow>
               (case kr_set K s (session_key vault WRAP_KEY_ACCOUNT) (as_bytes (b64_encode L raw)) of
                  (Inl e, s') \<Rightarrow> (Inl e, s')
                | (Inr _, s') \<Rightarrow> (Inr raw, s'))))"

definition sm_encrypt ::
  "session_libs \<Rightarrow> 's keyring \<Rightarrow> ustring + blob \<Rightarrow> ustring + blob \<Rightarrow> ustring \<Rightarrow> blob \<Rightarrow> 's \<Rightarrow>
   (session_error + ustring \<times> ustring) \<times> 's" where
  "sm_encrypt L K rk rn vault value s =
     (case get_or_create_wrap_key L K rk vault s of
        (Inl e, s') \<Rightarrow> (Inl e, s')
      | (Inr key, s') \<Rightarrow>
          (case rn of
             Inl e \<Rightarrow> (Inl (Crypto e), s')
           | Inr nonce \<Rightarrow>
               (case aead_encrypt L key nonce value of
                  None \<Rightarrow> (Inl (Crypto lib_error), s')
                | Some c \<Rightarrow> (Inr (b64_encode L c, b64_encode L nonce), s'))))"

definition sm_decrypt ::
  "session_libs \<Rightarrow> 's keyring \<Rightarrow> ustring \<Rightarrow> ustring \<Rightarrow> ustring \<Rightarrow> 's \<Rightarrow> session_error + blob" where
  "sm_decrypt L K vault encrypted nonce s =
     res_bind (load_wrap_key L K vault s) (\<lambda>key.
       (case b64_decode L encrypted of
          None \<Rightarrow> Inl (Crypto (lit ''decode ciphertext: '' @ lib_error))
        | Some payload \<Rightarrow>
            (case b64_decode L nonce of
               None \<Rightarrow> Inl (Crypto (lit ''decode nonce: '' @ lib_error))
             | Some n \<Rightarrow>
                 if length n \<noteq> 12 then Inl (Crypto (lit ''nonce must be 12 bytes''))
                 else (case aead_decrypt L key n payload of
                         None \<Rightarrow> Inl (Crypto lib_error)
                       | Some v \<Rightarrow> Inr v))))"

definition put_session ::
  "session_libs \<Rightarrow> 's keyring \<Rightarrow> ustring \<Rightarrow> stored_session \<Rightarrow> 's \<Rightarrow> (session_error + unit) \<times> 's" where
  "put_session L K vault rec s =
     (case session_to_json L rec of
        None \<Rightarrow> (Inl (Malformed lib_error), s)
      | Some payload \<Rightarrow> kr_set K s (session_key vault SESSION_ACCOUNT) payload)"

definition put_identity ::
  "session_libs \<Rightarrow> 's keyring \<Rightarrow> ustring \<Rightarrow> stored_identity \<Rightarrow> 's \<Rightarrow> (session_error + unit) \<times> 's" where
  "put_identity L K vault rec s =
     (case identity_to_json L rec of
        None \<Rightarrow> (Inl (Malformed lib_error), s)
      | Some payload \<Rightarrow> kr_set K s (session_key vault IDENTITY_ACCOUNT) payload)"

definition save_passphrase ::
  "session_libs \<Rightarrow> 's keyring \<Rightarrow> int \<Rightarrow> ustring + blob \<Rightarrow> ustring + blob \<Rightarrow> ustring \<Rightarrow> blob \<Rightarrow> nat \<Rightarrow> nat \<Rightarrow> 's \<Rightarrow>
   (session_error + unit) \<times> 's" where
  "save_passphrase L K clock rk rn vault passphrase ttl mx s =
     (case sm_now clock of
        Inl e \<Rightarrow> (Inl e, s)
      | Inr (_, t) \<Rightarrow>
          (case sm_encrypt L K rk rn vault passphrase s of
             (Inl e, s') \<Rightarrow> (Inl e, s')
           | (Inr (e, n), s') \<Rightarrow>
               put_session L K vault
                 \<lparr>ss_saved_at = t, ss_last_access = t, ss_passphrase = None,
                  ss_encrypted_passphrase = Some e, ss_nonce = Some n,
                  ss_ttl_ns = duration_ns ttl, ss_max_lifetime_ns = duration_ns mx\<rparr> s'))"

definition session_metadata ::
  "session_libs \<Rightarrow> 's keyring \<Rightarrow> ustring \<Rightarrow> 's \<Rightarrow> session_error + stored_session option" where
  "session_metadata L K vault s =
     (case kr_get K s (session_key vault SESSION_ACCOUNT) of
        Inr raw \<Rightarrow>
          (case session_of_json L raw of
             None \<Rightarrow> Inl (Malformed lib_error)
           | Some rec \<Rightarrow> res_bind (session_validate rec) (\<lambda>_. Inr (Some rec)))
      | Inl NotFound \<Rightarrow> Inr None
      | Inl e \<Rightarrow> Inl e)"

definition save_identity ::
  "session_libs \<Rightarrow> 's keyring \<Rightarrow> int \<Rightarrow> ustring + blob \<Rightarrow> ustring + blob \<Rightarrow> ustring \<Rightarrow> blob \<Rightarrow> nat \<Rightarrow> nat \<Rightarrow> 's \<Rightarrow>
   (session_error + unit) \<times> 's" where
  "save_identity L K clock rk rn vault identity ttl mx s =
     (case sm_now clock of
        Inl e \<Rightarrow> (Inl e, s)
      | Inr (_, t) \<Rightarrow>
          (let (saved_at, ttl', mx') =
             (case session_metadata L K vault s of
                Inr (Some rec) \<Rightarrow>
                  (if is_go_zero (ss_saved_at rec) then t else ss_saved_at rec,
                   if 0 < ss_ttl_ns rec then ss_ttl_ns rec else duration_ns ttl,
                   if 0 < ss_max_lifetime_ns rec then ss_max_lifetime_ns rec else duration_ns mx)
              | _ \<Rightarrow> (t, duration_ns ttl, duration_ns mx))
           in (case sm_encrypt L K rk rn vault identity s of
                 (Inl e, s') \<Rightarrow> (Inl e, s')
               | (Inr (e, n), s') \<Rightarrow>
                   put_identity L K vault
                     \<lparr>si_saved_at = saved_at, si_last_access = t, si_encrypted_identity = e, si_nonce = n,
                      si_ttl_ns = ttl', si_max_lifetime_ns = mx'\<rparr> s')))"

definition sm_expired :: "int \<Rightarrow> int \<Rightarrow> int \<Rightarrow> int \<Rightarrow> int \<Rightarrow> bool" where
  "sm_expired saved la ttl mx now =
     (if ttl \<le> 0 \<or> saved = GO_ZERO_NANOS then True
      else (let la = (if la = GO_ZERO_NANOS then saved else la)
            in ttl < i128_sat_sub now la \<or>
               (if 0 < mx then mx else DEFAULT_MAX_LIFETIME) < i128_sat_sub now saved))"

definition clear_identity :: "'s keyring \<Rightarrow> ustring \<Rightarrow> 's \<Rightarrow> (session_error + unit) \<times> 's" where
  "clear_identity K vault s =
     (case kr_delete K s (session_key vault IDENTITY_ACCOUNT) of
        (Inr _, s') \<Rightarrow> (Inr (), s')
      | (Inl NotFound, s') \<Rightarrow> (Inr (), s')
      | (Inl e, s') \<Rightarrow> (Inl e, s'))"

definition revoke_session :: "'s keyring \<Rightarrow> ustring \<Rightarrow> 's \<Rightarrow> (session_error + unit) \<times> 's" where
  "revoke_session K vault s =
     (let rest = (\<lambda>s1. let s2 = snd (kr_delete K s1 (session_key vault WRAP_KEY_ACCOUNT));
                           s3 = snd (clear_identity K vault s2)
                       in (Inr (), s3))
      in case kr_delete K s (session_key vault SESSION_ACCOUNT) of
           (Inr _, s1) \<Rightarrow> rest s1
         | (Inl NotFound, s1) \<Rightarrow> rest s1
         | (Inl e, s1) \<Rightarrow> (Inl e, s1))"

definition nonempty :: "ustring option \<Rightarrow> ustring option" where
  "nonempty v = (case v of Some x \<Rightarrow> if x = [] then None else Some x | None \<Rightarrow> None)"

text \<open>The part of \<open>load_passphrase\<close> that reads and checks the record.\<close>

definition read_session ::
  "session_libs \<Rightarrow> 's keyring \<Rightarrow> int \<Rightarrow> ustring \<Rightarrow> 's \<Rightarrow>
   session_error + stored_session \<times> int \<times> ustring \<times> int \<times> int" where
  "read_session L K clock vault s =
     res_bind (kr_get K s (session_key vault SESSION_ACCOUNT)) (\<lambda>raw.
       case session_of_json L raw of None \<Rightarrow> Inl (Malformed lib_error) | Some rec \<Rightarrow>
       res_bind (session_validate rec) (\<lambda>_. res_bind (sm_now clock) (\<lambda>(now, t).
       if ss_ttl_ns rec \<le> 0 then Inl (Expired (lit ''TTL is zero or negative''))
       else res_bind (ts_nanos (ss_saved_at rec)) (\<lambda>saved. res_bind (ts_nanos (ss_last_access rec)) (\<lambda>la.
         Inr (rec, now, t, saved, la))))))"

definition load_passphrase ::
  "session_libs \<Rightarrow> 's keyring \<Rightarrow> int \<Rightarrow> ustring \<Rightarrow> 's \<Rightarrow> (session_error + blob) \<times> 's" where
  "load_passphrase L K clock vault s =
     (case read_session L K clock vault s of
        Inl e \<Rightarrow> (Inl e, s)
      | Inr (rec, now, t, saved, la) \<Rightarrow>
          if sm_expired saved la (ss_ttl_ns rec) (ss_max_lifetime_ns rec) now then
            (Inl (Expired (lit ''idle or maximum lifetime'')), snd (revoke_session K vault s))
          else if nonempty (ss_passphrase rec) \<noteq> None then (Inl LegacyPlaintext, s)
          else
            (case (nonempty (ss_encrypted_passphrase rec), nonempty (ss_nonce rec)) of
               (Some encrypted, Some nonce) \<Rightarrow>
                 (case sm_decrypt L K vault encrypted nonce s of
                    Inl e \<Rightarrow> (Inl e, s)
                  | Inr value \<Rightarrow>
                      (Inr value,
                       (case session_to_json L (rec\<lparr>ss_last_access := t\<rparr>) of
                          None \<Rightarrow> s
                        | Some payload \<Rightarrow> snd (kr_set K s (session_key vault SESSION_ACCOUNT) payload))))
             | _ \<Rightarrow> (Inl (Expired (lit ''no passphrase data available'')), s)))"

text \<open>The four numbers that decide expiry: those of the session when there is one.\<close>

definition expiry_inputs ::
  "stored_identity \<Rightarrow> stored_session option \<Rightarrow> session_error + int \<times> int \<times> int \<times> int" where
  "expiry_inputs i session =
     (case session of
        Some rec \<Rightarrow>
          res_bind (ts_nanos (ss_saved_at rec)) (\<lambda>sv. res_bind (ts_nanos (ss_last_access rec)) (\<lambda>la.
            Inr (sv, la, ss_ttl_ns rec, ss_max_lifetime_ns rec)))
      | None \<Rightarrow>
          res_bind (ts_nanos (si_saved_at i)) (\<lambda>sv. res_bind (ts_nanos (si_last_access i)) (\<lambda>la.
            Inr (sv, la, si_ttl_ns i, si_max_lifetime_ns i))))"

definition read_identity ::
  "session_libs \<Rightarrow> 's keyring \<Rightarrow> int \<Rightarrow> ustring \<Rightarrow> 's \<Rightarrow>
   session_error + stored_identity \<times> stored_session option \<times> (int \<times> int \<times> int \<times> int) \<times> int \<times> ustring" where
  "read_identity L K clock vault s =
     res_bind (kr_get K s (session_key vault IDENTITY_ACCOUNT)) (\<lambda>raw.
       case identity_of_json L raw of None \<Rightarrow> Inl (Malformed lib_error) | Some i \<Rightarrow>
       res_bind (identity_validate i) (\<lambda>_. res_bind (session_metadata L K vault s) (\<lambda>session.
       res_bind (expiry_inputs i session) (\<lambda>inputs. res_bind (sm_now clock) (\<lambda>(now, t).
         Inr (i, session, inputs, now, t))))))"

definition load_identity ::
  "session_libs \<Rightarrow> 's keyring \<Rightarrow> int \<Rightarrow> ustring \<Rightarrow> bool \<Rightarrow> 's \<Rightarrow> (session_error + blob) \<times> 's" where
  "load_identity L K clock vault refresh s =
     (case read_identity L K clock vault s of
        Inl e \<Rightarrow> (Inl e, s)
      | Inr (i, session, (saved, la, ttl, mx), now, t) \<Rightarrow>
          if ttl \<le> 0 then (Inl (Expired (lit ''TTL is zero or negative'')), s)
          else if sm_expired saved la ttl mx now then
            (Inl (Expired (lit ''idle or maximum lifetime'')),
             if refresh then snd (revoke_session K vault s) else s)
          else
            (case sm_decrypt L K vault (si_encrypted_identity i) (si_nonce i) s of
               Inl e \<Rightarrow> (Inl e, s)
             | Inr value \<Rightarrow>
                 if \<not> refresh then (Inr value, s)
                 else
                   (case identity_to_json L (i\<lparr>si_last_access := t\<rparr>) of
                      None \<Rightarrow> (Inl (Malformed lib_error), s)
                    | Some payload \<Rightarrow>
                        (case kr_set K s (session_key vault IDENTITY_ACCOUNT) payload of
                           (Inl _, s1) \<Rightarrow> (Inr value, s1)
                         | (Inr _, s1) \<Rightarrow>
                             (Inr value,
                              (case session of
                                 None \<Rightarrow> s1
                               | Some rec \<Rightarrow>
                                   (case session_to_json L (rec\<lparr>ss_last_access := t\<rparr>) of
                                      None \<Rightarrow> s1
                                    | Some payload' \<Rightarrow>
                                        snd (kr_set K s1 (session_key vault SESSION_ACCOUNT) payload'))))))))"

definition is_identity_expired :: "session_libs \<Rightarrow> 's keyring \<Rightarrow> int \<Rightarrow> ustring \<Rightarrow> 's \<Rightarrow> bool" where
  "is_identity_expired L K clock vault s =
     (case kr_get K s (session_key vault IDENTITY_ACCOUNT) of
        Inl _ \<Rightarrow> True
      | Inr raw \<Rightarrow>
          (case identity_of_json L raw of
             None \<Rightarrow> True
           | Some i \<Rightarrow>
               if si_ttl_ns i \<le> 0 \<or> si_encrypted_identity i = [] \<or> si_nonce i = [] then True
               else
                 (case session_metadata L K vault s of
                    Inl _ \<Rightarrow> True
                  | Inr session \<Rightarrow>
                      (case (sm_now clock, expiry_inputs i session) of
                         (Inr (now, _), Inr (saved, la, ttl, mx)) \<Rightarrow> sm_expired saved la ttl mx now
                       | _ \<Rightarrow> True))))"

definition is_session_expired :: "session_libs \<Rightarrow> 's keyring \<Rightarrow> int \<Rightarrow> ustring \<Rightarrow> 's \<Rightarrow> bool" where
  "is_session_expired L K clock vault s =
     (case kr_get K s (session_key vault SESSION_ACCOUNT) of
        Inl _ \<Rightarrow> True
      | Inr raw \<Rightarrow>
          (case session_of_json L raw of
             None \<Rightarrow> True
           | Some rec \<Rightarrow>
               (case (sm_now clock, ts_nanos (ss_saved_at rec), ts_nanos (ss_last_access rec)) of
                  (Inr (now, _), Inr saved, Inr la) \<Rightarrow>
                    sm_expired saved la (ss_ttl_ns rec) (ss_max_lifetime_ns rec) now
                | _ \<Rightarrow> True)))"

definition has_legacy_plaintext_session ::
  "session_libs \<Rightarrow> 's keyring \<Rightarrow> ustring \<Rightarrow> 's \<Rightarrow> session_error + bool" where
  "has_legacy_plaintext_session L K vault s =
     (case kr_get K s (session_key vault SESSION_ACCOUNT) of
        Inr raw \<Rightarrow>
          (case session_of_json L raw of
             None \<Rightarrow> Inl (Malformed lib_error)
           | Some rec \<Rightarrow> res_bind (session_validate rec) (\<lambda>_. Inr (nonempty (ss_passphrase rec) \<noteq> None)))
      | Inl NotFound \<Rightarrow> Inr False
      | Inl e \<Rightarrow> Inl e)"

definition migrate_session ::
  "session_libs \<Rightarrow> 's keyring \<Rightarrow> ustring + blob \<Rightarrow> ustring + blob \<Rightarrow> ustring \<Rightarrow> 's \<Rightarrow>
   (session_error + bool) \<times> 's" where
  "migrate_session L K rk rn vault s =
     (case kr_get K s (session_key vault SESSION_ACCOUNT) of
        Inl NotFound \<Rightarrow> (Inr False, s)
      | Inl e \<Rightarrow> (Inl e, s)
      | Inr raw \<Rightarrow>
          (case session_of_json L raw of
             None \<Rightarrow> (Inl (Malformed lib_error), s)
           | Some rec \<Rightarrow>
               (case session_validate rec of
                  Inl e \<Rightarrow> (Inl e, s)
                | Inr _ \<Rightarrow>
                    (case nonempty (ss_passphrase rec) of
                       None \<Rightarrow> (Inr False, s)
                     | Some plaintext \<Rightarrow>
                         (case sm_encrypt L K rk rn vault (as_bytes plaintext) s of
                            (Inl e, s') \<Rightarrow> (Inl e, s')
                          | (Inr (e, n), s') \<Rightarrow>
                              (case put_session L K vault
                                 (rec\<lparr>ss_encrypted_passphrase := Some e, ss_nonce := Some n,
                                      ss_max_lifetime_ns :=
                                        (if ss_max_lifetime_ns rec \<le> 0
                                         then duration_ns (nat DEFAULT_MAX_LIFETIME)
                                         else ss_max_lifetime_ns rec),
                                      ss_passphrase := None\<rparr>) s' of
                                 (Inl err, s'') \<Rightarrow> (Inl err, s'')
                               | (Inr _, s'') \<Rightarrow> (Inr True, s'')))))))"

section \<open>The keyring contract\<close>

text \<open>
  What the manager relies on: a successful write or delete is seen by later reads of that key and
  of no other, a failed one changes nothing. A keyring that is up never fails.
\<close>

locale lawful_keyring =
  fixes K :: "'s keyring"
  assumes set_ok: "kr_set K s k v = (Inr u, s') \<Longrightarrow> kr_get K s' k' = (if k' = k then Inr v else kr_get K s k')"
    and set_err: "kr_set K s k v = (Inl e, s') \<Longrightarrow> kr_get K s' k' = kr_get K s k'"
    and delete_ok: "kr_delete K s k = (Inr u, s') \<Longrightarrow> kr_get K s' k' = (if k' = k then Inl NotFound else kr_get K s k')"
    and delete_err: "kr_delete K s k = (Inl e, s') \<Longrightarrow> kr_get K s' k' = kr_get K s k'"
begin

lemma set_get:
  "kr_get K (snd (kr_set K s k v)) k' = kr_get K s k' \<or> kr_get K (snd (kr_set K s k v)) k' = Inr v \<and> k' = k"
  using set_ok [of s k v] set_err [of s k v]
  by (cases "kr_set K s k v"; cases "fst (kr_set K s k v)") (auto split: if_splits)

lemma delete_get:
  "kr_get K (snd (kr_delete K s k)) k' = kr_get K s k' \<or> kr_get K (snd (kr_delete K s k)) k' = Inl NotFound \<and> k' = k"
  using delete_ok [of s k] delete_err [of s k]
  by (cases "kr_delete K s k"; cases "fst (kr_delete K s k)") (auto split: if_splits)

lemma clear_identity_state: "snd (clear_identity K vault s) = snd (kr_delete K s (session_key vault IDENTITY_ACCOUNT))"
  by (auto simp: clear_identity_def split: prod.splits sum.splits session_error.splits)

end

locale available_keyring = lawful_keyring K for K :: "'s keyring" +
  fixes up :: "'s \<Rightarrow> bool"
  assumes set_up: "up s \<Longrightarrow> \<exists>s'. kr_set K s k v = (Inr (), s') \<and> up s'"
    and delete_up: "up s \<Longrightarrow> \<exists>s'. kr_delete K s k = (Inr (), s') \<and> up s'"
    and get_up: "up s \<Longrightarrow> kr_get K s k = Inl e \<Longrightarrow> e = NotFound"
begin

lemma set_upE:
  assumes "up s"
  obtains s' where "kr_set K s k v = (Inr (), s')" "up s'"
    "\<And>k'. kr_get K s' k' = (if k' = k then Inr v else kr_get K s k')"
  using set_up [OF assms, of k v] set_ok [of s k v] by blast

lemma revoke_wipes:
  assumes "up s"
  obtains s' where "revoke_session K vault s = (Inr (), s')" "up s'"
    "\<And>k. kr_get K s' k =
       (if k \<in> {session_key vault SESSION_ACCOUNT, session_key vault WRAP_KEY_ACCOUNT, session_key vault IDENTITY_ACCOUNT}
        then Inl NotFound else kr_get K s k)"
proof -
  obtain s1 where s1: "kr_delete K s (session_key vault SESSION_ACCOUNT) = (Inr (), s1)" "up s1"
    using delete_up [OF assms] by blast
  obtain s2 where s2: "kr_delete K s1 (session_key vault WRAP_KEY_ACCOUNT) = (Inr (), s2)" "up s2"
    using delete_up [OF s1(2)] by blast
  obtain s3 where s3: "kr_delete K s2 (session_key vault IDENTITY_ACCOUNT) = (Inr (), s3)" "up s3"
    using delete_up [OF s2(2)] by blast
  have "revoke_session K vault s = (Inr (), s3)"
    using s1 s2 s3 by (simp add: revoke_session_def clear_identity_state)
  then show thesis
    by (rule that) (use s3(2) delete_ok [OF s1(1)] delete_ok [OF s2(1)] delete_ok [OF s3(1)] in auto)
qed

end

interpretation mem: available_keyring memory_keyring "\<lambda>s. \<not> poisoned s"
  by unfold_locales (auto simp: memory_keyring_def split: if_splits option.splits)

interpretation native: lawful_keyring native_keyring
  by unfold_locales (auto simp: native_keyring_def)

section \<open>Library laws\<close>

text \<open>
  Documented behaviour of the crates the manager calls: base64 text is ASCII, empty only for empty
  input, and decodes back; AES-256-GCM with a 32-byte key and a 12-byte nonce encrypts any input
  below its limit to a non-empty text that decrypts back; the JSON of a stored record decodes back.
\<close>

definition libs_ok :: "session_libs \<Rightarrow> bool" where
  "libs_ok L \<longleftrightarrow>
     (\<forall>b. b64_decode L (b64_encode L b) = Some b \<and> (\<forall>c \<in> set (b64_encode L b). c < 128) \<and>
        (b64_encode L b = [] \<longrightarrow> b = [])) \<and>
     (\<forall>k n v. length k = 32 \<longrightarrow> length n = 12 \<longrightarrow> length v \<le> 2 ^ 36 - 32 \<longrightarrow>
        (\<exists>c. aead_encrypt L k n v = Some c \<and> c \<noteq> [] \<and> aead_decrypt L k n c = Some v)) \<and>
     (\<forall>r. \<exists>p. session_to_json L r = Some p \<and> session_of_json L p = Some r) \<and>
     (\<forall>r. \<exists>p. identity_to_json L r = Some p \<and> identity_of_json L p = Some r)"

lemma libs_b64:
  assumes "libs_ok L"
  shows "b64_decode L (b64_encode L b) = Some b" "utf8_decode (as_bytes (b64_encode L b)) = Some (b64_encode L b)"
    "b64_encode L b = [] \<Longrightarrow> b = []"
proof -
  have b: "b64_decode L (b64_encode L b) = Some b \<and> (\<forall>c \<in> set (b64_encode L b). c < 128) \<and>
      (b64_encode L b = [] \<longrightarrow> b = [])"
    using assms unfolding libs_ok_def by (elim conjE) (drule spec, assumption)
  then show "b64_decode L (b64_encode L b) = Some b" "b64_encode L b = [] \<Longrightarrow> b = []" by auto
  from b show "utf8_decode (as_bytes (b64_encode L b)) = Some (b64_encode L b)"
    by (simp add: as_bytes_ascii utf8_decode_ascii)
qed

lemma libs_aead:
  assumes "libs_ok L" "length k = 32" "length n = 12" "length v \<le> 2 ^ 36 - 32"
  obtains c where "aead_encrypt L k n v = Some c" "c \<noteq> []" "aead_decrypt L k n c = Some v"
  using assms unfolding libs_ok_def by blast

lemma libs_json:
  assumes "libs_ok L"
  obtains p where "session_to_json L r = Some p" "session_of_json L p = Some r"
  using assms unfolding libs_ok_def by blast

lemma libs_json_identity:
  assumes "libs_ok L"
  obtains p where "identity_to_json L r = Some p" "identity_of_json L p = Some r"
  using assms unfolding libs_ok_def by blast

lemma session_key_inj:
  assumes "124 \<notin> set a" "124 \<notin> set a'" "session_key v a = session_key v' a'"
  shows "v = v' \<and> a = a'"
proof -
  have k: "rsplit_once 124 (session_key w b) = Some (lit ''symvault:'' @ w, b)" if "124 \<notin> set b" for w b
    using that unfolding rsplit_once_Some_iff session_key_def by simp
  show ?thesis using k [OF assms(1), of v] k [OF assms(2), of v'] unfolding assms(3) by simp
qed

lemma accounts [simp]:
  "124 \<notin> set SESSION_ACCOUNT" "124 \<notin> set IDENTITY_ACCOUNT" "124 \<notin> set WRAP_KEY_ACCOUNT"
  "SESSION_ACCOUNT \<noteq> IDENTITY_ACCOUNT" "SESSION_ACCOUNT \<noteq> WRAP_KEY_ACCOUNT" "IDENTITY_ACCOUNT \<noteq> WRAP_KEY_ACCOUNT"
  by (simp_all add: SESSION_ACCOUNT_def IDENTITY_ACCOUNT_def WRAP_KEY_ACCOUNT_def)

lemma session_key_eq [simp]:
  "session_key v SESSION_ACCOUNT = session_key w SESSION_ACCOUNT \<longleftrightarrow> v = w"
  "session_key v WRAP_KEY_ACCOUNT = session_key w WRAP_KEY_ACCOUNT \<longleftrightarrow> v = w"
  "session_key v IDENTITY_ACCOUNT = session_key w IDENTITY_ACCOUNT \<longleftrightarrow> v = w"
  "session_key v SESSION_ACCOUNT \<noteq> session_key w IDENTITY_ACCOUNT"
  "session_key v SESSION_ACCOUNT \<noteq> session_key w WRAP_KEY_ACCOUNT"
  "session_key v IDENTITY_ACCOUNT \<noteq> session_key w WRAP_KEY_ACCOUNT"
  "session_key v IDENTITY_ACCOUNT \<noteq> session_key w SESSION_ACCOUNT"
  "session_key v WRAP_KEY_ACCOUNT \<noteq> session_key w SESSION_ACCOUNT"
  "session_key v WRAP_KEY_ACCOUNT \<noteq> session_key w IDENTITY_ACCOUNT"
  using session_key_inj accounts by metis+

section \<open>Saving and loading under the contract\<close>

text \<open>The record the session account of a vault holds.\<close>

definition holds :: "session_libs \<Rightarrow> 's keyring \<Rightarrow> ustring \<Rightarrow> 's \<Rightarrow> stored_session \<Rightarrow> bool" where
  "holds L K vault s rec \<longleftrightarrow>
     (\<exists>raw. kr_get K s (session_key vault SESSION_ACCOUNT) = Inr raw \<and> session_of_json L raw = Some rec)"

lemma load_wrap_key_cong:
  "kr_get K s (session_key vault WRAP_KEY_ACCOUNT) = kr_get K s' (session_key vault WRAP_KEY_ACCOUNT) \<Longrightarrow>
   load_wrap_key L K vault s = load_wrap_key L K vault s'"
  by (simp add: load_wrap_key_def)

lemma load_wrap_key_length: "load_wrap_key L K vault s = Inr key \<Longrightarrow> length key = 32"
  by (auto simp: load_wrap_key_def split: sum.splits session_error.splits option.splits if_splits)

lemma load_wrap_key_stored:
  assumes "libs_ok L" "length raw = 32"
    and "kr_get K s (session_key vault WRAP_KEY_ACCOUNT) = Inr (as_bytes (b64_encode L raw))"
  shows "load_wrap_key L K vault s = Inr raw"
proof -
  have "b64_encode L raw \<noteq> []" using libs_b64(3) [OF assms(1), of raw] assms(2) by auto
  then have "as_bytes (b64_encode L raw) \<noteq> []"
    using length_as_bytes [of "b64_encode L raw"] by (metis length_0_conv str_len_0)
  with assms(2,3) libs_b64 [OF assms(1)] show ?thesis by (simp add: load_wrap_key_def)
qed

lemma sm_decrypt_encrypted:
  assumes "libs_ok L" "load_wrap_key L K vault s = Inr key" "length n = 12" "aead_decrypt L key n c = Some v"
  shows "sm_decrypt L K vault (b64_encode L c) (b64_encode L n) s = Inr v"
  using assms by (simp add: sm_decrypt_def libs_b64)

lemma sm_now_ok: "0 \<le> t \<Longrightarrow> t \<le> i128_max \<Longrightarrow> sm_now t = Inr (t, stamp_text t)"
  by (simp add: sm_now_def timestamp_stamp_text)

lemma stamp_range_now: "stamp_range t \<Longrightarrow> sm_now t = Inr (t, stamp_text t)"
  by (rule sm_now_ok) (auto simp: stamp_range_def)

lemma ts_nanos_stamp: "stamp_range t \<Longrightarrow> ts_nanos (stamp_text t) = Inr t"
  by (simp add: ts_nanos_def stamp.dec_enc)

text \<open>A record is ready when its passphrase is encrypted under the wrap key of the vault.\<close>

definition ready :: "session_libs \<Rightarrow> 's keyring \<Rightarrow> ustring \<Rightarrow> 's \<Rightarrow> stored_session \<Rightarrow> blob \<Rightarrow> bool" where
  "ready L K vault s rec v \<longleftrightarrow> nonempty (ss_passphrase rec) = None \<and>
     (\<exists>e n. ss_encrypted_passphrase rec = Some e \<and> ss_nonce rec = Some n \<and> e \<noteq> [] \<and> n \<noteq> [] \<and>
        sm_decrypt L K vault e n s = Inr v)"

context available_keyring
begin

lemma get_or_create_wrap_key_ok:
  assumes "up s" "libs_ok L" "length raw = 32"
  obtains key s' where "get_or_create_wrap_key L K (Inr raw) vault s = (Inr key, s')" "up s'"
    "length key = 32" "load_wrap_key L K vault s' = Inr key"
    "\<And>k. k \<noteq> session_key vault WRAP_KEY_ACCOUNT \<Longrightarrow> kr_get K s' k = kr_get K s k"
proof (cases "load_wrap_key L K vault s")
  case (Inr key)
  then show thesis
    using assms(1) load_wrap_key_length [OF Inr] by (intro that) (auto simp: get_or_create_wrap_key_def)
next
  case (Inl e)
  obtain s' where s': "kr_set K s (session_key vault WRAP_KEY_ACCOUNT) (as_bytes (b64_encode L raw)) = (Inr (), s')" "up s'"
      "\<And>k'. kr_get K s' k' = (if k' = session_key vault WRAP_KEY_ACCOUNT then Inr (as_bytes (b64_encode L raw)) else kr_get K s k')"
    using set_upE [OF assms(1)] by metis
  have "load_wrap_key L K vault s' = Inr raw"
    by (rule load_wrap_key_stored [OF assms(2,3)]) (simp add: s'(3))
  with Inl s' assms(3) show thesis by (intro that [of raw s']) (auto simp: get_or_create_wrap_key_def)
qed

lemma sm_encrypt_ok:
  assumes "up s" "libs_ok L" "length raw = 32" "length n = 12" "length v \<le> 2 ^ 36 - 32"
  obtains e e_n s' where "sm_encrypt L K (Inr raw) (Inr n) vault v s = (Inr (e, e_n), s')" "up s'"
    "e \<noteq> []" "e_n \<noteq> []"
    "\<And>k. k \<noteq> session_key vault WRAP_KEY_ACCOUNT \<Longrightarrow> kr_get K s' k = kr_get K s k"
    "\<And>s''. kr_get K s'' (session_key vault WRAP_KEY_ACCOUNT) = kr_get K s' (session_key vault WRAP_KEY_ACCOUNT) \<Longrightarrow>
       sm_decrypt L K vault e e_n s'' = Inr v"
proof -
  obtain key s' where k: "get_or_create_wrap_key L K (Inr raw) vault s = (Inr key, s')" "up s'"
      "length key = 32" "load_wrap_key L K vault s' = Inr key"
      "\<And>k. k \<noteq> session_key vault WRAP_KEY_ACCOUNT \<Longrightarrow> kr_get K s' k = kr_get K s k"
    using get_or_create_wrap_key_ok [OF assms(1-3)] by metis
  obtain c where c: "aead_encrypt L key n v = Some c" "c \<noteq> []" "aead_decrypt L key n c = Some v"
    using libs_aead [OF assms(2) k(3) assms(4,5)] by blast
  show thesis
  proof (rule that [of "b64_encode L c" "b64_encode L n" s'])
    show "sm_encrypt L K (Inr raw) (Inr n) vault v s = (Inr (b64_encode L c, b64_encode L n), s')"
      using k(1) c(1) by (simp add: sm_encrypt_def)
    show "b64_encode L c \<noteq> []" "b64_encode L n \<noteq> []"
      using libs_b64(3) [OF assms(2)] c(2) assms(4) by fastforce+
    show "sm_decrypt L K vault (b64_encode L c) (b64_encode L n) s'' = Inr v"
      if "kr_get K s'' (session_key vault WRAP_KEY_ACCOUNT) = kr_get K s' (session_key vault WRAP_KEY_ACCOUNT)" for s''
      by (rule sm_decrypt_encrypted [OF assms(2) _ assms(4) c(3)]) (use load_wrap_key_cong [OF that] k(4) in simp)
  qed (use k(2,5) in auto)
qed

lemma put_session_ok:
  assumes "up s" "libs_ok L"
  obtains s' where "put_session L K vault rec s = (Inr (), s')" "up s'" "holds L K vault s' rec"
    "\<And>k. k \<noteq> session_key vault SESSION_ACCOUNT \<Longrightarrow> kr_get K s' k = kr_get K s k"
proof -
  obtain p where p: "session_to_json L rec = Some p" "session_of_json L p = Some rec"
    using libs_json [OF assms(2)] .
  obtain s' where "kr_set K s (session_key vault SESSION_ACCOUNT) p = (Inr (), s')" "up s'"
      "\<And>k'. kr_get K s' k' = (if k' = session_key vault SESSION_ACCOUNT then Inr p else kr_get K s k')"
    using set_upE [OF assms(1)] by metis
  with p show thesis by (intro that [of s']) (auto simp: put_session_def holds_def)
qed

lemma save_passphrase_ok:
  assumes "up s" "libs_ok L" "length raw = 32" "length n = 12" "length v \<le> 2 ^ 36 - 32" "stamp_range t"
  obtains s' rec where "save_passphrase L K t (Inr raw) (Inr n) vault v ttl mx s = (Inr (), s')" "up s'"
    "holds L K vault s' rec" "ready L K vault s' rec v" "ss_passphrase rec = None"
    "ss_saved_at rec = stamp_text t" "ss_last_access rec = stamp_text t"
    "ss_ttl_ns rec = duration_ns ttl" "ss_max_lifetime_ns rec = duration_ns mx"
proof -
  obtain e e_n s1 where e: "sm_encrypt L K (Inr raw) (Inr n) vault v s = (Inr (e, e_n), s1)" "up s1" "e \<noteq> []" "e_n \<noteq> []"
    and dec: "\<And>s''. kr_get K s'' (session_key vault WRAP_KEY_ACCOUNT) = kr_get K s1 (session_key vault WRAP_KEY_ACCOUNT) \<Longrightarrow>
       sm_decrypt L K vault e e_n s'' = Inr v"
    using sm_encrypt_ok [OF assms(1-5)] by metis
  define rec where "rec = \<lparr>ss_saved_at = stamp_text t, ss_last_access = stamp_text t, ss_passphrase = None,
    ss_encrypted_passphrase = Some e, ss_nonce = Some e_n, ss_ttl_ns = duration_ns ttl, ss_max_lifetime_ns = duration_ns mx\<rparr>"
  obtain s' where p: "put_session L K vault rec s1 = (Inr (), s')" "up s'" "holds L K vault s' rec"
      "\<And>k. k \<noteq> session_key vault SESSION_ACCOUNT \<Longrightarrow> kr_get K s' k = kr_get K s1 k"
    using put_session_ok [OF e(2) assms(2)] by metis
  show thesis
    by (rule that [of s' rec])
      (use e p dec [OF p(4)] stamp_range_now [OF assms(6)] in
        \<open>simp_all add: save_passphrase_def rec_def ready_def nonempty_def\<close>)
qed

end

definition lifetime :: "int \<Rightarrow> int" where
  "lifetime mx = (if 0 < mx then mx else DEFAULT_MAX_LIFETIME)"

lemma sm_expired_iff:
  assumes "stamp_range saved" "stamp_range la" "stamp_range now"
  shows "sm_expired saved la ttl mx now \<longleftrightarrow> ttl \<le> 0 \<or> ttl < now - la \<or> lifetime mx < now - saved"
proof -
  have "i128_sat_sub now x = now - x" if "stamp_range x" for x
    using that assms(3) by (simp add: i128_sat_sub_def stamp_range_def)
  moreover have "saved \<noteq> GO_ZERO_NANOS" "la \<noteq> GO_ZERO_NANOS"
    using assms by (auto simp: stamp_range_def GO_ZERO_NANOS_def)
  ultimately show ?thesis using assms(1,2) by (simp add: sm_expired_def lifetime_def Let_def)
qed

lemma load_passphrase_cases:
  assumes "holds L K vault s rec" "ts_nanos (ss_saved_at rec) = Inr sv" "ts_nanos (ss_last_access rec) = Inr la"
    and "sm_now t = Inr (now, tx)" "0 < ss_ttl_ns rec"
  shows "load_passphrase L K t vault s =
    (if sm_expired sv la (ss_ttl_ns rec) (ss_max_lifetime_ns rec) now
     then (Inl (Expired (lit ''idle or maximum lifetime'')), snd (revoke_session K vault s))
     else if nonempty (ss_passphrase rec) \<noteq> None then (Inl LegacyPlaintext, s)
     else (case (nonempty (ss_encrypted_passphrase rec), nonempty (ss_nonce rec)) of
             (Some encrypted, Some nonce) \<Rightarrow>
               (case sm_decrypt L K vault encrypted nonce s of
                  Inl e \<Rightarrow> (Inl e, s)
                | Inr value \<Rightarrow>
                    (Inr value,
                     (case session_to_json L (rec\<lparr>ss_last_access := tx\<rparr>) of
                        None \<Rightarrow> s
                      | Some payload \<Rightarrow> snd (kr_set K s (session_key vault SESSION_ACCOUNT) payload))))
           | _ \<Rightarrow> (Inl (Expired (lit ''no passphrase data available'')), s)))"
  using assms by (auto simp: load_passphrase_def read_session_def holds_def session_validate_def)

lemma load_ready:
  assumes "holds L K vault s rec" "ts_nanos (ss_saved_at rec) = Inr sv" "ts_nanos (ss_last_access rec) = Inr la"
    and "sm_now t = Inr (now, tx)" "0 < ss_ttl_ns rec"
    and "\<not> sm_expired sv la (ss_ttl_ns rec) (ss_max_lifetime_ns rec) now" "ready L K vault s rec v"
  shows "fst (load_passphrase L K t vault s) = Inr v"
  unfolding load_passphrase_cases [OF assms(1-5)] using assms(6,7) by (auto simp: ready_def nonempty_def)

lemma duration_ns_pos [simp]: "0 < duration_ns d \<longleftrightarrow> 0 < d" "duration_ns d \<le> 0 \<longleftrightarrow> d = 0"
  by (auto simp: duration_ns_def min_def)

section \<open>Sequences of operations\<close>

datatype session_op =
    LoadPassphrase int ustring
  | LoadIdentity int ustring bool
  | SaveIdentity int "ustring + blob" "ustring + blob" ustring blob nat nat
  | Revoke ustring
  | ClearIdentity ustring

fun session_apply :: "session_libs \<Rightarrow> 's keyring \<Rightarrow> session_op \<Rightarrow> 's \<Rightarrow> 's" where
  "session_apply L K (LoadPassphrase t v) s = snd (load_passphrase L K t v s)"
| "session_apply L K (LoadIdentity t v refresh) s = snd (load_identity L K t v refresh s)"
| "session_apply L K (SaveIdentity t rk rn v i ttl mx) s = snd (save_identity L K t rk rn v i ttl mx s)"
| "session_apply L K (Revoke v) s = snd (revoke_session K v s)"
| "session_apply L K (ClearIdentity v) s = snd (clear_identity K v s)"

definition session_inv :: "session_libs \<Rightarrow> 's keyring \<Rightarrow> ustring \<Rightarrow> ustring \<Rightarrow> int \<Rightarrow> 's \<Rightarrow> bool" where
  "session_inv L K vault saved mx s \<longleftrightarrow>
     (\<forall>rec. holds L K vault s rec \<longrightarrow> ss_saved_at rec = saved \<and> ss_max_lifetime_ns rec = mx)"

lemma libs_json_back: "libs_ok L \<Longrightarrow> session_to_json L r = Some p \<Longrightarrow> session_of_json L p = Some r"
  by (metis libs_json option.inject)

context lawful_keyring
begin

lemma session_inv_get:
  assumes "session_inv L K vault saved mx s"
    and "kr_get K s' (session_key vault SESSION_ACCOUNT) = kr_get K s (session_key vault SESSION_ACCOUNT) \<or>
      kr_get K s' (session_key vault SESSION_ACCOUNT) = Inl NotFound"
  shows "session_inv L K vault saved mx s'"
  using assms by (auto simp: session_inv_def holds_def)

lemma session_inv_set_other:
  assumes "session_inv L K vault saved mx s" "k \<noteq> session_key vault SESSION_ACCOUNT"
  shows "session_inv L K vault saved mx (snd (kr_set K s k v))"
  using assms set_get [of s k v "session_key vault SESSION_ACCOUNT"] by (intro session_inv_get [OF assms(1)]) auto

lemma session_inv_delete:
  assumes "session_inv L K vault saved mx s"
  shows "session_inv L K vault saved mx (snd (kr_delete K s k))"
  using delete_get [of s k "session_key vault SESSION_ACCOUNT"] by (intro session_inv_get [OF assms]) auto

lemma session_inv_touch:
  assumes "session_inv L K vault saved mx s" "libs_ok L" "holds L K v s rec \<or> v \<noteq> vault"
    and "session_to_json L (rec\<lparr>ss_last_access := t\<rparr>) = Some p"
    and "session_inv L K vault saved mx s1"
  shows "session_inv L K vault saved mx (snd (kr_set K s1 (session_key v SESSION_ACCOUNT) p))"
proof (cases "v = vault")
  case True
  have "ss_saved_at rec = saved \<and> ss_max_lifetime_ns rec = mx"
    using assms(1,3) True by (simp add: session_inv_def)
  then show ?thesis
    using set_get [of s1 "session_key v SESSION_ACCOUNT" p "session_key vault SESSION_ACCOUNT"] assms(5)
      libs_json_back [OF assms(2,4)] True by (auto simp: session_inv_def holds_def)
qed (simp add: session_inv_set_other [OF assms(5)])

lemma session_inv_revoke:
  assumes "session_inv L K vault saved mx s"
  shows "session_inv L K vault saved mx (snd (revoke_session K v s))"
proof -
  note d = session_inv_delete
  have "session_inv L K vault saved mx s1" if "kr_delete K s k = (r, s1)" for k r s1
    using d [OF assms, of k] that by simp
  then show ?thesis
    by (auto simp: revoke_session_def Let_def clear_identity_state intro!: d split: prod.splits sum.splits session_error.splits)
qed

lemma session_inv_encrypt:
  assumes "session_inv L K vault saved mx s"
  shows "session_inv L K vault saved mx (snd (sm_encrypt L K rk rn v x s))"
proof -
  have "session_inv L K vault saved mx (snd (get_or_create_wrap_key L K rk v s))"
    using session_inv_set_other [OF assms, of "session_key v WRAP_KEY_ACCOUNT"] assms
    by (auto simp: get_or_create_wrap_key_def split: sum.splits prod.splits) (metis snd_conv)+
  then show ?thesis
    by (auto simp: sm_encrypt_def split: prod.splits sum.splits option.splits)
qed

end

lemma load_passphrase_state:
  obtains (same) "snd (load_passphrase L K t v s) = s"
  | (wiped) "snd (load_passphrase L K t v s) = snd (revoke_session K v s)"
  | (touched) rec tx p where "holds L K v s rec" "session_to_json L (rec\<lparr>ss_last_access := tx\<rparr>) = Some p"
      "snd (load_passphrase L K t v s) = snd (kr_set K s (session_key v SESSION_ACCOUNT) p)"
proof (cases "read_session L K t v s")
  case (Inr x)
  obtain rec now tx saved la where x: "x = (rec, now, tx, saved, la)" by (cases x)
  have h: "holds L K v s rec"
    using Inr x by (auto simp: read_session_def holds_def res_bind_Inr_iff split: option.splits if_splits)
  have "snd (load_passphrase L K t v s) = s \<or> snd (load_passphrase L K t v s) = snd (revoke_session K v s) \<or>
      (\<exists>p. session_to_json L (rec\<lparr>ss_last_access := tx\<rparr>) = Some p \<and>
        snd (load_passphrase L K t v s) = snd (kr_set K s (session_key v SESSION_ACCOUNT) p))"
    using Inr x by (auto simp: load_passphrase_def split: sum.splits option.splits)
  with that h show thesis by blast
qed (use that in \<open>simp add: load_passphrase_def\<close>)

lemma session_metadata_holds: "session_metadata L K v s = Inr (Some rec) \<Longrightarrow> holds L K v s rec"
  by (auto simp: session_metadata_def holds_def res_bind_Inr_iff split: sum.splits option.splits session_error.splits)

lemma load_identity_state:
  obtains (same) "snd (load_identity L K t v refresh s) = s"
  | (wiped) "snd (load_identity L K t v refresh s) = snd (revoke_session K v s)"
  | (renewed) p where "snd (load_identity L K t v refresh s) = snd (kr_set K s (session_key v IDENTITY_ACCOUNT) p)"
  | (touched) p rec tx q where "holds L K v s rec" "session_to_json L (rec\<lparr>ss_last_access := tx\<rparr>) = Some q"
      "snd (load_identity L K t v refresh s) =
         snd (kr_set K (snd (kr_set K s (session_key v IDENTITY_ACCOUNT) p)) (session_key v SESSION_ACCOUNT) q)"
proof (cases "read_identity L K t v s")
  case (Inr x)
  obtain i session saved la ttl mx now tx where x: "x = (i, session, (saved, la, ttl, mx), now, tx)" by (cases x) auto
  have h: "session_metadata L K v s = Inr session"
    using Inr x by (auto simp: read_identity_def res_bind_Inr_iff split: option.splits if_splits)
  have "snd (load_identity L K t v refresh s) = s \<or> snd (load_identity L K t v refresh s) = snd (revoke_session K v s) \<or>
      (\<exists>p. snd (load_identity L K t v refresh s) = snd (kr_set K s (session_key v IDENTITY_ACCOUNT) p) \<or>
        (\<exists>rec q. session = Some rec \<and> session_to_json L (rec\<lparr>ss_last_access := tx\<rparr>) = Some q \<and>
          snd (load_identity L K t v refresh s) =
            snd (kr_set K (snd (kr_set K s (session_key v IDENTITY_ACCOUNT) p)) (session_key v SESSION_ACCOUNT) q)))"
    using Inr x by (auto simp: load_identity_def split: sum.splits option.splits prod.splits) (metis snd_conv)+
  with that h session_metadata_holds [of L K v s] show thesis by metis
qed (use that in \<open>simp add: load_identity_def\<close>)

context lawful_keyring
begin

lemma session_inv_apply:
  assumes "session_inv L K vault saved mx s" "libs_ok L"
  shows "session_inv L K vault saved mx (session_apply L K op s)"
proof (cases op)
  case (LoadPassphrase t v)
  show ?thesis
  proof (cases rule: load_passphrase_state [of L K t v s])
    case (touched rec tx p)
    then show ?thesis using session_inv_touch [OF assms _ touched(2) assms(1)] LoadPassphrase by simp
  qed (use assms LoadPassphrase session_inv_revoke in auto)
next
  case (LoadIdentity t v refresh)
  show ?thesis
  proof (cases rule: load_identity_state [of L K t v refresh s])
    case (touched p rec tx q)
    have "session_inv L K vault saved mx (snd (kr_set K s (session_key v IDENTITY_ACCOUNT) p))"
      by (rule session_inv_set_other [OF assms(1)]) simp
    then show ?thesis using session_inv_touch [OF assms _ touched(2)] touched LoadIdentity by simp
  next
    case (renewed p)
    then show ?thesis using session_inv_set_other [OF assms(1)] LoadIdentity by simp
  qed (use assms LoadIdentity session_inv_revoke in auto)
next
  case (SaveIdentity t rk rn v i ttl mx')
  have e: "session_inv L K vault saved mx (snd (sm_encrypt L K rk rn v i s))"
    by (rule session_inv_encrypt [OF assms(1)])
  have "session_inv L K vault saved mx (snd (put_identity L K v rec s1))"
    if "session_inv L K vault saved mx s1" for rec s1
    using that session_inv_set_other [OF that] by (auto simp: put_identity_def split: option.splits)
  then show ?thesis using e assms(1) SaveIdentity
    by (auto simp: save_identity_def Let_def split: sum.splits prod.splits)
qed (use assms session_inv_revoke session_inv_delete in \<open>auto simp: clear_identity_state\<close>)

end

text \<open>A session saved at \<open>t0\<close>, and the machine of all operations on the in-memory keyring.\<close>

definition saved_session :: "session_libs \<Rightarrow> ustring \<Rightarrow> int \<Rightarrow> nat \<Rightarrow> memory_state \<Rightarrow> bool" where
  "saved_session L vault t0 mx s \<longleftrightarrow> libs_ok L \<and> stamp_range t0 \<and>
     (\<exists>s0 raw n v ttl. \<not> poisoned s0 \<and> length raw = 32 \<and> length n = 12 \<and> length v \<le> 2 ^ 36 - 32 \<and>
        s = snd (save_passphrase L memory_keyring t0 (Inr raw) (Inr n) vault v ttl mx s0))"

definition session_step :: "session_libs \<Rightarrow> memory_state \<Rightarrow> memory_state \<Rightarrow> bool" where
  "session_step L s s' \<longleftrightarrow> libs_ok L \<and> (\<exists>op. s' = session_apply L memory_keyring op s)"

lemma saved_session_inv:
  assumes "saved_session L vault t0 mx s"
  shows "session_inv L memory_keyring vault (stamp_text t0) (duration_ns mx) s"
proof -
  obtain s0 raw n v ttl where h: "libs_ok L" "stamp_range t0" "\<not> poisoned s0" "length raw = 32" "length n = 12"
      "length v \<le> 2 ^ 36 - 32" "s = snd (save_passphrase L memory_keyring t0 (Inr raw) (Inr n) vault v ttl mx s0)"
    using assms unfolding saved_session_def by blast
  obtain s' rec where "save_passphrase L memory_keyring t0 (Inr raw) (Inr n) vault v ttl mx s0 = (Inr (), s')"
      "holds L memory_keyring vault s' rec" "ss_saved_at rec = stamp_text t0" "ss_max_lifetime_ns rec = duration_ns mx"
    using mem.save_passphrase_ok [OF h(3,1,4,5,6,2)] by metis
  then show ?thesis using h(7) by (auto simp: session_inv_def holds_def)
qed

interpretation sessions: guarded_machine "saved_session L vault t0 mx" "session_step L"
    "session_inv L memory_keyring vault (stamp_text t0) (duration_ns mx)"
  by unfold_locales (auto simp: session_step_def saved_session_inv mem.session_inv_apply)

lemma load_passphrase_success:
  assumes "fst (load_passphrase L K t vault s) = Inr v"
  obtains rec now tx sv la where "holds L K vault s rec" "sm_now t = Inr (now, tx)"
    "ts_nanos (ss_saved_at rec) = Inr sv" "\<not> sm_expired sv la (ss_ttl_ns rec) (ss_max_lifetime_ns rec) now"
proof (cases "read_session L K t vault s")
  case (Inr x)
  obtain rec now tx sv la where x: "x = (rec, now, tx, sv, la)" by (cases x)
  have h: "holds L K vault s rec" "sm_now t = Inr (now, tx)" "ts_nanos (ss_saved_at rec) = Inr sv"
    using Inr x by (auto simp: read_session_def holds_def res_bind_Inr_iff split: option.splits if_splits)
  have "\<not> sm_expired sv la (ss_ttl_ns rec) (ss_max_lifetime_ns rec) now"
    using assms Inr x by (auto simp: load_passphrase_def split: if_splits)
  with h that show thesis by blast
qed (use assms in \<open>simp add: load_passphrase_def\<close>)

lemma session_run_reach:
  "libs_ok L \<Longrightarrow> (session_step L)\<^sup>*\<^sup>* s (fold (session_apply L memory_keyring) ops s)"
  by (rule fold_reach) (auto simp: session_step_def)

section \<open>Properties\<close>



text \<open>
  C4. The maximum lifetime cannot be extended: after a session is saved at \<open>t0\<close>, whatever loads,
  identity saves, renewals and revocations follow, for this vault or any other, a passphrase is
  returned at time \<open>t\<close> only if no more than the maximum lifetime has passed since \<open>t0\<close>.
\<close>

theorem session_lifetime_cap:
  assumes "saved_session L vault t0 mx s" "stamp_range t"
    and "fst (load_passphrase L memory_keyring t vault (fold (session_apply L memory_keyring) ops s)) = Inr v"
  shows "t - t0 \<le> lifetime (duration_ns mx)"
proof -
  have h: "libs_ok L" "stamp_range t0" using assms(1) by (auto simp: saved_session_def)
  have inv: "session_inv L memory_keyring vault (stamp_text t0) (duration_ns mx) (fold (session_apply L memory_keyring) ops s)"
    by (rule sessions.inv_run [OF assms(1) session_run_reach [OF h(1)]])
  obtain rec now tx sv la where r: "holds L memory_keyring vault (fold (session_apply L memory_keyring) ops s) rec"
      "sm_now t = Inr (now, tx)" "ts_nanos (ss_saved_at rec) = Inr sv"
      "\<not> sm_expired sv la (ss_ttl_ns rec) (ss_max_lifetime_ns rec) now"
    by (rule load_passphrase_success [OF assms(3)])
  have "sv = t0" "ss_max_lifetime_ns rec = duration_ns mx"
    using inv r(1,3) ts_nanos_stamp [OF h(2)] by (auto simp: session_inv_def)
  moreover have "now = t" using r(2) stamp_range_now [OF assms(2)] by simp
  moreover have "i128_sat_sub t t0 = t - t0"
    using h(2) assms(2) by (simp add: i128_sat_sub_def stamp_range_def)
  ultimately show ?thesis using r(4) by (auto simp: sm_expired_def lifetime_def Let_def split: if_splits)
qed

text \<open>
  Migration: a cached plaintext passphrase is replaced by an encrypted one under the same
  timestamps; afterwards the session is no longer a legacy one, a second migration does nothing,
  and loading returns the bytes of the former plaintext until the session expires.
\<close>

theorem migrate_session_encrypts:
  assumes "libs_ok L" "\<not> poisoned s" "length raw = 32" "length n = 12"
    and "holds L memory_keyring vault s rec" "ss_passphrase rec = Some p" "p \<noteq> []" "str_len p \<le> 2 ^ 36 - 32"
    and "ts_nanos (ss_saved_at rec) = Inr sv" "ts_nanos (ss_last_access rec) = Inr la"
    and "stamp_range t" "0 < ss_ttl_ns rec"
    and "\<not> sm_expired sv la (ss_ttl_ns rec) (ss_max_lifetime_ns rec) t"
  shows "\<exists>s'. migrate_session L memory_keyring (Inr raw) (Inr n) vault s = (Inr True, s') \<and>
    has_legacy_plaintext_session L memory_keyring vault s' = Inr False \<and>
    migrate_session L memory_keyring (Inr raw) (Inr n) vault s' = (Inr False, s') \<and>
    fst (load_passphrase L memory_keyring t vault s') = Inr (as_bytes p)"
proof -
  have len: "length (as_bytes p) \<le> 2 ^ 36 - 32" using assms(8) by (simp add: length_as_bytes)
  obtain e e_n s1 where e: "sm_encrypt L memory_keyring (Inr raw) (Inr n) vault (as_bytes p) s = (Inr (e, e_n), s1)"
      "\<not> poisoned s1" "e \<noteq> []" "e_n \<noteq> []"
    and dc: "\<And>s''. kr_get memory_keyring s'' (session_key vault WRAP_KEY_ACCOUNT) =
        kr_get memory_keyring s1 (session_key vault WRAP_KEY_ACCOUNT) \<Longrightarrow>
      sm_decrypt L memory_keyring vault e e_n s'' = Inr (as_bytes p)"
    using mem.sm_encrypt_ok [OF assms(2,1,3,4) len] by metis
  define rec' where "rec' = rec\<lparr>ss_encrypted_passphrase := Some e, ss_nonce := Some e_n, ss_max_lifetime_ns :=
      (if ss_max_lifetime_ns rec \<le> 0 then duration_ns (nat DEFAULT_MAX_LIFETIME) else ss_max_lifetime_ns rec),
      ss_passphrase := None\<rparr>"
  obtain s' where s': "put_session L memory_keyring vault rec' s1 = (Inr (), s')" "holds L memory_keyring vault s' rec'"
      "\<And>k. k \<noteq> session_key vault SESSION_ACCOUNT \<Longrightarrow> kr_get memory_keyring s' k = kr_get memory_keyring s1 k"
    using mem.put_session_ok [OF e(2) assms(1)] by metis
  have val: "session_validate rec = Inr ()" "session_validate rec' = Inr ()"
    using assms(9,10) by (simp_all add: session_validate_def rec'_def)
  have exp: "\<not> sm_expired sv la (ss_ttl_ns rec') (ss_max_lifetime_ns rec') t"
    using assms(13) by (auto simp: rec'_def sm_expired_def Let_def duration_ns_def DEFAULT_MAX_LIFETIME_def split: if_splits)
  have "ready L memory_keyring vault s' rec' (as_bytes p)"
    using e(3,4) dc [OF s'(3)] by (simp add: ready_def rec'_def nonempty_def)
  then have "fst (load_passphrase L memory_keyring t vault s') = Inr (as_bytes p)"
    using s'(2) assms(9-12) exp stamp_range_now [OF assms(11)]
    by (intro load_ready [of _ _ _ _ rec' sv la]) (auto simp: rec'_def)
  moreover have "migrate_session L memory_keyring (Inr raw) (Inr n) vault s = (Inr True, s')"
    using assms(5-7) e(1) s'(1) val(1) by (auto simp: migrate_session_def holds_def nonempty_def rec'_def)
  moreover have "has_legacy_plaintext_session L memory_keyring vault s' = Inr False"
      "migrate_session L memory_keyring (Inr raw) (Inr n) vault s' = (Inr False, s')"
    using s'(2) val(2)
    by (auto simp: migrate_session_def has_legacy_plaintext_session_def holds_def nonempty_def rec'_def)
  ultimately show ?thesis by blast
qed

section \<open>Instances\<close>

text \<open>A concrete set of library functions that satisfies the laws.\<close>

definition unary_encode :: "blob \<Rightarrow> ustring" where
  "unary_encode b = concat (map (\<lambda>x. replicate x 66 @ [65]) b)"

fun unary_decode :: "nat \<Rightarrow> ustring \<Rightarrow> blob option" where
  "unary_decode k [] = (if k = 0 then Some [] else None)"
| "unary_decode k (c # cs) =
     (if c = 65 then map_option (Cons k) (unary_decode 0 cs)
      else if c = 66 then unary_decode (Suc k) cs else None)"

lemma unary_decode_replicate: "unary_decode k (replicate x 66 @ r) = unary_decode (k + x) r"
  by (induction x arbitrary: k) auto

lemma unary_roundtrip: "unary_decode 0 (unary_encode b) = Some b"
  by (induction b) (simp_all add: unary_encode_def unary_decode_replicate)

lemma unary_ascii: "c \<in> set (unary_encode b) \<Longrightarrow> c < 128"
  by (induction b) (auto simp: unary_encode_def)

definition demo_libs :: session_libs where
  "demo_libs =
     \<lparr>b64_encode = unary_encode, b64_decode = unary_decode 0,
      aead_encrypt = (\<lambda>k n v. Some (0 # v)), aead_decrypt = (\<lambda>k n c. case c of [] \<Rightarrow> None | _ # v \<Rightarrow> Some v),
      session_to_json = (\<lambda>r. Some (frames [ss_saved_at r, ss_last_access r, opt_frame (ss_passphrase r),
        opt_frame (ss_encrypted_passphrase r), opt_frame (ss_nonce r), int_frame (ss_ttl_ns r), int_frame (ss_max_lifetime_ns r)])),
      session_of_json = (\<lambda>b. case unframes b of Some [a, l, p, e, n, t, m] \<Rightarrow>
        Some \<lparr>ss_saved_at = a, ss_last_access = l, ss_passphrase = unopt_frame p, ss_encrypted_passphrase = unopt_frame e,
          ss_nonce = unopt_frame n, ss_ttl_ns = unint_frame t, ss_max_lifetime_ns = unint_frame m\<rparr> | _ \<Rightarrow> None),
      identity_to_json = (\<lambda>r. Some (frames [si_saved_at r, si_last_access r, si_encrypted_identity r, si_nonce r,
        int_frame (si_ttl_ns r), int_frame (si_max_lifetime_ns r)])),
      identity_of_json = (\<lambda>b. case unframes b of Some [a, l, e, n, t, m] \<Rightarrow>
        Some \<lparr>si_saved_at = a, si_last_access = l, si_encrypted_identity = e, si_nonce = n,
          si_ttl_ns = unint_frame t, si_max_lifetime_ns = unint_frame m\<rparr> | _ \<Rightarrow> None)\<rparr>"

lemma demo_libs_ok: "libs_ok demo_libs"
proof -
  have "b64_decode demo_libs (b64_encode demo_libs b) = Some b \<and> (\<forall>c \<in> set (b64_encode demo_libs b). c < 128) \<and>
      (b64_encode demo_libs b = [] \<longrightarrow> b = [])" for b
    using unary_ascii [of _ b] by (auto simp: demo_libs_def unary_roundtrip) (auto simp: unary_encode_def)
  moreover have "\<exists>c. aead_encrypt demo_libs k n v = Some c \<and> c \<noteq> [] \<and> aead_decrypt demo_libs k n c = Some v" for k n v
    by (simp add: demo_libs_def)
  moreover have "\<exists>p. session_to_json demo_libs r = Some p \<and> session_of_json demo_libs p = Some r" for r
    by (simp add: demo_libs_def unframes_frames)
  moreover have "\<exists>p. identity_to_json demo_libs r = Some p \<and> identity_of_json demo_libs p = Some r" for r
    by (simp add: demo_libs_def unframes_frames)
  ultimately show ?thesis unfolding libs_ok_def by blast
qed

definition empty_keyring :: memory_state where
  "empty_keyring = \<lparr>kv_values = (\<lambda>_. None), poisoned = False\<rparr>"

definition legacy_record :: stored_session where
  "legacy_record = \<lparr>ss_saved_at = stamp_text 1000, ss_last_access = stamp_text 1000, ss_passphrase = Some (lit ''pw''),
     ss_encrypted_passphrase = None, ss_nonce = None, ss_ttl_ns = 60, ss_max_lifetime_ns = 0\<rparr>"

definition legacy_keyring :: memory_state where
  "legacy_keyring = \<lparr>kv_values = [session_key (lit ''v'') SESSION_ACCOUNT \<mapsto> the (session_to_json demo_libs legacy_record)],
     poisoned = False\<rparr>"

lemma legacy_holds: "holds demo_libs memory_keyring (lit ''v'') legacy_keyring legacy_record"
  using libs_json [OF demo_libs_ok, of legacy_record]
  by (fastforce simp: holds_def legacy_keyring_def memory_keyring_def)

lemma demo_stamps [simp]: "stamp_range 1000" "stamp_range 1050" "stamp_range 2000"
  by (simp_all add: stamp_range_def)



theorem session_lifetime_cap_witness:
  "(1050 :: int) - 1000 \<le> lifetime (duration_ns 0)"
proof -
  define s where "s = snd (save_passphrase demo_libs memory_keyring 1000 (Inr (replicate 32 7)) (Inr (replicate 12 9))
    (lit ''v'') [1] 100 0 empty_keyring)"
  have "length (replicate 32 (7::nat)) = 32 \<and> length (replicate 12 (9::nat)) = 12 \<and> length [1::nat] \<le> 2 ^ 36 - 32 \<and> \<not> poisoned empty_keyring"
    by (simp add: empty_keyring_def)
  then have "saved_session demo_libs (lit ''v'') 1000 0 s"
    using demo_libs_ok unfolding saved_session_def s_def by (blast intro: demo_stamps)
  moreover obtain s' rec where "save_passphrase demo_libs memory_keyring 1000 (Inr (replicate 32 7)) (Inr (replicate 12 9))
      (lit ''v'') [1] 100 0 empty_keyring = (Inr (), s')" "holds demo_libs memory_keyring (lit ''v'') s' rec"
      "ready demo_libs memory_keyring (lit ''v'') s' rec [1]" "ss_saved_at rec = stamp_text 1000"
      "ss_last_access rec = stamp_text 1000" "ss_ttl_ns rec = duration_ns 100" "ss_max_lifetime_ns rec = duration_ns 0"
    by (rule mem.save_passphrase_ok [of empty_keyring demo_libs "replicate 32 7" "replicate 12 9" "[1]" 1000 "lit ''v''" 100 0])
      (auto simp: empty_keyring_def demo_libs_ok)
  then have "fst (load_passphrase demo_libs memory_keyring 1050 (lit ''v'') (fold (session_apply demo_libs memory_keyring) [] s)) = Inr [1]"
    unfolding s_def by (simp, intro load_ready [of _ _ _ _ rec 1000 1000 _ 1050])
      (auto simp: ts_nanos_stamp stamp_range_now sm_expired_iff duration_ns_def lifetime_def DEFAULT_MAX_LIFETIME_def)
  ultimately show ?thesis by (rule session_lifetime_cap [OF _ demo_stamps(2)])
qed

theorem migrate_session_encrypts_witness:
  "\<exists>s'. migrate_session demo_libs memory_keyring (Inr (replicate 32 7)) (Inr (replicate 12 9)) (lit ''v'') legacy_keyring = (Inr True, s') \<and>
    has_legacy_plaintext_session demo_libs memory_keyring (lit ''v'') s' = Inr False \<and>
    fst (load_passphrase demo_libs memory_keyring 1050 (lit ''v'') s') = Inr (as_bytes (lit ''pw''))"
proof -
  have f: "\<not> poisoned legacy_keyring" "ss_passphrase legacy_record = Some (lit ''pw'')" "str_len (lit ''pw'') \<le> 2 ^ 36 - 32"
      "ts_nanos (ss_saved_at legacy_record) = Inr 1000" "ts_nanos (ss_last_access legacy_record) = Inr 1000"
      "0 < ss_ttl_ns legacy_record" "\<not> sm_expired 1000 1000 (ss_ttl_ns legacy_record) (ss_max_lifetime_ns legacy_record) 1050"
    by (simp_all add: legacy_keyring_def legacy_record_def utf8_width_def ts_nanos_stamp sm_expired_iff lifetime_def DEFAULT_MAX_LIFETIME_def)
  show ?thesis
    using migrate_session_encrypts [OF demo_libs_ok f(1) _ _ legacy_holds f(2) _ f(3-5) demo_stamps(2) f(6,7),
        of "replicate 32 7" "replicate 12 9"] by auto
qed

end
