(* ===== verification/Go_Time.thy ===== *)
theory Go_Time
  imports Timestamps
begin

text \<open>
  Registry timestamps: the parser of \<^verbatim>\<open>symvault-store/src/go_registry.rs\<close> (\<open>parse_go_rfc3339\<close>
  with its callers) and the printer of \<^verbatim>\<open>symvault-store/src/token_registry.rs\<close> (\<open>go_rfc3339\<close>).

  An \<open>OffsetDateTime\<close> of the \<open>time\<close> crate is the record of its civil fields and its offset in
  seconds. What the code takes from that crate beyond the fields is the record \<open>time_lib\<close>; the laws
  used of it are \<open>time_ok\<close>.
\<close>

section \<open>The time crate\<close>

record odt =
  od_year :: int
  od_month :: nat
  od_day :: nat
  od_hour :: nat
  od_minute :: nat
  od_second :: nat
  od_nano :: nat
  od_offset :: int

record time_lib =
  tl_valid_date :: "int \<Rightarrow> nat \<Rightarrow> nat \<Rightarrow> bool"
  tl_valid_offset :: "int \<Rightarrow> bool"
  tl_unix_nanos :: "odt \<Rightarrow> int"
  tl_to_utc :: "odt \<Rightarrow> odt"
  tl_checked_add :: "odt \<Rightarrow> int \<Rightarrow> odt option"

definition odt_wf :: "time_lib \<Rightarrow> odt \<Rightarrow> bool" where
  "odt_wf T v \<longleftrightarrow> tl_valid_date T (od_year v) (od_month v) (od_day v) \<and> 1 \<le> od_month v \<and> od_month v \<le> 12 \<and>
     1 \<le> od_day v \<and> od_day v \<le> 31 \<and> od_hour v < 24 \<and> od_minute v < 60 \<and> od_second v < 60 \<and>
     od_nano v < 1000000000 \<and> tl_valid_offset T (od_offset v)"

text \<open>Documented behaviour: converting to UTC keeps the instant, gives offset zero and valid fields,
  and an instant from the epoch on falls into the years up to 9999 that the crate supports; adding a
  duration moves the instant by it.\<close>

definition time_ok :: "time_lib \<Rightarrow> bool" where
  "time_ok T \<longleftrightarrow>
     (\<forall>v. odt_wf T v \<longrightarrow> odt_wf T (tl_to_utc T v) \<and> od_offset (tl_to_utc T v) = 0 \<and>
        tl_unix_nanos T (tl_to_utc T v) = tl_unix_nanos T v \<and>
        (0 \<le> tl_unix_nanos T v \<longrightarrow> 0 \<le> od_year (tl_to_utc T v) \<and> od_year (tl_to_utc T v) \<le> 9999)) \<and>
     (\<forall>v d w. odt_wf T v \<longrightarrow> tl_checked_add T v d = Some w \<longrightarrow>
        odt_wf T w \<and> tl_unix_nanos T w = tl_unix_nanos T v + d)"

section \<open>Parsing\<close>

fun two :: "nat list \<Rightarrow> nat option" where
  "two (a # b # _) = (if is_digit a \<and> is_digit b then Some ((a - 48) * 10 + (b - 48)) else None)"
| "two _ = None"

definition bget :: "nat list \<Rightarrow> nat \<Rightarrow> nat option" where
  "bget b i = (if i < length b then Some (b ! i) else None)"

text \<open>Go's hour: one or two digits; the value and the position after it.\<close>

definition go_hour :: "nat list \<Rightarrow> nat \<Rightarrow> (nat \<times> nat) option" where
  "go_hour b i =
     (case (bget b i, bget b (i + 1)) of
        (Some x, Some y) \<Rightarrow>
          if is_digit x \<and> is_digit y then Some ((x - 48) * 10 + (y - 48), i + 2)
          else if is_digit x then Some (x - 48, i + 1) else None
      | (Some x, None) \<Rightarrow> if is_digit x then Some (x - 48, i + 1) else None
      | (None, _) \<Rightarrow> None)"

text \<open>The fraction: its first nine digits as nanoseconds, and the position after all of it.\<close>

definition go_fraction :: "nat list \<Rightarrow> nat \<Rightarrow> nat \<times> nat" where
  "go_fraction b i =
     (case (bget b i, bget b (i + 1)) of
        (Some p, Some d) \<Rightarrow>
          if (p = ch_dot \<or> p = ch_comma) \<and> is_digit d then
            (let fraction = takeWhile is_digit (drop (i + 1) b)
             in (foldl (\<lambda>n k. n * 10 + (if k < length fraction then fraction ! k - 48 else 0)) 0 [0..<9],
                 i + 1 + length fraction))
          else (0, i)
      | _ \<Rightarrow> (0, i))"

definition go_offset :: "time_lib \<Rightarrow> nat list \<Rightarrow> int option" where
  "go_offset T r =
     (case r of
        [z] \<Rightarrow> if z = 90 then Some 0 else None
      | [sign, h1, h2, c, m1, m2] \<Rightarrow>
          if (sign = ch_plus \<or> sign = ch_minus) \<and> c = ch_colon then
            (case (two [h1, h2], two [m1, m2]) of
               (Some hours, Some minutes) \<Rightarrow>
                 if 24 < hours \<or> 60 < minutes then None
                 else (let seconds = int ((hours * 60 + minutes) * 60);
                           off = (if sign = ch_minus then - seconds else seconds)
                       in if tl_valid_offset T off then Some off else None)
             | _ \<Rightarrow> None)
          else None
      | _ \<Rightarrow> None)"

definition parse_go_rfc3339 :: "time_lib \<Rightarrow> ustring \<Rightarrow> odt option" where
  "parse_go_rfc3339 T text =
     (let b = as_bytes text
      in if length b < 4 \<or> \<not> list_all is_digit (take 4 b) then None
         else if bget b 4 \<noteq> Some ch_minus \<or> bget b 7 \<noteq> Some ch_minus \<or> bget b 10 \<noteq> Some 84 then None
         else
           (case (two (drop 5 b), two (drop 8 b)) of
              (Some month, Some day) \<Rightarrow>
                if month < 1 \<or> 12 < month \<or> \<not> tl_valid_date T (int (digits_value (take 4 b))) month day then None
                else
                  (case go_hour b 11 of
                     None \<Rightarrow> None
                   | Some (hour, i) \<Rightarrow>
                       if bget b i \<noteq> Some ch_colon \<or> bget b (i + 3) \<noteq> Some ch_colon then None
                       else
                         (case (two (drop (i + 1) b), two (drop (i + 4) b)) of
                            (Some minute, Some second) \<Rightarrow>
                              (let (nanos, j) = go_fraction b (i + 6)
                               in case go_offset T (drop j b) of
                                    None \<Rightarrow> None
                                  | Some off \<Rightarrow>
                                      if 23 < hour \<or> 59 < minute \<or> 59 < second then None
                                      else Some \<lparr>od_year = int (digits_value (take 4 b)), od_month = month,
                                             od_day = day, od_hour = hour, od_minute = minute, od_second = second,
                                             od_nano = nanos, od_offset = off\<rparr>)
                          | _ \<Rightarrow> None))
            | _ \<Rightarrow> None))"

text \<open>\<open>format!\<close> of a signed number with \<open>{:04}\<close>: the sign counts towards the width.\<close>

definition pad_int :: "nat \<Rightarrow> int \<Rightarrow> ustring" where
  "pad_int w n = (if n < 0 then ch_minus # pad (w - 1) (nat (- n)) else pad w (nat n))"

definition format_go_minute :: "time_lib \<Rightarrow> ustring \<Rightarrow> ustring option" where
  "format_go_minute T text =
     map_option (\<lambda>v. pad_int 4 (od_year v) @ ch_minus # pad 2 (od_month v) @ ch_minus # pad 2 (od_day v) @ 32 #
        pad 2 (od_hour v) @ ch_colon # pad 2 (od_minute v)) (parse_go_rfc3339 T text)"

definition GO_ZERO_TIME_NANOS :: int where "GO_ZERO_TIME_NANOS = - 62135596800 * 1000000000"

fun latest_loop :: "time_lib \<Rightarrow> ustring list \<Rightarrow> (ustring \<times> int) option \<Rightarrow> (ustring \<times> int) option" where
  "latest_loop T [] best = best"
| "latest_loop T (text # rest) best =
     (case parse_go_rfc3339 T text of
        None \<Rightarrow> latest_loop T rest best
      | Some v \<Rightarrow>
          (let nanos = tl_unix_nanos T v
           in latest_loop T rest
                (if (case best of None \<Rightarrow> GO_ZERO_TIME_NANOS | Some (_, current) \<Rightarrow> current) < nanos
                 then Some (text, nanos) else best)))"

definition latest_after_go_zero :: "time_lib \<Rightarrow> ustring list \<Rightarrow> ustring option" where
  "latest_after_go_zero T texts = map_option fst (latest_loop T texts None)"

definition raw_timestamp_is_valid :: "time_lib \<Rightarrow> ustring \<Rightarrow> bool" where
  "raw_timestamp_is_valid T raw \<longleftrightarrow>
     raw = lit ''null'' \<or>
     (2 \<le> str_len raw \<and> starts_with [34] raw \<and> ends_with [34] raw \<and> ch_backslash \<notin> set raw \<and>
      parse_go_rfc3339 T (butlast (tl raw)) \<noteq> None)"

section \<open>Printing\<close>

definition go_rfc3339 :: "time_lib \<Rightarrow> odt \<Rightarrow> ustring" where
  "go_rfc3339 T value =
     (let v = tl_to_utc T value
      in pad_int 4 (od_year v) @ ch_minus # pad 2 (od_month v) @ ch_minus # pad 2 (od_day v) @ 84 #
         pad 2 (od_hour v) @ ch_colon # pad 2 (od_minute v) @ ch_colon # pad 2 (od_second v) @
         fraction_suffix (od_nano v) @ [90])"

section \<open>Reading back\<close>

lemma fraction_loop:
  "foldl (\<lambda>n k. n * 10 + (if k < length ds then ds ! k - 48 else 0)) 0 [0..<m] =
   digits_value (take m ds) * 10 ^ (m - length ds)"
proof (induction m)
  case (Suc m)
  show ?case
  proof (cases "m < length ds")
    case True
    then have "take (Suc m) ds = take m ds @ [ds ! m]" by (rule take_Suc_conv_app_nth)
    with Suc True show ?thesis by simp
  next
    case False
    then have "Suc m - length ds = Suc (m - length ds)" by simp
    with Suc False show ?thesis by simp
  qed
qed simp

lemma go_fraction_suffix:
  assumes "length pre = 19" "frac < 1000000000"
  shows "go_fraction (pre @ fraction_suffix frac @ [90]) 19 = (frac, 19 + length (fraction_suffix frac))"
proof (cases "frac = 0")
  case True
  with assms(1) show ?thesis
    by (simp add: go_fraction_def fraction_suffix_def bget_def nth_append split: option.splits)
next
  case False
  define ds where "ds = trim_end_matches 48 (pad 9 frac)"
  note d = fraction_digits [OF assms(2) False, folded ds_def]
  have tw: "takeWhile is_digit (ds @ [90]) = ds"
    using d(3) by (subst takeWhile_append2) (auto simp: list_all_iff is_digit_def)
  obtain x xs where ds: "ds = x # xs" using d(1) by (cases ds) auto
  have "is_digit x" using d(3) ds by simp
  moreover have "digits_value (take 9 ds) * 10 ^ (9 - length ds) = frac" using d(2,4) by simp
  ultimately show ?thesis
    using False assms(1) tw ds
    by (simp add: go_fraction_def fraction_suffix_def ds_def [symmetric] nth_append bget_def Let_def fraction_loop)
qed

lemma digits_value_two: "is_digit a \<Longrightarrow> is_digit b \<Longrightarrow> digits_value [a, b] = (a - 48) * 10 + (b - 48)"
  by (simp add: digits_value_def)

lemma go_fields:
  assumes "y < 10000" "m < 100" "d < 100" "h < 100" "mi < 100" "sec < 100"
    and "b = pad 4 y @ ch_minus # pad 2 m @ ch_minus # pad 2 d @ 84 #
      pad 2 h @ ch_colon # pad 2 mi @ ch_colon # pad 2 sec @ tail"
  shows "list_all is_digit (take 4 b)" "digits_value (take 4 b) = y" "two (drop 5 b) = Some m" "two (drop 8 b) = Some d"
    "go_hour b 11 = Some (h, 13)" "two (drop 14 b) = Some mi" "two (drop 17 b) = Some sec"
proof -
  obtain y1 y2 y3 y4 where y: "pad 4 y = [y1, y2, y3, y4]" "is_digit y1" "is_digit y2" "is_digit y3" "is_digit y4"
    by (rule four_digits [of "pad 4 y"]) (use assms(1) in \<open>auto simp: length_pad pad_simps\<close>)
  have two: "\<exists>a c. pad 2 n = [a, c] \<and> is_digit a \<and> is_digit c" if "n < 100" for n
    by (rule two_digits [of "pad 2 n"]) (use that in \<open>auto simp: length_pad pad_simps\<close>)
  obtain m1 m2 d1 d2 h1 h2 i1 i2 s1 s2 where t:
      "pad 2 m = [m1, m2]" "is_digit m1" "is_digit m2" "pad 2 d = [d1, d2]" "is_digit d1" "is_digit d2"
      "pad 2 h = [h1, h2]" "is_digit h1" "is_digit h2" "pad 2 mi = [i1, i2]" "is_digit i1" "is_digit i2"
      "pad 2 sec = [s1, s2]" "is_digit s1" "is_digit s2"
    using two [OF assms(2)] two [OF assms(3)] two [OF assms(4)] two [OF assms(5)] two [OF assms(6)] by blast
  have v: "digits_value [y1, y2, y3, y4] = y" "(m1 - 48) * 10 + (m2 - 48) = m" "(d1 - 48) * 10 + (d2 - 48) = d"
      "(h1 - 48) * 10 + (h2 - 48) = h" "(i1 - 48) * 10 + (i2 - 48) = mi" "(s1 - 48) * 10 + (s2 - 48) = sec"
    using t by (simp_all only: digits_value_two [symmetric] y(1) [symmetric] t(1,4,7,10,13) [symmetric] pad_simps(1))
  have b: "b = [y1, y2, y3, y4, 45, m1, m2, 45, d1, d2, 84, h1, h2, 58, i1, i2, 58, s1, s2] @ tail"
    by (simp add: assms(7) y(1) t)
  show "list_all is_digit (take 4 b)" "digits_value (take 4 b) = y" "two (drop 5 b) = Some m" "two (drop 8 b) = Some d"
    "go_hour b 11 = Some (h, 13)" "two (drop 14 b) = Some mi" "two (drop 17 b) = Some sec"
    using y t v unfolding b by (simp_all add: go_hour_def bget_def)
qed

lemma parse_go_rfc3339_printed:
  assumes "odt_wf T v" "od_offset v = 0" "0 \<le> od_year v" "od_year v \<le> 9999"
  shows "parse_go_rfc3339 T (pad_int 4 (od_year v) @ ch_minus # pad 2 (od_month v) @ ch_minus # pad 2 (od_day v) @ 84 #
         pad 2 (od_hour v) @ ch_colon # pad 2 (od_minute v) @ ch_colon # pad 2 (od_second v) @
         fraction_suffix (od_nano v) @ [90]) = Some v"
proof -
  define b where "b = pad 4 (nat (od_year v)) @ ch_minus # pad 2 (od_month v) @ ch_minus # pad 2 (od_day v) @ 84 #
         pad 2 (od_hour v) @ ch_colon # pad 2 (od_minute v) @ ch_colon # pad 2 (od_second v) @
         (fraction_suffix (od_nano v) @ [90])"
  have n: "od_nano v < 1000000000" using assms(1) by (simp add: odt_wf_def)
  have lim: "nat (od_year v) < 10000" "od_month v < 100" "od_day v < 100" "od_hour v < 100" "od_minute v < 100" "od_second v < 100"
    using assms by (auto simp: odt_wf_def)
  have asc: "as_bytes b = b"
    by (rule as_bytes_ascii) (auto simp: b_def dest: digit_ascii fraction_suffix_ascii [OF n])
  note f = go_fields [OF lim b_def] and g = stamp_fields(7-12) [OF lim b_def]
  define pre where "pre = pad 4 (nat (od_year v)) @ ch_minus # pad 2 (od_month v) @ ch_minus # pad 2 (od_day v) @ 84 #
         pad 2 (od_hour v) @ ch_colon # pad 2 (od_minute v) @ ch_colon # pad 2 (od_second v)"
  have pre: "b = pre @ fraction_suffix (od_nano v) @ [90]" "length pre = 19"
    using lim by (simp_all add: pre_def b_def length_pad)
  have fr: "go_fraction b 19 = (od_nano v, 19 + length (fraction_suffix (od_nano v)))"
    using go_fraction_suffix [OF pre(2) n] pre(1) by simp
  have off: "go_offset T (drop (19 + length (fraction_suffix (od_nano v))) b) = Some 0"
    unfolding pre(1) using pre(2) by (simp add: go_offset_def)
  have get: "bget b 4 = Some ch_minus" "bget b 7 = Some ch_minus" "bget b 10 = Some 84" "bget b 13 = Some ch_colon"
      "bget b 16 = Some ch_colon" "\<not> length b < 4" using g by (simp_all add: bget_def)
  have "parse_go_rfc3339 T b = Some v"
    using assms f get fr off by (simp add: parse_go_rfc3339_def asc odt_wf_def)
  then show ?thesis using assms(3) by (simp add: b_def pad_int_def)
qed

lemma go_rfc3339_reads_back:
  assumes "time_ok T" "odt_wf T v" "0 \<le> od_year (tl_to_utc T v)" "od_year (tl_to_utc T v) \<le> 9999"
  shows "parse_go_rfc3339 T (go_rfc3339 T v) = Some (tl_to_utc T v)"
    "tl_unix_nanos T (tl_to_utc T v) = tl_unix_nanos T v" "od_offset (tl_to_utc T v) = 0"
proof -
  show "od_offset (tl_to_utc T v) = 0" "tl_unix_nanos T (tl_to_utc T v) = tl_unix_nanos T v"
    using assms(1,2) by (auto simp: time_ok_def)
  moreover have "odt_wf T (tl_to_utc T v)" using assms(1,2) by (auto simp: time_ok_def)
  ultimately show "parse_go_rfc3339 T (go_rfc3339 T v) = Some (tl_to_utc T v)"
    using parse_go_rfc3339_printed [OF _ _ assms(3,4)] by (simp add: go_rfc3339_def Let_def)
qed

section \<open>A calendar in UTC\<close>

text \<open>The calendar of the session cache, from the Unix epoch on, as an instance of the laws.\<close>

definition utc_nanos :: "odt \<Rightarrow> int" where
  "utc_nanos v = ((days_from_civil (od_year v) (int (od_month v)) (int (od_day v)) * 86400 +
     int (od_hour v * 3600 + od_minute v * 60 + od_second v)) - od_offset v) * 1000000000 + int (od_nano v)"

definition utc_of_nanos :: "int \<Rightarrow> odt" where
  "utc_of_nanos t =
     (let s = t div 1000000000; r = nat (s mod 86400); (y, m, d) = civil_from_days (s div 86400)
      in \<lparr>od_year = y, od_month = nat m, od_day = nat d, od_hour = r div 3600, od_minute = r div 60 mod 60,
          od_second = r mod 60, od_nano = nat (t mod 1000000000), od_offset = 0\<rparr>)"

definition utc_calendar :: time_lib where
  "utc_calendar =
     \<lparr>tl_valid_date = (\<lambda>y m d. 0 \<le> y \<and> y \<le> 9999 \<and> 1 \<le> m \<and> m \<le> 12 \<and> 1 \<le> d \<and> int d \<le> days_in_month y (int m)),
      tl_valid_offset = (\<lambda>x. x = 0), tl_unix_nanos = utc_nanos, tl_to_utc = (\<lambda>v. v),
      tl_checked_add = (\<lambda>v d. let t = utc_nanos v + d in if stamp_range t then Some (utc_of_nanos t) else None)\<rparr>"

lemma utc_calendar_simps [simp]: "tl_to_utc utc_calendar v = v" "tl_unix_nanos utc_calendar = utc_nanos"
  by (simp_all add: utc_calendar_def)

lemma utc_of_nanos_ok:
  assumes "stamp_range t"
  shows "odt_wf utc_calendar (utc_of_nanos t)" "utc_nanos (utc_of_nanos t) = t"
proof -
  define s where "s = t div 1000000000"
  define days where "days = s div 86400"
  define r where "r = nat (s mod 86400)"
  obtain y m d where c: "civil_from_days days = (y, m, d)" by (cases "civil_from_days days")
  have "0 \<le> t" "t < 253402300800000000000" using assms by (simp_all add: stamp_range_def)
  then have "0 \<le> s" "s < 253402300800" by (simp_all add: s_def pos_imp_zdiv_nonneg_iff)
  then have days: "0 \<le> days" "days \<le> 2932896" by (simp_all add: days_def pos_imp_zdiv_nonneg_iff)
  note civ = civil_days(1-6) [OF days(1) c] civil_days(7) [OF days(1) c days(2)]
  have r: "r < 86400" "s = days * 86400 + int r" by (simp_all add: r_def days_def nat_less_iff)
  note hms = seconds_of_day [OF r(1)]
  have v: "utc_of_nanos t = \<lparr>od_year = y, od_month = nat m, od_day = nat d, od_hour = r div 3600, od_minute = r div 60 mod 60,
          od_second = r mod 60, od_nano = nat (t mod 1000000000), od_offset = 0\<rparr>"
    using c by (simp add: utc_of_nanos_def Let_def s_def days_def r_def)
  have "nat d \<le> 31" using civ(4,5) by (auto simp: days_in_month_def split: if_splits)
  then show "odt_wf utc_calendar (utc_of_nanos t)"
    using civ hms by (auto simp: v odt_wf_def utc_calendar_def nat_less_iff le_nat_iff)
  have "days * 86400 + int (r div 3600 * 3600 + r div 60 mod 60 * 60 + r mod 60) = s"
    using hms(4) r(2) by (simp only:)
  moreover have "t = s * 1000000000 + int (nat (t mod 1000000000))" by (simp add: s_def)
  ultimately show "utc_nanos (utc_of_nanos t) = t"
    using civ by (simp add: v utc_nanos_def)
qed

lemma utc_calendar_ok: "time_ok utc_calendar"
  using utc_of_nanos_ok
  by (auto simp: time_ok_def odt_wf_def utc_calendar_def Let_def split: if_splits)

text \<open>
  Registry timestamps lose nothing: what the token registry writes for an instant of the years
  0 to 9999, the Go-compatible parser reads back as the same instant, in UTC. In particular a token
  expiry written by this program is the expiry every later check sees.
\<close>

theorem go_rfc3339_roundtrip:
  assumes "time_ok T" "odt_wf T v" "0 \<le> od_year (tl_to_utc T v)" "od_year (tl_to_utc T v) \<le> 9999"
  shows "\<exists>w. parse_go_rfc3339 T (go_rfc3339 T v) = Some w \<and> tl_unix_nanos T w = tl_unix_nanos T v \<and> od_offset w = 0"
  using go_rfc3339_reads_back [OF assms] by blast

theorem go_rfc3339_roundtrip_witness:
  "\<exists>w. parse_go_rfc3339 utc_calendar (go_rfc3339 utc_calendar
      \<lparr>od_year = 2024, od_month = 2, od_day = 29, od_hour = 12, od_minute = 34, od_second = 56,
       od_nano = 500000000, od_offset = 0\<rparr>) = Some w \<and>
    tl_unix_nanos utc_calendar w = 1709210096500000000"
proof -
  let ?v = "\<lparr>od_year = 2024, od_month = 2, od_day = 29, od_hour = 12, od_minute = 34, od_second = 56,
       od_nano = 500000000, od_offset = 0\<rparr>"
  have "odt_wf utc_calendar ?v"
    by (simp add: odt_wf_def utc_calendar_def days_in_month_def leap_year_def)
  moreover have "tl_unix_nanos utc_calendar ?v = 1709210096500000000"
    by (simp add: utc_nanos_def days_from_civil_def Let_def)
  ultimately show ?thesis
    using go_rfc3339_roundtrip [OF utc_calendar_ok, of ?v] by auto
qed

end
