(* ===== verification/Ordered_Map.thy ===== *)
theory Ordered_Map
  imports Prelude "HOL-Library.List_Lexorder"
begin

text \<open>
  Rust's \<open>BTreeMap<String, V>\<close> as the source uses it: an association list in strictly ascending
  key order, so that iteration and \<open>values().find\<close> visit the smallest key first. Strings compare
  by code point, which is the order of their UTF-8 bytes.
\<close>

fun bt_insert :: "'k::linorder \<Rightarrow> 'v \<Rightarrow> ('k \<times> 'v) list \<Rightarrow> ('k \<times> 'v) list" where
  "bt_insert k v [] = [(k, v)]"
| "bt_insert k v ((k', v') # m) =
     (if k < k' then (k, v) # (k', v') # m
      else if k = k' then (k, v) # m
      else (k', v') # bt_insert k v m)"

definition bt_inv :: "('k::linorder \<times> 'v) list \<Rightarrow> bool" where
  "bt_inv m \<longleftrightarrow> sorted_wrt (<) (map fst m)"

text \<open>What a client of the map relies on.\<close>

locale map_laws =
  fixes lookup :: "'m \<Rightarrow> 'k \<Rightarrow> 'v option" and insert :: "'k \<Rightarrow> 'v \<Rightarrow> 'm \<Rightarrow> 'm" and inv :: "'m \<Rightarrow> bool"
  assumes lookup_insert: "inv m \<Longrightarrow> lookup (insert k v m) k' = (if k' = k then Some v else lookup m k')"
    and inv_insert: "inv m \<Longrightarrow> inv (insert k v m)"
begin

lemma lookup_insert_same: "inv m \<Longrightarrow> lookup (insert k v m) k = Some v"
  by (simp add: lookup_insert)

lemma insert_overwrites: "inv m \<Longrightarrow> lookup (insert k w (insert k v m)) = lookup (insert k w m)"
  by (rule ext) (simp add: lookup_insert inv_insert)

lemma insert_commutes:
  "inv m \<Longrightarrow> k \<noteq> k' \<Longrightarrow> lookup (insert k v (insert k' v' m)) = lookup (insert k' v' (insert k v m))"
  by (rule ext) (simp add: lookup_insert inv_insert)

end

lemma bt_insert_keys: "set (map fst (bt_insert k v m)) = insert k (set (map fst m))"
  by (induction k v m rule: bt_insert.induct) auto

lemma bt_inv_Cons: "bt_inv ((k, v) # m) \<longleftrightarrow> (\<forall>x \<in> set (map fst m). k < x) \<and> bt_inv m"
  by (auto simp: bt_inv_def)

lemma bt_inv_insert: "bt_inv m \<Longrightarrow> bt_inv (bt_insert k v m)"
proof (induction k v m rule: bt_insert.induct)
  case (2 k v k' v' m)
  then show ?case using bt_insert_keys [of k v m] by (fastforce simp: bt_inv_Cons)
qed (simp add: bt_inv_def)

lemma bt_lookup_insert:
  "bt_inv m \<Longrightarrow> map_of (bt_insert k v m) x = (if x = k then Some v else map_of m x)"
  by (induction k v m rule: bt_insert.induct) (auto simp: bt_inv_Cons)

interpretation bt: map_laws map_of bt_insert bt_inv
  by unfold_locales (simp_all add: bt_lookup_insert bt_inv_insert)

lemma bt_inv_distinct: "bt_inv m \<Longrightarrow> distinct (map fst m)"
  by (auto simp: bt_inv_def strict_sorted_iff)

lemma bt_inv_Nil [simp]: "bt_inv []"
  by (simp add: bt_inv_def)

lemma bt_in_iff: "bt_inv m \<Longrightarrow> (k, v) \<in> set m \<longleftrightarrow> map_of m k = Some v"
  using bt_inv_distinct by fastforce

lemma bt_inv_filter: "bt_inv m \<Longrightarrow> bt_inv (filter P m)"
  by (induction m) (auto simp: bt_inv_def)

lemma bt_inv_map_val: "bt_inv (map (\<lambda>(k, v). (k, f k v)) m) \<longleftrightarrow> bt_inv m"
proof -
  have "map fst (map (\<lambda>(k, v). (k, f k v)) m) = map fst m" by (induction m) auto
  then show ?thesis unfolding bt_inv_def by (simp only:)
qed

lemma bt_insert_set:
  "bt_inv m \<Longrightarrow> set (bt_insert k v m) = insert (k, v) {x \<in> set m. fst x \<noteq> k}"
proof -
  assume inv: "bt_inv m"
  have "x \<in> set (bt_insert k v m) \<longleftrightarrow> x = (k, v) \<or> x \<in> set m \<and> fst x \<noteq> k" for x
    using bt_in_iff [OF bt_inv_insert [OF inv], of "fst x" "snd x" k v] bt_in_iff [OF inv, of "fst x" "snd x"]
    by (cases x) (auto simp: bt_lookup_insert [OF inv])
  then show ?thesis by auto
qed

end
