(* ===== verification/Store_Error.thy ===== *)
theory Store_Error
  imports Prelude
begin

text \<open>
  The error type of the store, \<^verbatim>\<open>StoreError\<close> of \<^verbatim>\<open>symvault-store/src/lib.rs\<close>, with its variants in the
  order of the source. A path is its text, relative to the vault root; an \<^verbatim>\<open>io::Error\<close> is its message.
  The last constructor is not a variant of the source: it is the outcome of a call that panics, so
  that a failing \<^verbatim>\<open>expect\<close> is visible in the model.
\<close>

datatype store_error =
    ResourceLimit
  | ResourceBusy
  | RootNotDirectory ustring
  | RootChanged ustring
  | MissingFile ustring
  | UnsafePath ustring
  | Symlink ustring
  | NotRegularFile ustring
  | Read ustring ustring
  | Write ustring ustring
  | Config ustring
  | Entry ustring ustring
  | EntryNotFound ustring
  | InvalidEntryPath ustring
  | Decryption ustring
  | SearchIndex ustring
  | SearchIndexBuildEmpty
  | Limit ustring nat
  | ValueLimit ustring
  | DataSafety ustring
  | Panicked ustring

end
