(* ===== verification/Byte_Text.thy ===== *)
theory Byte_Text
  imports Prelude
begin

unbundle bit_operations_syntax

text \<open>
  Byte-level helpers that several modules of the source repeat: lower-case hexadecimal text, the
  comparison of two byte strings without an early exit, and bounds on UTF-8 bytes.
\<close>

section \<open>Hexadecimal text\<close>

definition hex_digit :: "nat \<Rightarrow> uchar" where
  "hex_digit n = lit ''0123456789abcdef'' ! n"

definition encode_hex :: "nat list \<Rightarrow> ustring" where
  "encode_hex b = concat (map (\<lambda>x. [hex_digit (x div 16), hex_digit (x mod 16)]) b)"

lemma hex_digit_cases:
  "n < 16 \<Longrightarrow> hex_digit n = (if n < 10 then 48 + n else 87 + n)"
proof -
  assume "n < 16"
  then have "n \<in> {0, 1, 2, 3, 4, 5, 6, 7, 8, 9, 10, 11, 12, 13, 14, 15}" by (simp, presburger)
  then show ?thesis by (auto simp: hex_digit_def)
qed

lemma encode_hex_simps [simp]:
  "encode_hex [] = []"
  "encode_hex (b # bs) = hex_digit (b div 16) # hex_digit (b mod 16) # encode_hex bs"
  by (simp_all add: encode_hex_def)

lemma encode_hex_eq_Nil [simp]: "encode_hex bs = [] \<longleftrightarrow> bs = []"
  by (cases bs) simp_all

text \<open>The value of a hexadecimal digit in either case, \<open>char::to_digit(16)\<close>.\<close>

definition hex_value :: "uchar \<Rightarrow> nat option" where
  "hex_value c =
     (if 48 \<le> c \<and> c \<le> 57 then Some (c - 48)
      else if 97 \<le> c \<and> c \<le> 102 then Some (c - 97 + 10)
      else if 65 \<le> c \<and> c \<le> 70 then Some (c - 65 + 10)
      else None)"

lemma hex_value_digit [simp]: "n < 16 \<Longrightarrow> hex_value (hex_digit n) = Some n"
  by (simp add: hex_digit_cases hex_value_def)

lemma hex_value_bound: "hex_value c = Some n \<Longrightarrow> n < 16"
  by (auto simp: hex_value_def split: if_splits)

lemma hex_value_ascii: "hex_value c \<noteq> None \<Longrightarrow> c < 128"
  by (auto simp: hex_value_def split: if_splits)

lemma hex_digit_ascii: "n < 16 \<Longrightarrow> hex_digit n < 128"
  by (simp add: hex_digit_cases)

lemma encode_hex_ascii: "\<forall>b \<in> set bs. b < 256 \<Longrightarrow> \<forall>c \<in> set (encode_hex bs). c < 128"
  by (induction bs) (auto intro!: hex_digit_ascii)

section \<open>Comparison without early exit\<close>

definition byte_difference :: "nat list \<Rightarrow> nat list \<Rightarrow> 8 word" where
  "byte_difference xs ys =
     foldl (\<lambda>d (l, r). d OR (word_of_nat l XOR word_of_nat r)) 0 (zip xs ys)"

lemma foldl_or_zero:
  fixes d :: "'w::len word"
  shows "foldl (\<lambda>d (l, r). d OR f l r) d zs = 0 \<longleftrightarrow> d = 0 \<and> (\<forall>(l, r) \<in> set zs. f l r = 0)"
  by (induction zs arbitrary: d) (auto simp: or_eq_0_iff)

lemma byte_difference_zero:
  assumes "length xs = length ys" "\<forall>x \<in> set xs. x < 256" "\<forall>y \<in> set ys. y < 256"
  shows "byte_difference xs ys = 0 \<longleftrightarrow> xs = ys"
proof -
  have eq: "(word_of_nat l XOR word_of_nat r :: 8 word) = 0 \<longleftrightarrow> l = r" if "l < 256" "r < 256" for l r
  proof -
    have "(word_of_nat l XOR word_of_nat r :: 8 word) = 0 \<longleftrightarrow> (word_of_nat l :: 8 word) = word_of_nat r"
      by (simp add: bit_eq_iff bit_simps)
    also have "\<dots> \<longleftrightarrow> l = r" using that by (simp add: word_of_nat_eq_iff take_bit_eq_mod)
    finally show ?thesis .
  qed
  have "byte_difference xs ys = 0 \<longleftrightarrow> (\<forall>(l, r) \<in> set (zip xs ys). (word_of_nat l XOR word_of_nat r :: 8 word) = 0)"
    unfolding byte_difference_def foldl_or_zero by simp
  also have "\<dots> \<longleftrightarrow> (\<forall>(l, r) \<in> set (zip xs ys). l = r)"
  proof (intro ball_cong refl)
    fix z
    assume z: "z \<in> set (zip xs ys)"
    then have "fst z < 256" "snd z < 256"
      using assms(2,3) set_zip_leftD [of "fst z" "snd z" xs ys] set_zip_rightD [of "fst z" "snd z" xs ys] by auto
    then show "(case z of (l, r) \<Rightarrow> (word_of_nat l XOR word_of_nat r :: 8 word) = 0) = (case z of (l, r) \<Rightarrow> l = r)"
      using eq by (cases z) simp
  qed
  also have "\<dots> \<longleftrightarrow> xs = ys" using assms(1) by (induction xs ys rule: list_induct2) auto
  finally show ?thesis .
qed

lemma utf8_bytes_bound: "c < 0x110000 \<Longrightarrow> b \<in> set (utf8_bytes c) \<Longrightarrow> b < 256"
  by (auto simp: utf8_bytes_def split: if_splits)

lemma as_bytes_bound: "\<forall>c \<in> set s. c < 0x110000 \<Longrightarrow> b \<in> set (as_bytes s) \<Longrightarrow> b < 256"
  by (auto simp: as_bytes_def dest: utf8_bytes_bound)

lemma as_bytes_small: "\<forall>b \<in> set (as_bytes s). b < 128 \<Longrightarrow> as_bytes s = s"
proof (rule as_bytes_ascii, rule ballI)
  fix c
  assume h: "\<forall>b \<in> set (as_bytes s). b < 128" "c \<in> set s"
  then have "\<forall>b \<in> set (utf8_bytes c). b < 128" by (auto simp: as_bytes_def)
  moreover have "\<exists>b \<in> set (utf8_bytes c). 128 \<le> b" if "\<not> c < 128" using that by (simp add: utf8_bytes_def)
  ultimately show "c < 128" by (meson linorder_not_less)
qed

section \<open>UTF-8 round trip\<close>

text \<open>A Rust \<open>char\<close>: a code point that is no surrogate.\<close>

definition is_scalar :: "uchar \<Rightarrow> bool" where
  "is_scalar c \<longleftrightarrow> c < 0xD800 \<or> 0xE000 \<le> c \<and> c < 0x110000"

lemma mod64_cont: "cont_byte (128 + n mod 64)"
  by (simp add: cont_byte_def)

lemma digits_64:
  fixes c :: nat
  shows "c div 64 * 64 + c mod 64 = c"
    "c div 4096 * 4096 + c div 64 mod 64 * 64 + c mod 64 = c"
    "c div 262144 * 262144 + c div 4096 mod 64 * 4096 + c div 64 mod 64 * 64 + c mod 64 = c"
proof -
  have "c = 64 * (c div 64) + c mod 64" "c div 64 = 64 * (c div 64 div 64) + c div 64 mod 64"
    "c div 64 div 64 = 64 * (c div 64 div 64 div 64) + c div 64 div 64 mod 64"
    by simp_all
  moreover have "c div 64 div 64 = c div 4096" "c div 64 div 64 div 64 = c div 262144"
    "c div 64 div 64 mod 64 = c div 4096 mod 64"
    by (simp_all add: div_mult2_eq [symmetric])
  ultimately show "c div 64 * 64 + c mod 64 = c"
    "c div 4096 * 4096 + c div 64 mod 64 * 64 + c mod 64 = c"
    "c div 262144 * 262144 + c div 4096 mod 64 * 4096 + c div 64 mod 64 * 64 + c mod 64 = c"
    by linarith+
qed

lemma mod_block:
  fixes q :: nat
  assumes "a \<le> q" "q < a + b" "a mod m = 0" "b \<le> m"
  shows "q mod m < b"
proof -
  have "q = a + (q - a)" using assms(1) by simp
  then have "q mod m = (a mod m + (q - a) mod m) mod m" by (metis mod_add_eq)
  moreover have "q - a < b" using assms(1,2) by linarith
  ultimately show ?thesis using assms(3,4) by simp
qed

lemma utf8_decode_char:
  assumes "is_scalar c"
  shows "utf8_decode (utf8_bytes c @ r) = map_option (Cons c) (utf8_decode r)"
proof -
  consider "c < 128" | "128 \<le> c" "c < 2048" | "2048 \<le> c" "c < 65536" | "65536 \<le> c" "c < 0x110000"
    using assms unfolding is_scalar_def by linarith
  then show ?thesis
  proof cases
    case 1
    then show ?thesis by (simp add: utf8_bytes_def)
  next
    case 2
    define q where "q = c div 64"
    have "2 \<le> q" "q \<le> 31" using 2 by (simp_all add: q_def)
    with 2 show ?thesis using digits_64(1) [of c] by (simp add: utf8_bytes_def mod64_cont q_def [symmetric])
  next
    case 3
    have b: "c div 4096 \<le> 15" using 3 by simp
    have "c div 4096 = 0 \<Longrightarrow> 32 \<le> c div 64 mod 64" using 3 by simp
    moreover have "c div 64 mod 64 \<le> 31" if "c div 4096 = 13"
    proof -
      have "c < 57344" using that by simp
      then have "c < 0xD800" using assms by (simp add: is_scalar_def)
      then have "c div 64 < 832 + 32" by simp
      moreover have "832 \<le> c div 64" using that by simp
      ultimately show ?thesis using mod_block [of 832 "c div 64" 32 64] by simp
    qed
    ultimately show ?thesis using 3 b digits_64(2) [of c] by (simp add: utf8_bytes_def mod64_cont)
  next
    case 4
    have b: "c div 262144 \<le> 4" using 4 by simp
    have "c div 262144 = 0 \<Longrightarrow> 16 \<le> c div 4096 mod 64" using 4 by simp
    moreover have "c div 262144 = 4 \<Longrightarrow> c div 4096 mod 64 \<le> 15"
    proof -
      assume q: "c div 262144 = 4"
      have "c div 4096 < 256 + 16" "256 \<le> c div 4096" using 4 q by simp_all
      then show ?thesis using mod_block [of 256 "c div 4096" 16 64] by simp
    qed
    ultimately show ?thesis using 4 b digits_64(3) [of c] by (simp add: utf8_bytes_def mod64_cont)
  qed
qed

lemma utf8_round_trip: "list_all is_scalar s \<Longrightarrow> utf8_decode (as_bytes s) = Some s"
  by (induction s) (simp_all add: as_bytes_def utf8_decode_char)

interpretation utf8: text_codec as_bytes utf8_decode "list_all is_scalar"
  by unfold_locales (rule utf8_round_trip)

end
