(* ===== verification/Token_Registry.thy ===== *)
theory Token_Registry
  imports Go_Time Ordered_Map Framing Store_Error Byte_Text
begin

unbundle bit_operations_syntax

text \<open>
  \<^verbatim>\<open>symvault-store/src/token_registry.rs\<close>: the registry of scoped MCP tokens and of OAuth clients.

  Every mutation of the source opens the vault root, takes the write lock, reads the whole file,
  changes the map in memory and publishes the whole file again. The change in memory is a \<open>_step\<close>
  function on the entries, the frame around it is \<open>locked_update\<close>. The file system (opening,
  locking, reading, atomic replacement: other modules of the store) is the record \<open>registry_fs\<close>, the
  JSON encoding and SHA-256 are the record \<open>registry_codec\<close>. Random bytes are arguments, durations
  are nanoseconds, and a failing \<open>expect\<close> is the error \<open>Panicked\<close>.
\<close>

section \<open>Records\<close>

record token_record =
  tk_id :: ustring
  tk_label :: ustring
  tk_hash :: ustring
  tk_prefix :: ustring
  tk_allowed_tools :: "ustring list option"
  tk_tool_registry_hash :: ustring
  tk_agent_name :: ustring
  tk_created_at :: ustring
  tk_expires_at :: "ustring option"
  tk_last_used_at :: "ustring option"
  tk_revoked :: bool
  tk_revoked_at :: "ustring option"
  tk_refresh_token_hash :: ustring
  tk_refresh_expires_at :: "ustring option"

type_synonym entries = "(ustring \<times> token_record) list"

record new_token =
  nt_label :: ustring
  nt_allowed_tools :: "ustring list"
  nt_agent_name :: ustring
  nt_ttl :: "int option"
  nt_tool_registry_hash :: ustring

record oauth_client =
  oc_client_id :: ustring
  oc_redirect_uris :: "ustring list"
  oc_created_at :: ustring
  oc_ttl_seconds :: "int option"
  oc_expires_at :: "ustring option"

record oauth_client_file =
  of_version :: int
  of_clients :: "(ustring \<times> oauth_client option) list"

datatype open_result = Loaded "nat list" | Absent | OpenFailed ustring | ReadFailed store_error

record 'f registry_fs =
  rf_open_root :: "'f \<Rightarrow> store_error + unit"
  rf_lock :: "'f \<Rightarrow> store_error + unit"
  rf_load :: "'f \<Rightarrow> ustring \<Rightarrow> open_result"
  rf_replace :: "'f \<Rightarrow> ustring \<Rightarrow> nat list \<Rightarrow> (ustring + unit) \<times> 'f"

record registry_codec =
  rc_decode :: "nat list \<Rightarrow> ustring + (ustring \<times> token_record option) list option"
  rc_encode :: "int \<Rightarrow> entries \<Rightarrow> ustring + nat list"
  rc_oauth_decode :: "nat list \<Rightarrow> ustring + oauth_client_file"
  rc_oauth_encode :: "oauth_client_file \<Rightarrow> ustring + nat list"
  rc_sha256_hex :: "nat list \<Rightarrow> ustring"

text \<open>The random bytes of an operation, each an error text when the source fails.\<close>

record token_random =
  rt_token :: "ustring + nat list"
  rt_id :: "ustring + nat list"
  rt_refresh :: "ustring + nat list"

definition TOKEN_REGISTRY_FILE :: ustring where "TOKEN_REGISTRY_FILE = lit ''mcp-tokens.json''"
definition TOKEN_REGISTRY_VERSION :: int where "TOKEN_REGISTRY_VERSION = 2"
definition OAUTH_CLIENTS_FILE :: ustring where "OAUTH_CLIENTS_FILE = lit ''mcp-oauth-clients.json''"
definition MAX_OAUTH_CLIENTS_BYTES :: nat where "MAX_OAUTH_CLIENTS_BYTES = 1048576"

section \<open>Helpers\<close>

definition parse_rfc3339 :: "time_lib \<Rightarrow> ustring \<Rightarrow> unit + odt" where
  "parse_rfc3339 T v = (case parse_go_rfc3339 T v of Some w \<Rightarrow> Inr w | None \<Rightarrow> Inl ())"

definition is_expired :: "time_lib \<Rightarrow> token_record \<Rightarrow> odt \<Rightarrow> bool" where
  "is_expired T e now =
     (case tk_expires_at e of
        None \<Rightarrow> False
      | Some v \<Rightarrow> (case parse_rfc3339 T v of
                   Inl _ \<Rightarrow> False
                 | Inr x \<Rightarrow> tl_unix_nanos T x < tl_unix_nanos T now))"

definition purge_expired :: "time_lib \<Rightarrow> entries \<Rightarrow> odt \<Rightarrow> entries" where
  "purge_expired T es now = filter (\<lambda>(_, e). \<not> is_expired T e now) es"

definition expiry_after :: "time_lib \<Rightarrow> odt \<Rightarrow> int \<Rightarrow> store_error + ustring" where
  "expiry_after T now ttl =
     (case tl_checked_add T now ttl of
        Some w \<Rightarrow> Inr (go_rfc3339 T w)
      | None \<Rightarrow> Inl (Config (lit ''create token: expiry outside supported range'')))"

text \<open>A positive time to live as an expiry text, and none otherwise.\<close>

definition expiry_of_ttl :: "time_lib \<Rightarrow> odt \<Rightarrow> int option \<Rightarrow> store_error + ustring option" where
  "expiry_of_ttl T now ttl =
     (case ttl of
        Some d \<Rightarrow> if 0 < d then res_bind (expiry_after T now d) (\<lambda>v. Inr (Some v)) else Inr None
      | None \<Rightarrow> Inr None)"

definition token_id :: "odt \<Rightarrow> nat list \<Rightarrow> ustring" where
  "token_id now b =
     lit ''tok-'' @ pad_int 4 (od_year now) @ pad 2 (od_month now) @ pad 2 (od_day now) @ ch_minus # encode_hex b"

definition random_or :: "ustring \<Rightarrow> ustring + nat list \<Rightarrow> store_error + nat list" where
  "random_or what r = (case r of Inr b \<Rightarrow> Inr b | Inl e \<Rightarrow> Inl (Config (what @ e)))"

definition new_record ::
  "time_lib \<Rightarrow> registry_codec \<Rightarrow> token_random \<Rightarrow> new_token \<Rightarrow> odt \<Rightarrow> store_error + token_record \<times> ustring" where
  "new_record T R rnd new now =
     res_bind (random_or (lit ''create token: generate token: '') (rt_token rnd)) (\<lambda>token_bytes.
     res_bind (random_or (lit ''create token: generate token: '') (rt_id rnd)) (\<lambda>id_bytes.
     res_bind (expiry_of_ttl T now (nt_ttl new)) (\<lambda>expires_at.
       let raw = encode_hex token_bytes
       in Inr (\<lparr>tk_id = token_id now id_bytes, tk_label = nt_label new, tk_hash = rc_sha256_hex R (as_bytes raw),
                tk_prefix = take 4 raw, tk_allowed_tools = Some (nt_allowed_tools new),
                tk_tool_registry_hash = nt_tool_registry_hash new, tk_agent_name = nt_agent_name new,
                tk_created_at = go_rfc3339 T now, tk_expires_at = expires_at, tk_last_used_at = None,
                tk_revoked = False, tk_revoked_at = None, tk_refresh_token_hash = [],
                tk_refresh_expires_at = None\<rparr>, raw))))"

section \<open>Lookups\<close>

definition is_active_at :: "time_lib \<Rightarrow> token_record \<Rightarrow> odt \<Rightarrow> unit + bool" where
  "is_active_at T token now =
     (if tk_revoked token then Inr False
      else (case tk_expires_at token of
              None \<Rightarrow> Inr True
            | Some v \<Rightarrow> res_bind (parse_rfc3339 T v) (\<lambda>x. Inr (tl_unix_nanos T now \<le> tl_unix_nanos T x))))"

definition lookup_raw_bearer ::
  "time_lib \<Rightarrow> registry_codec \<Rightarrow> entries \<Rightarrow> ustring \<Rightarrow> odt \<Rightarrow> unit + token_record option" where
  "lookup_raw_bearer T R es bearer now =
     (let hash = rc_sha256_hex R (as_bytes bearer)
      in case filter (\<lambda>t. tk_hash t = hash) (map snd es) of
           [] \<Rightarrow> Inr None
         | [token] \<Rightarrow> res_bind (is_active_at T token now) (\<lambda>a. Inr (if a then Some token else None))
         | _ \<Rightarrow> Inr None)"

definition is_tool_allowed :: "token_record \<Rightarrow> ustring \<Rightarrow> bool" where
  "is_tool_allowed token name =
     (case tk_allowed_tools token of
        None \<Rightarrow> False
      | Some allowed \<Rightarrow> list_ex (\<lambda>n. n = lit ''*'' \<or> n = name) allowed)"

section \<open>The file\<close>

definition reg_read :: "registry_codec \<Rightarrow> 'f registry_fs \<Rightarrow> 'f \<Rightarrow> store_error + entries" where
  "reg_read R F s =
     (case rf_load F s TOKEN_REGISTRY_FILE of
        Absent \<Rightarrow> Inr []
      | OpenFailed e \<Rightarrow> Inl (Config (lit ''load token registry: read token registry: '' @ e))
      | ReadFailed e \<Rightarrow> Inl e
      | Loaded b \<Rightarrow>
          if b = [] then Inr []
          else (case rc_decode R b of
                  Inl e \<Rightarrow> Inl (Config (lit ''load token registry: parse token registry: '' @ e))
                | Inr None \<Rightarrow> Inr []
                | Inr (Some l) \<Rightarrow> Inr (List.map_filter (\<lambda>(k, r). map_option (Pair k) r) l)))"

definition reg_write :: "registry_codec \<Rightarrow> 'f registry_fs \<Rightarrow> entries \<Rightarrow> 'f \<Rightarrow> (store_error + unit) \<times> 'f" where
  "reg_write R F es s =
     (case rc_encode R TOKEN_REGISTRY_VERSION es of
        Inl e \<Rightarrow> (Inl (Config (lit ''save token registry: '' @ e)), s)
      | Inr b \<Rightarrow>
          (case rf_replace F s TOKEN_REGISTRY_FILE (b @ [10]) of
             (Inl e, s') \<Rightarrow> (Inl (Config (lit ''save token registry: '' @ e)), s')
           | (Inr _, s') \<Rightarrow> (Inr (), s')))"

definition reg_open :: "registry_codec \<Rightarrow> 'f registry_fs \<Rightarrow> 'f \<Rightarrow> store_error + entries" where
  "reg_open R F s = res_bind (rf_open_root F s) (\<lambda>_. res_bind (rf_lock F s) (\<lambda>_. reg_read R F s))"

text \<open>The frame of a mutation: a step answers an error, or a result with the new entries when they
  are to be written.\<close>

definition locked_update ::
  "registry_codec \<Rightarrow> 'f registry_fs \<Rightarrow> (entries \<Rightarrow> store_error + 'a \<times> entries option) \<Rightarrow> 'f \<Rightarrow>
   (store_error + 'a) \<times> 'f" where
  "locked_update R F step s =
     (case reg_open R F s of
        Inl e \<Rightarrow> (Inl e, s)
      | Inr es \<Rightarrow>
          (case step es of
             Inl e \<Rightarrow> (Inl e, s)
           | Inr (a, None) \<Rightarrow> (Inr a, s)
           | Inr (a, Some es') \<Rightarrow>
               (case reg_write R F es' s of
                  (Inl e, s') \<Rightarrow> (Inl e, s')
                | (Inr _, s') \<Rightarrow> (Inr a, s'))))"

section \<open>Mutations\<close>

definition create_step ::
  "time_lib \<Rightarrow> registry_codec \<Rightarrow> token_random \<Rightarrow> new_token \<Rightarrow> odt \<Rightarrow> entries \<Rightarrow>
   store_error + (token_record \<times> ustring) \<times> entries option" where
  "create_step T R rnd new now es =
     res_bind (new_record T R rnd new now) (\<lambda>(record, raw).
       Inr ((record, raw), Some (bt_insert (tk_id record) record es)))"

definition registry_create ::
  "time_lib \<Rightarrow> registry_codec \<Rightarrow> 'f registry_fs \<Rightarrow> token_random \<Rightarrow> new_token \<Rightarrow> odt \<Rightarrow> 'f \<Rightarrow>
   (store_error + token_record \<times> ustring) \<times> 'f" where
  "registry_create T R F rnd new now = locked_update R F (create_step T R rnd new now)"

text \<open>\<open>str::get(..n)\<close>: the prefix of \<open>n\<close> bytes, when that is a character boundary.\<close>

fun byte_prefix :: "nat \<Rightarrow> ustring \<Rightarrow> ustring option" where
  "byte_prefix n s =
     (if n = 0 then Some []
      else (case s of
              [] \<Rightarrow> None
            | c # r \<Rightarrow> if utf8_width c \<le> n then map_option (Cons c) (byte_prefix (n - utf8_width c) r) else None))"

declare byte_prefix.simps [simp del]

definition legacy_label :: ustring where "legacy_label = lit ''legacy (auto-migrated, unscoped)''"

definition import_legacy_step ::
  "time_lib \<Rightarrow> registry_codec \<Rightarrow> token_random \<Rightarrow> ustring \<Rightarrow> odt \<Rightarrow> entries \<Rightarrow>
   store_error + ustring option \<times> entries option" where
  "import_legacy_step T R rnd raw_token now es0 =
     (let es = filter (\<lambda>(_, e). tk_hash e \<noteq> []) es0
      in if es \<noteq> [] then Inr (None, None)
         else
           (case byte_prefix 4 raw_token of
              None \<Rightarrow> Inl (Config (lit ''legacy MCP token is shorter than 4 bytes''))
            | Some prefix \<Rightarrow>
                res_bind (random_or (lit ''migrate legacy token: '') (rt_id rnd)) (\<lambda>id_bytes.
                  let i = token_id now id_bytes;
                      record = \<lparr>tk_id = i, tk_label = legacy_label, tk_hash = rc_sha256_hex R (as_bytes raw_token),
                        tk_prefix = prefix, tk_allowed_tools = Some [lit ''*''], tk_tool_registry_hash = [],
                        tk_agent_name = lit ''legacy'', tk_created_at = go_rfc3339 T now, tk_expires_at = None,
                        tk_last_used_at = None, tk_revoked = False, tk_revoked_at = None,
                        tk_refresh_token_hash = [], tk_refresh_expires_at = None\<rparr>
                  in Inr (Some i, Some (bt_insert i record es)))))"

definition import_legacy ::
  "time_lib \<Rightarrow> registry_codec \<Rightarrow> 'f registry_fs \<Rightarrow> token_random \<Rightarrow> ustring \<Rightarrow> odt \<Rightarrow> 'f \<Rightarrow>
   (store_error + ustring option) \<times> 'f" where
  "import_legacy T R F rnd raw_token now = locked_update R F (import_legacy_step T R rnd raw_token now)"

definition create_legacy_step ::
  "time_lib \<Rightarrow> registry_codec \<Rightarrow> token_random \<Rightarrow> odt \<Rightarrow> entries \<Rightarrow>
   store_error + ustring option \<times> entries option" where
  "create_legacy_step T R rnd now es0 =
     (let es = filter (\<lambda>(_, e). tk_hash e \<noteq> []) es0
      in if es \<noteq> [] then Inr (None, None)
         else res_bind (new_record T R rnd
                \<lparr>nt_label = legacy_label, nt_allowed_tools = [lit ''*''], nt_agent_name = lit ''legacy'',
                 nt_ttl = None, nt_tool_registry_hash = []\<rparr> now)
              (\<lambda>(record, _). Inr (Some (tk_id record), Some (bt_insert (tk_id record) record es))))"

definition create_legacy ::
  "time_lib \<Rightarrow> registry_codec \<Rightarrow> 'f registry_fs \<Rightarrow> token_random \<Rightarrow> odt \<Rightarrow> 'f \<Rightarrow>
   (store_error + ustring option) \<times> 'f" where
  "create_legacy T R F rnd now = locked_update R F (create_legacy_step T R rnd now)"

text \<open>A fresh refresh token on a fresh record.\<close>

definition with_refresh ::
  "time_lib \<Rightarrow> registry_codec \<Rightarrow> ustring \<Rightarrow> token_random \<Rightarrow> int option \<Rightarrow> odt \<Rightarrow> token_record \<Rightarrow>
   store_error + token_record \<times> ustring" where
  "with_refresh T R what rnd refresh_ttl now record =
     res_bind (random_or what (rt_refresh rnd)) (\<lambda>refresh_bytes.
     res_bind (expiry_of_ttl T now refresh_ttl) (\<lambda>refresh_expires_at.
       let raw_refresh = encode_hex refresh_bytes
       in Inr (record\<lparr>tk_refresh_token_hash := rc_sha256_hex R (as_bytes raw_refresh),
                      tk_refresh_expires_at := refresh_expires_at\<rparr>, raw_refresh)))"

definition create_with_refresh_step ::
  "time_lib \<Rightarrow> registry_codec \<Rightarrow> token_random \<Rightarrow> new_token \<Rightarrow> int option \<Rightarrow> odt \<Rightarrow> entries \<Rightarrow>
   store_error + (token_record \<times> ustring \<times> ustring) \<times> entries option" where
  "create_with_refresh_step T R rnd new refresh_ttl now es =
     res_bind (new_record T R rnd new now) (\<lambda>(record0, raw_access).
     res_bind (with_refresh T R (lit ''create token: generate refresh token: '') rnd refresh_ttl now record0)
       (\<lambda>(record, raw_refresh).
       Inr ((record, raw_access, raw_refresh), Some (bt_insert (tk_id record) record es))))"

definition create_with_refresh ::
  "time_lib \<Rightarrow> registry_codec \<Rightarrow> 'f registry_fs \<Rightarrow> token_random \<Rightarrow> new_token \<Rightarrow> int option \<Rightarrow> odt \<Rightarrow> 'f \<Rightarrow>
   (store_error + token_record \<times> ustring \<times> ustring) \<times> 'f" where
  "create_with_refresh T R F rnd new refresh_ttl now =
     locked_update R F (create_with_refresh_step T R rnd new refresh_ttl now)"

definition revoke_record :: "time_lib \<Rightarrow> odt \<Rightarrow> token_record \<Rightarrow> token_record" where
  "revoke_record T now e = e\<lparr>tk_revoked := True, tk_revoked_at := Some (go_rfc3339 T now)\<rparr>"

definition opt_expiry :: "time_lib \<Rightarrow> ustring \<Rightarrow> ustring option \<Rightarrow> store_error + odt option" where
  "opt_expiry T what v =
     (case v of
        None \<Rightarrow> Inr None
      | Some x \<Rightarrow> (case parse_rfc3339 T x of Inr w \<Rightarrow> Inr (Some w) | Inl _ \<Rightarrow> Inl (Config what)))"

definition past :: "time_lib \<Rightarrow> odt \<Rightarrow> odt option \<Rightarrow> bool" where
  "past T now expiry = (case expiry of None \<Rightarrow> False | Some x \<Rightarrow> tl_unix_nanos T x \<le> tl_unix_nanos T now)"

text \<open>The request for the replacement of a token: same label, scope and agent, and the rest of its life.\<close>

definition rotated_request ::
  "time_lib \<Rightarrow> int option \<Rightarrow> ustring \<Rightarrow> odt \<Rightarrow> token_record \<Rightarrow> odt option \<Rightarrow> new_token" where
  "rotated_request T access_ttl_if_expired registry_hash now old access_expiry =
     \<lparr>nt_label = tk_label old,
      nt_allowed_tools = (case tk_allowed_tools old of Some a \<Rightarrow> a | None \<Rightarrow> []),
      nt_agent_name = tk_agent_name old,
      nt_ttl = (case access_expiry of
                  Some x \<Rightarrow> if past T now access_expiry then access_ttl_if_expired
                            else Some (tl_unix_nanos T x - tl_unix_nanos T now)
                | None \<Rightarrow> None),
      nt_tool_registry_hash = registry_hash\<rparr>"

definition rotate_old_step ::
  "time_lib \<Rightarrow> registry_codec \<Rightarrow> token_random \<Rightarrow> new_token \<Rightarrow> int option \<Rightarrow> odt \<Rightarrow> entries \<Rightarrow> token_record \<Rightarrow>
   store_error + (token_record \<times> ustring \<times> ustring) \<times> entries option" where
  "rotate_old_step T R rnd new refresh_ttl now es old =
     res_bind (new_record T R rnd new now) (\<lambda>(rotated0, raw_access).
     res_bind (with_refresh T R (lit ''rotate token: generate refresh token: '') rnd refresh_ttl now rotated0)
       (\<lambda>(rotated, raw_refresh).
       case map_of es (tk_id old) of
         None \<Rightarrow> Inl (Panicked (lit ''old refresh token remains in locked registry''))
       | Some old_entry \<Rightarrow>
           Inr ((rotated, raw_access, raw_refresh),
                Some (bt_insert (tk_id rotated) rotated
                  (bt_insert (tk_id old) (revoke_record T now old_entry) es)))))"

definition rotate_via_refresh_step ::
  "time_lib \<Rightarrow> registry_codec \<Rightarrow> token_random \<Rightarrow> ustring \<Rightarrow> int option \<Rightarrow> ustring \<Rightarrow> odt \<Rightarrow> entries \<Rightarrow>
   store_error + (token_record \<times> ustring \<times> ustring) \<times> entries option" where
  "rotate_via_refresh_step T R rnd raw_refresh_token access_ttl_if_expired registry_hash now es =
     (case find (\<lambda>t. tk_refresh_token_hash t = rc_sha256_hex R (as_bytes raw_refresh_token) \<and> \<not> tk_revoked t)
             (map snd es) of
        None \<Rightarrow> Inl (Config (lit ''invalid refresh token''))
      | Some old \<Rightarrow>
          res_bind (opt_expiry T (lit ''invalid token expiry'') (tk_expires_at old)) (\<lambda>access_expiry.
          res_bind (opt_expiry T (lit ''invalid refresh expiry'') (tk_refresh_expires_at old)) (\<lambda>refresh_expiry.
            if (past T now access_expiry \<and> access_ttl_if_expired = None) \<or> past T now refresh_expiry
            then Inl (Config (lit ''invalid refresh token: expired''))
            else rotate_old_step T R rnd
                   (rotated_request T access_ttl_if_expired registry_hash now old access_expiry)
                   (map_option (\<lambda>x. max (tl_unix_nanos T x - tl_unix_nanos T now) 0) refresh_expiry) now es old)))"

definition rotate_via_refresh_token ::
  "time_lib \<Rightarrow> registry_codec \<Rightarrow> 'f registry_fs \<Rightarrow> token_random \<Rightarrow> ustring \<Rightarrow> ustring \<Rightarrow> odt \<Rightarrow> 'f \<Rightarrow>
   (store_error + token_record \<times> ustring \<times> ustring) \<times> 'f" where
  "rotate_via_refresh_token T R F rnd raw_refresh_token registry_hash now =
     locked_update R F (rotate_via_refresh_step T R rnd raw_refresh_token None registry_hash now)"

definition rotate_via_refresh_token_with_access_ttl ::
  "time_lib \<Rightarrow> registry_codec \<Rightarrow> 'f registry_fs \<Rightarrow> token_random \<Rightarrow> ustring \<Rightarrow> int \<Rightarrow> ustring \<Rightarrow> odt \<Rightarrow> 'f \<Rightarrow>
   (store_error + token_record \<times> ustring \<times> ustring) \<times> 'f" where
  "rotate_via_refresh_token_with_access_ttl T R F rnd raw_refresh_token access_ttl registry_hash now s =
     (if access_ttl \<le> 0 then (Inl (Config (lit ''expired access-token replacement TTL must be positive'')), s)
      else locked_update R F (rotate_via_refresh_step T R rnd raw_refresh_token (Some access_ttl) registry_hash now) s)"

text \<open>The first entry that satisfies a predicate, changed in place.\<close>

fun update_first :: "(token_record \<Rightarrow> bool) \<Rightarrow> (token_record \<Rightarrow> token_record) \<Rightarrow> entries \<Rightarrow> entries option" where
  "update_first P f [] = None"
| "update_first P f ((k, e) # es) =
     (if P e then Some ((k, f e) # es) else map_option (Cons (k, e)) (update_first P f es))"

definition revoke_step ::
  "time_lib \<Rightarrow> ustring \<Rightarrow> ustring \<Rightarrow> odt \<Rightarrow> entries \<Rightarrow> store_error + bool \<times> entries option" where
  "revoke_step T agent_name i now es0 =
     (let es = purge_expired T es0 now
      in if \<not> list_ex (\<lambda>(_, e). tk_id e = i \<and> tk_agent_name e = agent_name) es then Inr (False, None)
         else (case update_first (\<lambda>e. tk_id e = i \<and> \<not> tk_revoked e) (revoke_record T now) es of
                 None \<Rightarrow> Inr (False, None)
               | Some es' \<Rightarrow> Inr (True, Some es')))"

definition registry_revoke ::
  "time_lib \<Rightarrow> registry_codec \<Rightarrow> 'f registry_fs \<Rightarrow> ustring \<Rightarrow> ustring \<Rightarrow> odt \<Rightarrow> 'f \<Rightarrow> (store_error + bool) \<times> 'f" where
  "registry_revoke T R F agent_name i now = locked_update R F (revoke_step T agent_name i now)"

definition revoke_agent :: "time_lib \<Rightarrow> ustring \<Rightarrow> odt \<Rightarrow> token_record \<Rightarrow> token_record" where
  "revoke_agent T agent_name now e =
     (if tk_agent_name e = agent_name \<and> \<not> tk_revoked e then revoke_record T now e else e)"

record revoke_all_outcome =
  ra_revoked :: nat
  ra_save_error :: "store_error option"

definition revoke_all_for_agent ::
  "time_lib \<Rightarrow> registry_codec \<Rightarrow> 'f registry_fs \<Rightarrow> ustring \<Rightarrow> odt \<Rightarrow> 'f \<Rightarrow>
   (store_error + revoke_all_outcome) \<times> 'f" where
  "revoke_all_for_agent T R F agent_name now s =
     (case reg_open R F s of
        Inl e \<Rightarrow> (Inl e, s)
      | Inr es0 \<Rightarrow>
          (let es = purge_expired T es0 now;
               revoked = length (filter (\<lambda>(_, e). tk_agent_name e = agent_name \<and> \<not> tk_revoked e) es);
               es' = map (\<lambda>(k, e). (k, revoke_agent T agent_name now e)) es
           in if 0 < revoked then
                (case reg_write R F es' s of
                   (Inl e, s') \<Rightarrow> (Inr \<lparr>ra_revoked = revoked, ra_save_error = Some e\<rparr>, s')
                 | (Inr _, s') \<Rightarrow> (Inr \<lparr>ra_revoked = revoked, ra_save_error = None\<rparr>, s'))
              else (Inr \<lparr>ra_revoked = revoked, ra_save_error = None\<rparr>, s)))"

definition rotate_step ::
  "time_lib \<Rightarrow> registry_codec \<Rightarrow> token_random \<Rightarrow> new_token \<Rightarrow> odt \<Rightarrow> entries \<Rightarrow>
   store_error + (token_record \<times> ustring) \<times> entries option" where
  "rotate_step T R rnd new now es0 =
     (let es = map (\<lambda>(k, e). (k, revoke_agent T (nt_agent_name new) now e)) (purge_expired T es0 now)
      in res_bind (new_record T R rnd new now) (\<lambda>(record, raw).
           Inr ((record, raw), Some (bt_insert (tk_id record) record es))))"

definition registry_rotate ::
  "time_lib \<Rightarrow> registry_codec \<Rightarrow> 'f registry_fs \<Rightarrow> token_random \<Rightarrow> new_token \<Rightarrow> odt \<Rightarrow> 'f \<Rightarrow>
   (store_error + token_record \<times> ustring) \<times> 'f" where
  "registry_rotate T R F rnd new now = locked_update R F (rotate_step T R rnd new now)"

section \<open>OAuth clients\<close>

definition read_oauth_clients :: "registry_codec \<Rightarrow> 'f registry_fs \<Rightarrow> 'f \<Rightarrow> store_error + oauth_client_file" where
  "read_oauth_clients R F s =
     (case rf_load F s OAUTH_CLIENTS_FILE of
        Absent \<Rightarrow> Inr \<lparr>of_version = 1, of_clients = []\<rparr>
      | OpenFailed e \<Rightarrow> Inl (Read OAUTH_CLIENTS_FILE e)
      | ReadFailed e \<Rightarrow> Inl e
      | Loaded b \<Rightarrow>
          (case rc_oauth_decode R b of
             Inl e \<Rightarrow> Inl (Config (lit ''parse OAuth client store: '' @ e))
           | Inr f \<Rightarrow> Inr f))"

definition write_oauth_clients ::
  "registry_codec \<Rightarrow> 'f registry_fs \<Rightarrow> oauth_client_file \<Rightarrow> 'f \<Rightarrow> (store_error + unit) \<times> 'f" where
  "write_oauth_clients R F file s =
     (case rc_oauth_encode R file of
        Inl e \<Rightarrow> (Inl (Config (lit ''marshal OAuth client store: '' @ e)), s)
      | Inr b0 \<Rightarrow>
          (let b = b0 @ [10]
           in if MAX_OAUTH_CLIENTS_BYTES < length b then (Inl (Limit OAUTH_CLIENTS_FILE MAX_OAUTH_CLIENTS_BYTES), s)
              else (case rf_replace F s OAUTH_CLIENTS_FILE b of
                      (Inl e, s') \<Rightarrow> (Inl (Config (lit ''write OAuth client store: '' @ e)), s')
                    | (Inr _, s') \<Rightarrow> (Inr (), s'))))"

definition register_oauth_client ::
  "time_lib \<Rightarrow> registry_codec \<Rightarrow> 'f registry_fs \<Rightarrow> ustring + nat list \<Rightarrow> ustring list \<Rightarrow> odt \<Rightarrow> 'f \<Rightarrow>
   (store_error + oauth_client) \<times> 'f" where
  "register_oauth_client T R F rnd redirect_uris now s =
     (case res_bind (rf_open_root F s) (\<lambda>_. res_bind (rf_lock F s) (\<lambda>_. res_bind (read_oauth_clients R F s) (\<lambda>file.
             res_bind (random_or (lit ''register oauth client: '') rnd) (\<lambda>b. Inr (file, encode_hex b))))) of
        Inl e \<Rightarrow> (Inl e, s)
      | Inr (file, client_id) \<Rightarrow>
          (let client = \<lparr>oc_client_id = client_id, oc_redirect_uris = redirect_uris,
                 oc_created_at = go_rfc3339 T now, oc_ttl_seconds = None, oc_expires_at = None\<rparr>
           in case write_oauth_clients R F
                     \<lparr>of_version = 1, of_clients = bt_insert client_id (Some client) (of_clients file)\<rparr> s of
                (Inl e, s') \<Rightarrow> (Inl e, s')
              | (Inr _, s') \<Rightarrow> (Inr client, s')))"

definition get_oauth_client ::
  "time_lib \<Rightarrow> registry_codec \<Rightarrow> 'f registry_fs \<Rightarrow> ustring \<Rightarrow> odt \<Rightarrow> 'f \<Rightarrow> store_error + oauth_client option" where
  "get_oauth_client T R F client_id now s =
     res_bind (read_oauth_clients R F s) (\<lambda>file.
       case map_of (of_clients file) client_id of
         Some (Some client) \<Rightarrow>
           (case oc_expires_at client of
              None \<Rightarrow> Inr (Some client)
            | Some v \<Rightarrow>
                (case parse_rfc3339 T v of
                   Inl _ \<Rightarrow> Inl (Config (lit ''invalid OAuth client expiry''))
                 | Inr x \<Rightarrow> Inr (if tl_unix_nanos T x < tl_unix_nanos T now then None else Some client)))
       | _ \<Rightarrow> Inr None)"

text \<open>PKCE: the byte-wise comparison accumulates differences and never stops early.\<close>

definition verifier_byte :: "nat \<Rightarrow> bool" where
  "verifier_byte b \<longleftrightarrow> is_digit b \<or> (65 \<le> b \<and> b \<le> 90) \<or> (97 \<le> b \<and> b \<le> 122) \<or> b \<in> set (lit ''-._~'')"

definition verify_s256_code_verifier ::
  "(nat list \<Rightarrow> nat list) \<Rightarrow> (nat list \<Rightarrow> ustring) \<Rightarrow> ustring \<Rightarrow> ustring \<Rightarrow> bool" where
  "verify_s256_code_verifier sha b64url verifier challenge =
     (if \<not> (43 \<le> str_len verifier \<and> str_len verifier \<le> 128) \<or>
         \<not> list_all verifier_byte (as_bytes verifier) \<or> challenge = [] then False
      else (let expected = b64url (sha (as_bytes verifier))
            in if str_len expected \<noteq> str_len challenge then False
               else byte_difference (as_bytes expected) (as_bytes challenge) = 0))"

section \<open>Fresh records\<close>

lemma new_record_Inr:
  assumes "new_record T R rnd new now = Inr (record, raw)"
  shows "tk_hash record = rc_sha256_hex R (as_bytes raw)" "tk_agent_name record = nt_agent_name new"
    "tk_allowed_tools record = Some (nt_allowed_tools new)" "\<not> tk_revoked record" "tk_label record = nt_label new"
    "expiry_of_ttl T now (nt_ttl new) = Inr (tk_expires_at record)" "tk_refresh_token_hash record = []"
  using assms by (auto simp: new_record_def Let_def res_bind_Inr_iff)

lemma with_refresh_Inr:
  assumes "with_refresh T R what rnd ttl now record = Inr (record', raw)"
  shows "record' = record\<lparr>tk_refresh_token_hash := rc_sha256_hex R (as_bytes raw),
      tk_refresh_expires_at := tk_refresh_expires_at record'\<rparr>"
    "expiry_of_ttl T now ttl = Inr (tk_refresh_expires_at record')"
  using assms by (auto simp: with_refresh_def Let_def res_bind_Inr_iff)

lemma expiry_of_ttl_Inr:
  assumes "time_ok T" "odt_wf T now" "0 \<le> tl_unix_nanos T now" "expiry_of_ttl T now ttl = Inr e"
  shows "(\<exists>d v x. ttl = Some d \<and> 0 < d \<and> e = Some v \<and> parse_go_rfc3339 T v = Some x \<and>
      tl_unix_nanos T x = tl_unix_nanos T now + d) \<or> e = None \<and> (\<forall>d. ttl = Some d \<longrightarrow> d \<le> 0)"
proof (cases "\<exists>d. ttl = Some d \<and> 0 < d")
  case True
  then obtain d where d: "ttl = Some d" "0 < d" by blast
  obtain w where w: "tl_checked_add T now d = Some w" "e = Some (go_rfc3339 T w)"
    using assms(4) d by (auto simp: expiry_of_ttl_def expiry_after_def res_bind_Inr_iff split: option.splits)
  have wf: "odt_wf T w" "tl_unix_nanos T w = tl_unix_nanos T now + d"
    using assms(1,2) w(1) by (auto simp: time_ok_def)
  have "0 \<le> tl_unix_nanos T w" using wf(2) assms(3) d(2) by simp
  then have "0 \<le> od_year (tl_to_utc T w)" "od_year (tl_to_utc T w) \<le> 9999"
    using assms(1) wf(1) by (auto simp: time_ok_def)
  then show ?thesis using go_rfc3339_reads_back [OF assms(1) wf(1)] w(2) wf(2) d by auto
next
  case False
  then show ?thesis using assms(4) by (auto simp: expiry_of_ttl_def split: option.splits if_splits)
qed

section \<open>Well-formed registries\<close>

text \<open>Keys ascend and every record stands under its own identifier.\<close>

definition reg_wf :: "entries \<Rightarrow> bool" where
  "reg_wf es \<longleftrightarrow> bt_inv es \<and> (\<forall>(k, e) \<in> set es. tk_id e = k)"

lemma reg_wf_Nil [simp]: "reg_wf []"
  by (simp add: reg_wf_def)

lemma reg_wf_single [simp]: "reg_wf [(k, e)] \<longleftrightarrow> tk_id e = k"
  by (simp add: reg_wf_def bt_inv_def)

lemma reg_wf_insert: "reg_wf es \<Longrightarrow> tk_id e = k \<Longrightarrow> reg_wf (bt_insert k e es)"
  by (auto simp: reg_wf_def bt_inv_insert bt_insert_set)

lemma reg_wf_filter: "reg_wf es \<Longrightarrow> reg_wf (filter P es)"
  by (auto simp: reg_wf_def bt_inv_filter)

lemma reg_wf_purge: "reg_wf es \<Longrightarrow> reg_wf (purge_expired T es now)"
  by (simp add: purge_expired_def reg_wf_filter)

lemma reg_wf_map:
  assumes "reg_wf es" "\<And>e. tk_id (f e) = tk_id e"
  shows "reg_wf (map (\<lambda>(k, e). (k, f e)) es)"
  using assms bt_inv_map_val [of "\<lambda>_. f" es] by (auto simp: reg_wf_def)

lemma reg_wf_id: "reg_wf es \<Longrightarrow> e \<in> snd ` set es \<Longrightarrow> map_of es (tk_id e) = Some e"
  unfolding reg_wf_def by (metis (mono_tags, lifting) bt_in_iff case_prodD imageE prod.collapse)

lemma revoke_record_simps [simp]:
  "tk_id (revoke_record T now e) = tk_id e" "tk_revoked (revoke_record T now e)"
  "tk_hash (revoke_record T now e) = tk_hash e" "tk_agent_name (revoke_record T now e) = tk_agent_name e"
  "tk_refresh_token_hash (revoke_record T now e) = tk_refresh_token_hash e"
  by (simp_all add: revoke_record_def)

lemma revoke_agent_simps [simp]:
  "tk_id (revoke_agent T a now e) = tk_id e" "tk_agent_name (revoke_agent T a now e) = tk_agent_name e"
  "tk_revoked (revoke_agent T a now e) \<longleftrightarrow> tk_revoked e \<or> tk_agent_name e = a"
  by (auto simp: revoke_agent_def)

lemma update_first_Some:
  assumes "update_first P f es = Some es'"
  shows "\<exists>a k e b. es = a @ (k, e) # b \<and> P e \<and> es' = a @ (k, f e) # b \<and> (\<forall>x \<in> snd ` set a. \<not> P x)"
  using assms
proof (induction es arbitrary: es')
  case (Cons x es)
  obtain k e where x: "x = (k, e)" by (cases x)
  show ?case
  proof (cases "P e")
    case True
    then have "es' = [] @ (k, f e) # es" using Cons.prems x by simp
    with True x show ?thesis by (metis append_Nil empty_iff image_empty list.set(1))
  next
    case False
    then obtain es1 where "update_first P f es = Some es1" "es' = (k, e) # es1" using Cons.prems x by auto
    with Cons.IH obtain a k' e' b where "es = a @ (k', e') # b" "P e'" "es1 = a @ (k', f e') # b" "\<forall>x \<in> snd ` set a. \<not> P x"
      by blast
    then show ?thesis using x False \<open>es' = (k, e) # es1\<close> by (intro exI [of _ "(k, e) # a"]) auto
  qed
qed simp

lemma update_first_None: "update_first P f es = None \<longleftrightarrow> (\<forall>e \<in> snd ` set es. \<not> P e)"
  by (induction P f es rule: update_first.induct) auto

lemma update_first_map_val:
  assumes "update_first P f es = Some es'" "reg_wf es" "\<And>e. tk_id (f e) = tk_id e"
  shows "reg_wf es'"
proof -
  obtain a k e b where "es = a @ (k, e) # b" "es' = a @ (k, f e) # b"
    using update_first_Some [OF assms(1)] by blast
  then show ?thesis using assms(2,3) by (auto simp: reg_wf_def bt_inv_def)
qed

section \<open>Properties of lookups\<close>

lemma is_active_at_iff:
  "is_active_at T tok now = Inr True \<longleftrightarrow> \<not> tk_revoked tok \<and>
     (\<forall>v. tk_expires_at tok = Some v \<longrightarrow> (\<exists>x. parse_go_rfc3339 T v = Some x \<and> tl_unix_nanos T now \<le> tl_unix_nanos T x))"
  by (auto simp: is_active_at_def parse_rfc3339_def split: option.splits)

lemma lookup_Some_iff:
  "lookup_raw_bearer T R es bearer now = Inr (Some tok) \<longleftrightarrow>
     filter (\<lambda>t. tk_hash t = rc_sha256_hex R (as_bytes bearer)) (map snd es) = [tok] \<and> is_active_at T tok now = Inr True"
  by (auto simp: lookup_raw_bearer_def Let_def res_bind_Inr_iff split: list.splits if_splits)

text \<open>
  C3. A bearer authenticates as a token exactly when that token is the only entry with the hash of
  the bearer, it is not revoked, and its expiry, if it has one, is a timestamp not before now. Two
  entries with one hash authenticate nobody.
\<close>

theorem lookup_raw_bearer_iff:
  "lookup_raw_bearer T R es bearer now = Inr (Some tok) \<longleftrightarrow>
     filter (\<lambda>t. tk_hash t = rc_sha256_hex R (as_bytes bearer)) (map snd es) = [tok] \<and> \<not> tk_revoked tok \<and>
     (\<forall>v. tk_expires_at tok = Some v \<longrightarrow> (\<exists>x. parse_go_rfc3339 T v = Some x \<and> tl_unix_nanos T now \<le> tl_unix_nanos T x))"
  unfolding lookup_Some_iff is_active_at_iff by blast

lemma filter_bt_insert_fresh:
  "P v \<Longrightarrow> \<forall>e \<in> snd ` set m. \<not> P e \<Longrightarrow> filter P (map snd (bt_insert k v m)) = [v]"
proof (induction k v m rule: bt_insert.induct)
  case (2 k v k' v' m)
  then have "filter P (map snd m) = []" by (auto simp: filter_empty_conv)
  with 2 show ?case by auto
qed simp

text \<open>
  A created token works exactly as long as asked for: when no entry shares the hash of the new
  token, its raw text authenticates as the new record at every time up to creation plus the time to
  live (for ever without one), and at no later time.
\<close>

theorem create_then_lookup:
  assumes "time_ok T" "odt_wf T now" "0 \<le> tl_unix_nanos T now"
    and "create_step T R rnd new now es = Inr ((record, raw), Some es')"
    and "\<forall>e \<in> snd ` set es. tk_hash e \<noteq> rc_sha256_hex R (as_bytes raw)"
  shows "lookup_raw_bearer T R es' raw later =
    Inr (if \<forall>d. nt_ttl new = Some d \<longrightarrow> 0 < d \<longrightarrow> tl_unix_nanos T later \<le> tl_unix_nanos T now + d
         then Some record else None)"
proof -
  have n: "new_record T R rnd new now = Inr (record, raw)" "es' = bt_insert (tk_id record) record es"
    using assms(4) by (auto simp: create_step_def res_bind_Inr_iff)
  note r = new_record_Inr [OF n(1)]
  have "filter (\<lambda>t. tk_hash t = rc_sha256_hex R (as_bytes raw)) (map snd es') = [record]"
    unfolding n(2) by (rule filter_bt_insert_fresh) (use r(1) assms(5) in auto)
  then have "lookup_raw_bearer T R es' raw later =
      res_bind (is_active_at T record later) (\<lambda>a. Inr (if a then Some record else None))"
    by (simp add: lookup_raw_bearer_def)
  with expiry_of_ttl_Inr [OF assms(1-3) r(6)] r(4) show ?thesis
    by (auto simp: is_active_at_def parse_rfc3339_def)
qed

section \<open>Properties of revocation and rotation\<close>

lemma find_snd_Some:
  "find P (map snd es) = Some e \<Longrightarrow> e \<in> snd ` set es \<and> P e"
  by (induction es) (auto split: if_splits)

lemma find_snd_None: "find P (map snd es) = None \<longleftrightarrow> (\<forall>e \<in> snd ` set es. \<not> P e)"
  by (induction es) auto

lemma rotate_old_Inr:
  assumes "rotate_old_step T R rnd new ttl now es old = Inr ((rot, ra, rr), w)"
  obtains old_entry rot0 where "new_record T R rnd new now = Inr (rot0, ra)"
    "rot = rot0\<lparr>tk_refresh_token_hash := rc_sha256_hex R (as_bytes rr), tk_refresh_expires_at := tk_refresh_expires_at rot\<rparr>"
    "expiry_of_ttl T now ttl = Inr (tk_refresh_expires_at rot)" "map_of es (tk_id old) = Some old_entry"
    "w = Some (bt_insert (tk_id rot) rot (bt_insert (tk_id old) (revoke_record T now old_entry) es))"
proof -
  obtain rot0 where n: "new_record T R rnd new now = Inr (rot0, ra)"
      "with_refresh T R (lit ''rotate token: generate refresh token: '') rnd ttl now rot0 = Inr (rot, rr)"
    using assms by (auto simp: rotate_old_step_def res_bind_Inr_iff split: option.splits)
  moreover obtain old_entry where "map_of es (tk_id old) = Some old_entry"
      "w = Some (bt_insert (tk_id rot) rot (bt_insert (tk_id old) (revoke_record T now old_entry) es))"
    using assms n by (auto simp: rotate_old_step_def split: option.splits)
  ultimately show thesis using that with_refresh_Inr [OF n(2)] by blast
qed

lemma rotate_via_refresh_Inr:
  assumes "rotate_via_refresh_step T R rnd raw acc rh now es = Inr x"
  obtains old ax rx where "old \<in> snd ` set es" "tk_refresh_token_hash old = rc_sha256_hex R (as_bytes raw)" "\<not> tk_revoked old"
    "opt_expiry T (lit ''invalid token expiry'') (tk_expires_at old) = Inr ax" "\<not> past T now rx"
    "rotate_old_step T R rnd (rotated_request T acc rh now old ax)
       (map_option (\<lambda>x. max (tl_unix_nanos T x - tl_unix_nanos T now) 0) rx) now es old = Inr x"
proof (cases "find (\<lambda>t. tk_refresh_token_hash t = rc_sha256_hex R (as_bytes raw) \<and> \<not> tk_revoked t) (map snd es)")
  case None
  with assms show thesis by (simp add: rotate_via_refresh_step_def)
next
  case (Some old)
  obtain ax rx where "opt_expiry T (lit ''invalid token expiry'') (tk_expires_at old) = Inr ax" "\<not> past T now rx"
      "rotate_old_step T R rnd (rotated_request T acc rh now old ax)
       (map_option (\<lambda>x. max (tl_unix_nanos T x - tl_unix_nanos T now) 0) rx) now es old = Inr x"
    using assms unfolding rotate_via_refresh_step_def Some option.case res_bind_Inr_iff
    by (metis (no_types, lifting) sum.distinct(1))
  with find_snd_Some [OF Some] show thesis by (intro that) auto
qed

lemma refresh_token_unknown:
  assumes "\<And>e. e \<in> snd ` set es \<Longrightarrow> \<not> (tk_refresh_token_hash e = rc_sha256_hex R (as_bytes raw) \<and> \<not> tk_revoked e)"
  shows "rotate_via_refresh_step T R rnd raw acc rh now es = Inl (Config (lit ''invalid refresh token''))"
proof -
  have "find (\<lambda>t. tk_refresh_token_hash t = rc_sha256_hex R (as_bytes raw) \<and> \<not> tk_revoked t) (map snd es) = None"
    unfolding find_snd_None using assms by blast
  then show ?thesis by (simp add: rotate_via_refresh_step_def)
qed


text \<open>
  After an agent's token is rotated, the new token is the only one of that agent that is not
  revoked.
\<close>

theorem rotate_leaves_one:
  assumes "reg_wf es" "rotate_step T R rnd new now es = Inr ((record, raw), Some es')"
  shows "reg_wf es' \<and> map_of es' (tk_id record) = Some record \<and> tk_agent_name record = nt_agent_name new \<and>
    (\<forall>e \<in> snd ` set es'. tk_agent_name e = nt_agent_name new \<and> \<not> tk_revoked e \<longrightarrow> e = record)"
proof -
  define es1 where "es1 = map (\<lambda>(k, e). (k, revoke_agent T (nt_agent_name new) now e)) (purge_expired T es now)"
  have wf: "reg_wf es1" unfolding es1_def by (rule reg_wf_map [OF reg_wf_purge [OF assms(1)]]) simp
  then have inv: "bt_inv es1" by (simp add: reg_wf_def)
  have n: "new_record T R rnd new now = Inr (record, raw)" "es' = bt_insert (tk_id record) record es1"
    using assms(2) by (auto simp: rotate_step_def es1_def Let_def res_bind_Inr_iff)
  have "tk_revoked e" if "(k, e) \<in> set es1" "tk_agent_name e = nt_agent_name new" for k e
    using that by (auto simp: es1_def)
  then show ?thesis
    using new_record_Inr(2) [OF n(1)] reg_wf_insert [OF wf refl] inv
    by (auto simp: n(2) bt_insert_set bt_lookup_insert)
qed

lemma map_of_purge:
  "reg_wf es \<Longrightarrow> map_of (purge_expired T es now) k =
     (case map_of es k of None \<Rightarrow> None | Some e \<Rightarrow> if \<not> is_expired T e now then Some e else None)"
  unfolding purge_expired_def reg_wf_def by (intro map_of_filter_val bt_inv_distinct) simp

lemma reg_wf_ex_iff:
  "reg_wf es \<Longrightarrow> list_ex (\<lambda>(_, e). tk_id e = i \<and> P e) es \<longleftrightarrow> (\<exists>e. map_of es i = Some e \<and> P e)"
proof -
  assume wf: "reg_wf es"
  have in_iff: "(i, e) \<in> set es \<longleftrightarrow> map_of es i = Some e" for e
    using wf bt_in_iff [of es i e] by (simp add: reg_wf_def)
  have "list_ex (\<lambda>(_, e). tk_id e = i \<and> P e) es \<longleftrightarrow> (\<exists>e. (i, e) \<in> set es \<and> P e)"
    using wf by (fastforce simp: reg_wf_def list_ex_iff)
  then show ?thesis by (simp add: in_iff)
qed

lemma update_first_id:
  assumes "reg_wf es" "update_first (\<lambda>e. tk_id e = i \<and> P e) f es = Some es'"
  shows "\<exists>e. map_of es i = Some e \<and> P e \<and> map_of es' = (map_of es)(i \<mapsto> f e)"
proof -
  obtain a k e b where u: "es = a @ (k, e) # b" "tk_id e = i \<and> P e" "es' = a @ (k, f e) # b"
    using update_first_Some [OF assms(2)] by blast
  have k: "k = i" using assms(1) u by (auto simp: reg_wf_def)
  have "distinct (map fst es)" using assms(1) bt_inv_distinct by (auto simp: reg_wf_def)
  then have "i \<notin> fst ` set a" "i \<notin> fst ` set b" using u(1) k by auto
  then have a: "map_of a i = None" by (simp add: map_of_eq_None_iff)
  then have "map_of es i = Some e" using u(1) k by (simp add: map_add_def)
  with a u k show ?thesis by (auto simp: map_add_def fun_eq_iff split: option.splits)
qed

text \<open>
  Revoking a token of an agent succeeds exactly when the registry holds an unexpired, not yet
  revoked token of that identifier that belongs to the agent. Then the token is marked revoked, the
  expired entries are gone and every other entry is as it was; otherwise nothing is written.
\<close>

theorem revoke_step_iff:
  assumes "reg_wf es"
  shows "case revoke_step T agent i now es of
      Inl _ \<Rightarrow> False
    | Inr (done_now, None) \<Rightarrow> \<not> done_now \<and>
        \<not> (\<exists>e. map_of es i = Some e \<and> \<not> is_expired T e now \<and> tk_agent_name e = agent \<and> \<not> tk_revoked e)
    | Inr (done_now, Some es') \<Rightarrow> done_now \<and> reg_wf es' \<and>
        (\<exists>e. map_of es i = Some e \<and> \<not> is_expired T e now \<and> tk_agent_name e = agent \<and> \<not> tk_revoked e \<and>
          map_of es' = (map_of (purge_expired T es now))(i \<mapsto> revoke_record T now e))"
proof -
  define es1 where "es1 = purge_expired T es now"
  have wf: "reg_wf es1" unfolding es1_def by (rule reg_wf_purge [OF assms])
  have at: "map_of es1 i = Some e \<longleftrightarrow> map_of es i = Some e \<and> \<not> is_expired T e now" for e
    unfolding es1_def map_of_purge [OF assms] by (auto split: option.splits)
  show ?thesis
  proof (cases "update_first (\<lambda>e. tk_id e = i \<and> \<not> tk_revoked e) (revoke_record T now) es1")
    case None
    then have "\<not> (\<exists>e. map_of es1 i = Some e \<and> \<not> tk_revoked e)"
      using reg_wf_ex_iff [OF wf, of i "\<lambda>e. \<not> tk_revoked e"] by (auto simp: update_first_None list_ex_iff)
    with None at show ?thesis by (auto simp: revoke_step_def Let_def es1_def [symmetric])
  next
    case (Some es')
    have "reg_wf es'" by (rule update_first_map_val [OF Some wf]) simp
    with update_first_id [OF wf Some] Some at reg_wf_ex_iff [OF wf, of i "\<lambda>e. tk_agent_name e = agent"] show ?thesis
      by (auto simp: revoke_step_def Let_def es1_def [symmetric])
  qed
qed

text \<open>
  The PKCE check decides equality although it never stops early: for a base64url encoder that
  yields ASCII, a challenge of Unicode scalar values is accepted exactly when the verifier has 43 to
  128 unreserved characters and the challenge is the encoded digest of the verifier.
\<close>

theorem verify_s256_iff:
  assumes "\<And>b c. c \<in> set (b64url b) \<Longrightarrow> c < 128" "\<forall>c \<in> set challenge. c < 0x110000" "\<And>b. b64url (sha b) \<noteq> []"
  shows "verify_s256_code_verifier sha b64url verifier challenge \<longleftrightarrow>
    43 \<le> str_len verifier \<and> str_len verifier \<le> 128 \<and> list_all verifier_byte (as_bytes verifier) \<and>
    challenge = b64url (sha (as_bytes verifier))"
proof -
  define ex where "ex = b64url (sha (as_bytes verifier))"
  have asc: "as_bytes ex = ex" by (rule as_bytes_ascii) (use assms(1) ex_def in auto)
  have "\<forall>x \<in> set ex. x < 256" unfolding ex_def using assms(1) by fastforce
  then have small: "\<forall>x \<in> set (as_bytes ex). x < 256" by (simp add: asc)
  have "as_bytes challenge = ex \<longleftrightarrow> challenge = ex"
  proof
    assume eq: "as_bytes challenge = ex"
    then have "\<forall>b \<in> set (as_bytes challenge). b < 128" using assms(1) by (simp add: ex_def)
    from as_bytes_small [OF this] eq show "challenge = ex" by simp
  qed (simp add: asc)
  moreover have "byte_difference (as_bytes ex) (as_bytes challenge) = 0 \<longleftrightarrow> as_bytes ex = as_bytes challenge"
    if "str_len ex = str_len challenge"
    using that small as_bytes_bound [OF assms(2)] by (intro byte_difference_zero) (auto simp: length_as_bytes)
  moreover have "ex \<noteq> []" using assms(3) by (simp add: ex_def)
  ultimately show ?thesis
    using asc by (auto simp: verify_s256_code_verifier_def Let_def ex_def [symmetric])
qed

text \<open>Results that are not a panic.\<close>

definition no_panic :: "store_error + 'a \<Rightarrow> bool" where
  "no_panic r \<longleftrightarrow> (\<forall>m. r \<noteq> Inl (Panicked m))"

lemma no_panic_simps [simp]: "no_panic (Inr x)" "no_panic (Inl (Config c))"
  by (simp_all add: no_panic_def)

lemma no_panic_bind [intro]: "no_panic r \<Longrightarrow> (\<And>x. r = Inr x \<Longrightarrow> no_panic (f x)) \<Longrightarrow> no_panic (res_bind r f)"
  by (cases r) (auto simp: no_panic_def)

lemma no_panic_parts [simp]:
  "no_panic (random_or w r)" "no_panic (opt_expiry T w v)" "no_panic (expiry_after T now d)" "no_panic (expiry_of_ttl T now ttl)"
  by (auto simp: random_or_def opt_expiry_def expiry_after_def expiry_of_ttl_def split: sum.splits option.splits)

lemma no_panic_records [simp]: "no_panic (new_record T R rnd new now)" "no_panic (with_refresh T R w rnd ttl now record)"
  unfolding new_record_def with_refresh_def Let_def by (intro no_panic_bind; simp)+

lemma no_panic_rotate_old: "map_of es (tk_id old) = Some e \<Longrightarrow> no_panic (rotate_old_step T R rnd new ttl now es old)"
  unfolding rotate_old_step_def by (intro no_panic_bind) (auto simp: split_def)

text \<open>
  Exchanging a refresh token never panics on a well-formed registry: the entry that carries the
  hash is found again under its own identifier. The registry has to be well-formed for that: a file
  whose entry stands under a key other than its \<open>id\<close> field, which the reader accepts, makes the
  exchange panic.
\<close>

theorem rotate_via_refresh_panics_iff:
  "(reg_wf es \<longrightarrow> rotate_via_refresh_step T R rnd raw acc rh now es \<noteq> Inl (Panicked m)) \<and>
   (\<forall>k (e :: token_record). tk_id e \<noteq> k \<and> tk_refresh_token_hash e = rc_sha256_hex R (as_bytes raw) \<and> \<not> tk_revoked e \<and>
      tk_expires_at e = None \<and> tk_refresh_expires_at e = None \<longrightarrow>
      rotate_via_refresh_step T R \<lparr>rt_token = Inr tb, rt_id = Inr ib, rt_refresh = Inr rb\<rparr> raw acc rh now [(k, e)] =
        Inl (Panicked (lit ''old refresh token remains in locked registry'')))"
proof (intro conjI impI allI)
  assume wf: "reg_wf es"
  show "rotate_via_refresh_step T R rnd raw acc rh now es \<noteq> Inl (Panicked m)"
  proof (cases "find (\<lambda>t. tk_refresh_token_hash t = rc_sha256_hex R (as_bytes raw) \<and> \<not> tk_revoked t) (map snd es)")
    case (Some old)
    have "map_of es (tk_id old) = Some old"
      using reg_wf_id [OF wf] find_snd_Some [OF Some] by blast
    then have "no_panic (rotate_via_refresh_step T R rnd raw acc rh now es)"
      unfolding rotate_via_refresh_step_def Some option.case by (intro no_panic_bind) (simp_all add: no_panic_rotate_old)
    then show ?thesis by (simp add: no_panic_def)
  qed (simp add: rotate_via_refresh_step_def)
next
  fix k and e :: token_record
  assume "tk_id e \<noteq> k \<and> tk_refresh_token_hash e = rc_sha256_hex R (as_bytes raw) \<and> \<not> tk_revoked e \<and>
      tk_expires_at e = None \<and> tk_refresh_expires_at e = None"
  then show "rotate_via_refresh_step T R \<lparr>rt_token = Inr tb, rt_id = Inr ib, rt_refresh = Inr rb\<rparr> raw acc rh now [(k, e)] =
      Inl (Panicked (lit ''old refresh token remains in locked registry''))"
    by (simp add: rotate_via_refresh_step_def opt_expiry_def past_def rotate_old_step_def new_record_def random_or_def
        rotated_request_def expiry_of_ttl_def with_refresh_def Let_def)
qed

section \<open>The registry on disk\<close>

text \<open>
  Documented behaviour of the store and of JSON: a replacement that succeeds is what later reads of
  the file see, one that fails leaves every file as it was, and what was encoded decodes, if at all,
  to the same entries.
\<close>

definition store_ok :: "registry_codec \<Rightarrow> 'f registry_fs \<Rightarrow> bool" where
  "store_ok R F \<longleftrightarrow>
     (\<forall>s f b u s'. rf_replace F s f b = (Inr u, s') \<longrightarrow> rf_load F s' = (rf_load F s)(f := Loaded b)) \<and>
     (\<forall>s f b e s'. rf_replace F s f b = (Inl e, s') \<longrightarrow> rf_load F s' = rf_load F s) \<and>
     (\<forall>v es b x. bt_inv es \<longrightarrow> rc_encode R v es = Inr b \<longrightarrow> rc_decode R (b @ [10]) = Inr x \<longrightarrow>
        x = Some (map (\<lambda>(k, e). (k, Some e)) es))"

lemma map_filter_Some: "List.map_filter (\<lambda>(k, r). map_option (Pair k) r) (map (\<lambda>(k, e). (k, Some e)) es) = es"
  by (induction es) (auto simp: List.map_filter_def)

lemma reg_write_read:
  assumes "store_ok R F" "bt_inv es" "reg_write R F es s = (r, s')"
  shows "reg_read R F s' = reg_read R F s \<or> (\<forall>es'. reg_read R F s' = Inr es' \<longrightarrow> es' = es)"
proof (cases "rc_encode R TOKEN_REGISTRY_VERSION es")
  case (Inr b)
  obtain r1 s1 where rep: "rf_replace F s TOKEN_REGISTRY_FILE (b @ [10]) = (r1, s1)" by fastforce
  with Inr assms(3) have "s' = s1" by (auto simp: reg_write_def split: sum.splits)
  show ?thesis
  proof (cases r1)
    case (Inl e)
    then have "rf_load F s1 = rf_load F s" using assms(1) rep by (auto simp: store_ok_def)
    then show ?thesis using \<open>s' = s1\<close> by (simp add: reg_read_def)
  next
    case r: (Inr u)
    then have "rf_load F s1 TOKEN_REGISTRY_FILE = Loaded (b @ [10])" using assms(1) rep by (auto simp: store_ok_def)
    moreover have "x = Some (map (\<lambda>(k, e). (k, Some e)) es)" if "rc_decode R (b @ [10]) = Inr x" for x
      using assms(1,2) Inr that by (auto simp: store_ok_def)
    ultimately show ?thesis
      using \<open>s' = s1\<close> by (auto simp: reg_read_def map_filter_Some split: sum.splits option.splits)
  qed
qed (use assms(3) in \<open>simp add: reg_write_def\<close>)

definition reg_inv :: "registry_codec \<Rightarrow> 'f registry_fs \<Rightarrow> 'f \<Rightarrow> bool" where
  "reg_inv R F s \<longleftrightarrow> (\<forall>es. reg_read R F s = Inr es \<longrightarrow> reg_wf es)"

lemma reg_open_read: "reg_open R F s = Inr es \<Longrightarrow> reg_read R F s = Inr es"
  by (auto simp: reg_open_def res_bind_Inr_iff)

lemma reg_write_inv:
  assumes "store_ok R F" "reg_inv R F s" "reg_wf es"
  shows "reg_inv R F (snd (reg_write R F es s))"
  using reg_write_read [OF assms(1), of es s "fst (reg_write R F es s)" "snd (reg_write R F es s)"] assms(2,3)
  by (auto simp: reg_inv_def reg_wf_def)

lemma locked_update_inv:
  assumes "store_ok R F" "reg_inv R F s" "\<And>es a es'. reg_wf es \<Longrightarrow> step es = Inr (a, Some es') \<Longrightarrow> reg_wf es'"
  shows "reg_inv R F (snd (locked_update R F step s))"
proof (cases "reg_open R F s")
  case (Inr es)
  have wf: "reg_wf es" using assms(2) reg_open_read [OF Inr] by (simp add: reg_inv_def)
  have "snd (locked_update R F step s) = s \<or>
      (\<exists>a es'. step es = Inr (a, Some es') \<and> snd (locked_update R F step s) = snd (reg_write R F es' s))"
    using Inr by (auto simp: locked_update_def split: sum.splits option.splits prod.splits)
  then show ?thesis using assms(2,3) wf reg_write_inv [OF assms(1,2)] by metis
qed (use assms(2) in \<open>simp add: locked_update_def\<close>)

datatype registry_op =
    RCreate token_random new_token odt
  | RImportLegacy token_random ustring odt
  | RCreateLegacy token_random odt
  | RCreateWithRefresh token_random new_token "int option" odt
  | RRefresh token_random ustring ustring odt
  | RRefreshTtl token_random ustring int ustring odt
  | RRevoke ustring ustring odt
  | RRevokeAll ustring odt
  | RRotate token_random new_token odt

fun registry_apply :: "time_lib \<Rightarrow> registry_codec \<Rightarrow> 'f registry_fs \<Rightarrow> registry_op \<Rightarrow> 'f \<Rightarrow> 'f" where
  "registry_apply T R F (RCreate rnd new now) s = snd (registry_create T R F rnd new now s)"
| "registry_apply T R F (RImportLegacy rnd raw now) s = snd (import_legacy T R F rnd raw now s)"
| "registry_apply T R F (RCreateLegacy rnd now) s = snd (create_legacy T R F rnd now s)"
| "registry_apply T R F (RCreateWithRefresh rnd new ttl now) s = snd (create_with_refresh T R F rnd new ttl now s)"
| "registry_apply T R F (RRefresh rnd raw h now) s = snd (rotate_via_refresh_token T R F rnd raw h now s)"
| "registry_apply T R F (RRefreshTtl rnd raw ttl h now) s =
     snd (rotate_via_refresh_token_with_access_ttl T R F rnd raw ttl h now s)"
| "registry_apply T R F (RRevoke agent i now) s = snd (registry_revoke T R F agent i now s)"
| "registry_apply T R F (RRevokeAll agent now) s = snd (revoke_all_for_agent T R F agent now s)"
| "registry_apply T R F (RRotate rnd new now) s = snd (registry_rotate T R F rnd new now s)"

lemma create_step_wf: "reg_wf es \<Longrightarrow> create_step T R rnd new now es = Inr (a, Some es') \<Longrightarrow> reg_wf es'"
  by (auto simp: create_step_def res_bind_Inr_iff intro: reg_wf_insert)

lemma import_legacy_step_wf: "reg_wf es \<Longrightarrow> import_legacy_step T R rnd raw now es = Inr (a, Some es') \<Longrightarrow> reg_wf es'"
  by (auto simp: import_legacy_step_def Let_def res_bind_Inr_iff intro!: reg_wf_insert split: if_splits option.splits)

lemma create_legacy_step_wf: "reg_wf es \<Longrightarrow> create_legacy_step T R rnd now es = Inr (a, Some es') \<Longrightarrow> reg_wf es'"
  by (auto simp: create_legacy_step_def Let_def res_bind_Inr_iff intro!: reg_wf_insert split: if_splits)

lemma create_with_refresh_step_wf:
  "reg_wf es \<Longrightarrow> create_with_refresh_step T R rnd new ttl now es = Inr (a, Some es') \<Longrightarrow> reg_wf es'"
  by (auto simp: create_with_refresh_step_def res_bind_Inr_iff intro!: reg_wf_insert)

lemma rotate_old_step_wf:
  assumes "reg_wf es" "rotate_old_step T R rnd new ttl now es old = Inr (a, Some es')"
  shows "reg_wf es'"
proof -
  obtain rot ra rr where "a = (rot, ra, rr)" by (cases a)
  then obtain e where "map_of es (tk_id old) = Some e"
      and es': "es' = bt_insert (tk_id rot) rot (bt_insert (tk_id old) (revoke_record T now e) es)"
    using assms(2) rotate_old_Inr [of T R rnd new ttl now es old rot ra rr "Some es'"] by blast
  then have "tk_id e = tk_id old" using assms(1) by (auto simp: reg_wf_def dest!: map_of_SomeD)
  then show ?thesis unfolding es' using assms(1) by (intro reg_wf_insert) auto
qed

lemma rotate_via_refresh_step_wf:
  "reg_wf es \<Longrightarrow> rotate_via_refresh_step T R rnd raw acc rh now es = Inr (a, Some es') \<Longrightarrow> reg_wf es'"
  by (erule rotate_via_refresh_Inr) (rule rotate_old_step_wf)

lemma revoke_step_wf: "reg_wf es \<Longrightarrow> revoke_step T agent i now es = Inr (a, Some es') \<Longrightarrow> reg_wf es'"
  by (auto simp: revoke_step_def Let_def intro: update_first_map_val [OF _ reg_wf_purge] split: if_splits option.splits)

lemma rotate_step_wf: "reg_wf es \<Longrightarrow> rotate_step T R rnd new now es = Inr (a, Some es') \<Longrightarrow> reg_wf es'"
  by (auto simp: rotate_step_def Let_def res_bind_Inr_iff intro!: reg_wf_insert reg_wf_map reg_wf_purge)

lemma revoke_all_inv:
  assumes "store_ok R F" "reg_inv R F s"
  shows "reg_inv R F (snd (revoke_all_for_agent T R F agent now s))"
proof (cases "reg_open R F s")
  case (Inr es)
  have "reg_wf es" using assms(2) reg_open_read [OF Inr] by (simp add: reg_inv_def)
  then have wf: "reg_wf (map (\<lambda>(k, e). (k, revoke_agent T agent now e)) (purge_expired T es now))"
    by (intro reg_wf_map reg_wf_purge) auto
  show ?thesis
    using Inr assms(2) reg_write_inv [OF assms wf]
    by (auto simp: revoke_all_for_agent_def Let_def split: sum.splits prod.splits)
qed (use assms(2) in \<open>simp add: revoke_all_for_agent_def\<close>)

lemma registry_apply_inv:
  assumes "store_ok R F" "reg_inv R F s"
  shows "reg_inv R F (registry_apply T R F op s)"
proof (cases op)
  case (RCreate rnd new now)
  then show ?thesis using locked_update_inv [OF assms create_step_wf] by (simp add: registry_create_def)
next
  case (RImportLegacy rnd raw now)
  then show ?thesis using locked_update_inv [OF assms import_legacy_step_wf] by (simp add: import_legacy_def)
next
  case (RCreateLegacy rnd now)
  then show ?thesis using locked_update_inv [OF assms create_legacy_step_wf] by (simp add: create_legacy_def)
next
  case (RCreateWithRefresh rnd new ttl now)
  then show ?thesis using locked_update_inv [OF assms create_with_refresh_step_wf] by (simp add: create_with_refresh_def)
next
  case (RRefresh rnd raw h now)
  then show ?thesis using locked_update_inv [OF assms rotate_via_refresh_step_wf] by (simp add: rotate_via_refresh_token_def)
next
  case (RRefreshTtl rnd raw ttl h now)
  have "reg_inv R F (snd (locked_update R F (rotate_via_refresh_step T R rnd raw (Some ttl) h now) s))"
    by (rule locked_update_inv [OF assms rotate_via_refresh_step_wf])
  with RRefreshTtl assms(2) show ?thesis by (simp add: rotate_via_refresh_token_with_access_ttl_def)
next
  case (RRevoke agent i now)
  then show ?thesis using locked_update_inv [OF assms revoke_step_wf] by (simp add: registry_revoke_def)
next
  case (RRotate rnd new now)
  then show ?thesis using locked_update_inv [OF assms rotate_step_wf] by (simp add: registry_rotate_def)
qed (use revoke_all_inv [OF assms] in simp)

definition registry_step :: "time_lib \<Rightarrow> registry_codec \<Rightarrow> 'f registry_fs \<Rightarrow> 'f \<Rightarrow> 'f \<Rightarrow> bool" where
  "registry_step T R F s s' \<longleftrightarrow> store_ok R F \<and> (\<exists>op. s' = registry_apply T R F op s)"

definition registry_absent :: "'f registry_fs \<Rightarrow> 'f \<Rightarrow> bool" where
  "registry_absent F s \<longleftrightarrow> rf_load F s TOKEN_REGISTRY_FILE = Absent"

interpretation registry: guarded_machine "registry_absent F" "registry_step T R F" "reg_inv R F"
proof unfold_locales
  show "reg_inv R F s" if "registry_absent F s" for s
    using that by (simp add: registry_absent_def reg_inv_def reg_read_def)
  show "reg_inv R F s'" if "reg_inv R F s" "registry_step T R F s s'" for s s'
    using that by (auto simp: registry_step_def intro: registry_apply_inv)
qed


section \<open>Instances\<close>

text \<open>A codec, a store of files in memory and a clock, on which the properties are applied.\<close>

definition token_frame :: "token_record \<Rightarrow> nat list" where
  "token_frame e = frames [tk_id e, tk_label e, tk_hash e, tk_prefix e, list_frame (tk_allowed_tools e),
     tk_tool_registry_hash e, tk_agent_name e, tk_created_at e, opt_frame (tk_expires_at e), opt_frame (tk_last_used_at e),
     bool_frame (tk_revoked e), opt_frame (tk_revoked_at e), tk_refresh_token_hash e, opt_frame (tk_refresh_expires_at e)]"

definition untoken_frame :: "nat list \<Rightarrow> token_record option" where
  "untoken_frame b = (case unframes b of
     Some [i, l, h, p, a, t, n, c, x, u, r, ra, f, fx] \<Rightarrow>
       Some \<lparr>tk_id = i, tk_label = l, tk_hash = h, tk_prefix = p, tk_allowed_tools = unlist_frame a,
         tk_tool_registry_hash = t, tk_agent_name = n, tk_created_at = c, tk_expires_at = unopt_frame x,
         tk_last_used_at = unopt_frame u, tk_revoked = (r \<noteq> []), tk_revoked_at = unopt_frame ra,
         tk_refresh_token_hash = f, tk_refresh_expires_at = unopt_frame fx\<rparr>
   | _ \<Rightarrow> None)"

lemma token_frame_inverse: "untoken_frame (token_frame e) = Some e"
  by (simp add: untoken_frame_def token_frame_def unframes_frames)

fun pairs_frame :: "entries \<Rightarrow> nat list list" where
  "pairs_frame [] = []"
| "pairs_frame ((k, e) # es) = k # token_frame e # pairs_frame es"

fun unpairs_frame :: "nat list list \<Rightarrow> (ustring \<times> token_record option) list" where
  "unpairs_frame (k # b # r) = (k, untoken_frame b) # unpairs_frame r"
| "unpairs_frame _ = []"

lemma pairs_frame_inverse: "unpairs_frame (pairs_frame es) = map (\<lambda>(k, e). (k, Some e)) es"
  by (induction es rule: pairs_frame.induct) (simp_all add: token_frame_inverse)

definition demo_codec :: registry_codec where
  "demo_codec =
     \<lparr>rc_decode = (\<lambda>b. case unframes (butlast b) of None \<Rightarrow> Inl [] | Some x \<Rightarrow> Inr (Some (unpairs_frame x))),
      rc_encode = (\<lambda>v es. Inr (frames (pairs_frame es))),
      rc_oauth_decode = (\<lambda>b. Inl []), rc_oauth_encode = (\<lambda>f. Inl []), rc_sha256_hex = (\<lambda>b. b)\<rparr>"

definition demo_fs :: "(ustring \<Rightarrow> open_result) registry_fs" where
  "demo_fs = \<lparr>rf_open_root = (\<lambda>s. Inr ()), rf_lock = (\<lambda>s. Inr ()), rf_load = (\<lambda>s. s),
     rf_replace = (\<lambda>s f b. (Inr (), s(f := Loaded b)))\<rparr>"

lemma demo_store_ok: "store_ok demo_codec demo_fs"
  by (simp add: store_ok_def demo_codec_def demo_fs_def unframes_frames pairs_frame_inverse)

definition demo_now :: odt where
  "demo_now = \<lparr>od_year = 2024, od_month = 2, od_day = 29, od_hour = 12, od_minute = 34, od_second = 56,
     od_nano = 500000000, od_offset = 0\<rparr>"

lemma demo_now_ok [simp]: "odt_wf utc_calendar demo_now" "utc_nanos demo_now = 1709210096500000000"
  by (simp_all add: demo_now_def odt_wf_def utc_calendar_def utc_nanos_def days_in_month_def leap_year_def days_from_civil_def Let_def)

definition demo_new :: "int option \<Rightarrow> new_token" where
  "demo_new ttl = \<lparr>nt_label = lit ''l'', nt_allowed_tools = [lit ''get''], nt_agent_name = lit ''bot'', nt_ttl = ttl,
     nt_tool_registry_hash = []\<rparr>"

definition demo_random :: token_random where
  "demo_random = \<lparr>rt_token = Inr [18, 52, 86], rt_id = Inr [1], rt_refresh = Inr [2, 3]\<rparr>"

definition demo_token :: "ustring \<Rightarrow> ustring \<Rightarrow> token_record" where
  "demo_token i refresh = \<lparr>tk_id = i, tk_label = [], tk_hash = lit ''h'', tk_prefix = [], tk_allowed_tools = Some [lit ''get''],
     tk_tool_registry_hash = [], tk_agent_name = lit ''bot'', tk_created_at = [], tk_expires_at = None, tk_last_used_at = None,
     tk_revoked = False, tk_revoked_at = None, tk_refresh_token_hash = refresh, tk_refresh_expires_at = None\<rparr>"

theorem lookup_raw_bearer_iff_witness:
  "lookup_raw_bearer utc_calendar demo_codec [(lit ''a'', demo_token (lit ''a'') [])] (lit ''h'') demo_now =
     Inr (Some (demo_token (lit ''a'') []))"
  unfolding lookup_raw_bearer_iff by (simp add: demo_token_def demo_codec_def as_bytes_def utf8_bytes_def)

theorem create_then_lookup_witness:
  "\<exists>tok raw es'. create_step utc_calendar demo_codec demo_random (demo_new (Some 1000000000)) demo_now [] =
       Inr ((tok, raw), Some es') \<and>
     lookup_raw_bearer utc_calendar demo_codec es' raw demo_now = Inr (Some tok) \<and>
     lookup_raw_bearer utc_calendar demo_codec es' raw (demo_now\<lparr>od_second := 59\<rparr>) = Inr None"
proof -
  have "tl_checked_add utc_calendar demo_now 1000000000 = Some (utc_of_nanos 1709210097500000000)"
    by (simp add: utc_calendar_def stamp_range_def)
  then obtain tok raw es' where c: "create_step utc_calendar demo_codec demo_random (demo_new (Some 1000000000)) demo_now [] =
      Inr ((tok, raw), Some es')"
    by (simp add: create_step_def new_record_def random_or_def demo_random_def demo_new_def expiry_of_ttl_def expiry_after_def Let_def)
  have later: "utc_nanos (demo_now\<lparr>od_second := 59\<rparr>) = 1709210099500000000"
    by (simp add: demo_now_def utc_nanos_def days_from_civil_def Let_def)
  show ?thesis
    using c create_then_lookup [OF utc_calendar_ok demo_now_ok(1) _ c, of demo_now]
      create_then_lookup [OF utc_calendar_ok demo_now_ok(1) _ c, of "demo_now\<lparr>od_second := 59\<rparr>"] later
    by (simp add: demo_new_def)
qed

lemma demo_rotation:
  obtains rot ra es' where "rotate_via_refresh_step utc_calendar demo_codec demo_random (lit ''zz'') None [] demo_now
      [(lit ''a'', demo_token (lit ''a'') (lit ''zz''))] = Inr ((rot, ra, lit ''0203''), Some es')"
  by (simp add: rotate_via_refresh_step_def demo_token_def demo_codec_def as_bytes_def utf8_bytes_def opt_expiry_def past_def
      rotate_old_step_def new_record_def random_or_def rotated_request_def expiry_of_ttl_def with_refresh_def Let_def
      demo_random_def encode_hex_def hex_digit_def)


theorem rotate_leaves_one_witness:
  "\<exists>tok raw es'. rotate_step utc_calendar demo_codec demo_random (demo_new None) demo_now
       [(lit ''a'', demo_token (lit ''a'') [])] = Inr ((tok, raw), Some es') \<and>
     (\<forall>e \<in> snd ` set es'. tk_agent_name e = lit ''bot'' \<and> \<not> tk_revoked e \<longrightarrow> e = tok)"
proof -
  have wf: "reg_wf [(lit ''a'', demo_token (lit ''a'') [])]" by (simp add: demo_token_def)
  obtain tok raw es' where r: "rotate_step utc_calendar demo_codec demo_random (demo_new None) demo_now
       [(lit ''a'', demo_token (lit ''a'') [])] = Inr ((tok, raw), Some es')"
    by (simp add: rotate_step_def new_record_def random_or_def demo_random_def demo_new_def expiry_of_ttl_def Let_def)
  have "nt_agent_name (demo_new None) = lit ''bot''" by (simp add: demo_new_def)
  with rotate_leaves_one [OF wf r] r show ?thesis by metis
qed

theorem revoke_step_iff_witness:
  "\<exists>es'. revoke_step utc_calendar (lit ''bot'') (lit ''a'') demo_now [(lit ''a'', demo_token (lit ''a'') [])] =
     Inr (True, Some es') \<and> reg_wf es'"
proof -
  have wf: "reg_wf [(lit ''a'', demo_token (lit ''a'') [])]" by (simp add: demo_token_def)
  have "revoke_step utc_calendar (lit ''bot'') (lit ''a'') demo_now [(lit ''a'', demo_token (lit ''a'') [])] =
     Inr (True, Some [(lit ''a'', revoke_record utc_calendar demo_now (demo_token (lit ''a'') []))])"
    by (simp add: revoke_step_def purge_expired_def is_expired_def demo_token_def)
  then show ?thesis using revoke_step_iff [OF wf, where T = utc_calendar and agent = "lit ''bot''" and i = "lit ''a''" and now = demo_now] by auto
qed

theorem verify_s256_iff_witness:
  "verify_s256_code_verifier (\<lambda>b. b) (\<lambda>b. [65]) (replicate 43 97) [65]"
  using verify_s256_iff [of "\<lambda>b. [65]" "[65]" "\<lambda>b. b" "replicate 43 97"]
  by (simp add: str_len_def utf8_width_def as_bytes_def utf8_bytes_def verifier_byte_def list_all_iff sum_list_replicate)

theorem rotate_via_refresh_panics_iff_witness:
  "rotate_via_refresh_step utc_calendar demo_codec \<lparr>rt_token = Inr [0], rt_id = Inr [0], rt_refresh = Inr [0]\<rparr> (lit ''zz'')
     None [] demo_now [(lit ''b'', demo_token (lit ''a'') (lit ''zz''))] =
   Inl (Panicked (lit ''old refresh token remains in locked registry''))"
  using rotate_via_refresh_panics_iff [where es = "[]" and T = utc_calendar and R = demo_codec and rnd = demo_random
      and raw = "lit ''zz''" and acc = None and rh = "[]" and now = demo_now and m = "[]" and tb = "[0]" and ib = "[0]" and rb = "[0]"]
  by (simp add: demo_token_def demo_codec_def as_bytes_def utf8_bytes_def)


end
