(* ===== verification/Read_Admission.thy ===== *)
theory Read_Admission
  imports Store_Error
begin

text \<open>
  \<^verbatim>\<open>symvault-store/src/read_admission.rs\<close>: the process-wide reservations of transient vault reads.
  At most four readers are active, at most thirty-two wait, each at most ten seconds, and a batch of
  reads shares two byte budgets kept in atomic counters.

  The mutex-protected state is \<open>adm_state\<close> (with the mutex's poison flag); the critical sections of
  \<open>acquire\<close> and of dropping a lease are functions on it, with the clock readings as arguments. Threads
  interleave at the condition variable only, so the process is the step relation \<open>adm_step\<close>, one
  critical section per step. An atomic read-modify-write of a counter is one step as well.
  Times are nanoseconds and a \<^verbatim>\<open>usize\<close> decrement wraps as it does in a release build.
\<close>

section \<open>Reservations\<close>

definition MAX_ACTIVE :: nat where "MAX_ACTIVE = 4"
definition MAX_PENDING :: nat where "MAX_PENDING = 32"
definition MAX_WAIT :: nat where "MAX_WAIT = 10 * 1000000000"
definition MAX_BATCH_BYTES :: nat where "MAX_BATCH_BYTES = 256 * 1024 * 1024"
definition MAX_PATH_BYTES :: nat where "MAX_PATH_BYTES = 8 * 1024 * 1024"

record adm_state =
  active :: nat
  pending :: nat
  poisoned :: bool

datatype attempt = Admitted | Refused | Waits

definition usize_dec :: "nat \<Rightarrow> nat" where
  "usize_dec n = (if n = 0 then 2 ^ 64 - 1 else n - 1)"

text \<open>The first critical section, up to the loop.\<close>

definition acquire_enter :: "adm_state \<Rightarrow> attempt \<times> adm_state" where
  "acquire_enter s =
     (if poisoned s then (Refused, s)
      else if active s < MAX_ACTIVE then (Admitted, s\<lparr>active := active s + 1\<rparr>)
      else if MAX_PENDING \<le> pending s then (Refused, s)
      else (Waits, s\<lparr>pending := pending s + 1\<rparr>))"

text \<open>The head of the loop: wait for the rest of the time, or give up.\<close>

definition wait_again :: "nat \<Rightarrow> nat \<Rightarrow> adm_state \<Rightarrow> attempt \<times> adm_state" where
  "wait_again deadline now s =
     (if deadline < now then (Refused, s\<lparr>pending := usize_dec (pending s)\<rparr>) else (Waits, s))"

definition acquire_start :: "nat \<Rightarrow> nat \<Rightarrow> adm_state \<Rightarrow> attempt \<times> adm_state" where
  "acquire_start now now' s =
     (case acquire_enter s of
        (Waits, s') \<Rightarrow> wait_again (now + MAX_WAIT) now' s'
      | r \<Rightarrow> r)"

text \<open>The critical section after a wake-up, from the state the thread finds to the next wait.\<close>

definition acquire_wake :: "nat \<Rightarrow> nat \<Rightarrow> nat \<Rightarrow> adm_state \<Rightarrow> attempt \<times> adm_state" where
  "acquire_wake deadline now now' s =
     (if poisoned s then (Refused, s)
      else if deadline \<le> now then (Refused, s\<lparr>pending := usize_dec (pending s)\<rparr>)
      else if active s < MAX_ACTIVE
        then (Admitted, s\<lparr>pending := usize_dec (pending s), active := active s + 1\<rparr>)
      else wait_again deadline now' s)"

text \<open>The whole call: a wake-up is the state found and the two clock readings made there.\<close>

fun acquire_loop :: "nat \<Rightarrow> (adm_state \<times> nat \<times> nat) list \<Rightarrow> adm_state \<Rightarrow> attempt \<times> adm_state" where
  "acquire_loop deadline [] s = (Waits, s)"
| "acquire_loop deadline ((found, now, now') # wakes) s =
     (case acquire_wake deadline now now' found of
        (Waits, s') \<Rightarrow> acquire_loop deadline wakes s'
      | r \<Rightarrow> r)"

definition acquire :: "nat \<Rightarrow> nat \<Rightarrow> (adm_state \<times> nat \<times> nat) list \<Rightarrow> adm_state \<Rightarrow> attempt \<times> adm_state" where
  "acquire now now' wakes s =
     (case acquire_start now now' s of
        (Waits, s') \<Rightarrow> acquire_loop (now + MAX_WAIT) wakes s'
      | r \<Rightarrow> r)"

definition lease_drop :: "adm_state \<Rightarrow> adm_state" where
  "lease_drop s = (if poisoned s then s else s\<lparr>active := usize_dec (active s)\<rparr>)"

definition admission_default :: adm_state where
  "admission_default = \<lparr>active = 0, pending = 0, poisoned = False\<rparr>"

section \<open>Byte budgets\<close>

record batch =
  ciphertext :: nat
  decoded :: nat

definition FAILED :: nat where "FAILED = 2 ^ 64 - 1"

definition u64_checked_add :: "nat \<Rightarrow> nat \<Rightarrow> nat option" where
  "u64_checked_add a b = (if a + b < 2 ^ 64 then Some (a + b) else None)"

definition charge_update :: "nat \<Rightarrow> nat \<Rightarrow> nat option" where
  "charge_update bytes used =
     (if used = FAILED then None
      else Some (case u64_checked_add used bytes of
                   None \<Rightarrow> FAILED
                 | Some n \<Rightarrow> if n \<le> MAX_BATCH_BYTES then n else FAILED))"

definition charge :: "nat \<Rightarrow> nat \<Rightarrow> (store_error + unit) \<times> nat" where
  "charge counter bytes =
     (case charge_update bytes counter of
        None \<Rightarrow> (Inl ResourceLimit, counter)
      | Some n \<Rightarrow>
          (if (case u64_checked_add counter bytes of None \<Rightarrow> True | Some m \<Rightarrow> MAX_BATCH_BYTES < m)
           then Inl ResourceLimit else Inr (), n))"

definition batch_fail :: "batch \<Rightarrow> batch" where
  "batch_fail b = b\<lparr>ciphertext := FAILED, decoded := FAILED\<rparr>"

definition batch_consume :: "nat \<Rightarrow> batch \<Rightarrow> (store_error + unit) \<times> batch" where
  "batch_consume bytes b = (let (r, c) = charge (ciphertext b) bytes in (r, b\<lparr>ciphertext := c\<rparr>))"

definition consume_decoded :: "nat \<Rightarrow> batch \<Rightarrow> (store_error + unit) \<times> batch" where
  "consume_decoded bytes b =
     (let (r, c) = charge (decoded b) bytes; b' = b\<lparr>decoded := c\<rparr>
      in case r of Inl _ \<Rightarrow> (r, batch_fail b') | Inr _ \<Rightarrow> (r, b'))"

definition add_path_bytes :: "nat \<Rightarrow> ustring \<Rightarrow> store_error + nat" where
  "add_path_bytes used path =
     (case u64_checked_add used (str_len path) of
        None \<Rightarrow> Inl ResourceLimit
      | Some n \<Rightarrow> if MAX_PATH_BYTES < n then Inl ResourceLimit else Inr n)"


section \<open>The process\<close>

text \<open>
  \<open>holders\<close> are the threads with a lease, \<open>waiting\<close> maps a waiting thread to its deadline. The clock
  is monotone. A thread enters, wakes up or drops its lease, and time passes.
\<close>

record 't adm_sys =
  shared :: adm_state
  holders :: "'t set"
  waiting :: "'t \<rightharpoonup> nat"
  clock :: nat

definition settle :: "'t \<Rightarrow> nat \<Rightarrow> attempt \<times> adm_state \<Rightarrow> 't adm_sys \<Rightarrow> 't adm_sys" where
  "settle t deadline r S =
     (case r of
        (Admitted, s) \<Rightarrow> S\<lparr>shared := s, holders := insert t (holders S), waiting := (waiting S)(t := None)\<rparr>
      | (Refused, s) \<Rightarrow> S\<lparr>shared := s, waiting := (waiting S)(t := None)\<rparr>
      | (Waits, s) \<Rightarrow> S\<lparr>shared := s, waiting := (waiting S)(t \<mapsto> deadline)\<rparr>)"

inductive adm_step :: "'t adm_sys \<Rightarrow> 't adm_sys \<Rightarrow> bool" where
  enter: "t \<notin> holders S \<Longrightarrow> waiting S t = None \<Longrightarrow> clock S \<le> n \<Longrightarrow> n \<le> n' \<Longrightarrow>
    adm_step S (settle t (n + MAX_WAIT) (acquire_start n n' (shared S)) (S\<lparr>clock := n'\<rparr>))"
| wake: "waiting S t = Some d \<Longrightarrow> clock S \<le> n \<Longrightarrow> n \<le> n' \<Longrightarrow>
    adm_step S (settle t d (acquire_wake d n n' (shared S)) (S\<lparr>clock := n'\<rparr>))"
| leave: "t \<in> holders S \<Longrightarrow>
    adm_step S (S\<lparr>shared := lease_drop (shared S), holders := holders S - {t}\<rparr>)"
| tick: "clock S \<le> n \<Longrightarrow> adm_step S (S\<lparr>clock := n\<rparr>)"

inductive_cases adm_stepE: "adm_step S S'"

definition adm_init :: "'t adm_sys \<Rightarrow> bool" where
  "adm_init S \<longleftrightarrow> shared S = admission_default \<and> holders S = {} \<and> waiting S = Map.empty"

definition adm_inv :: "'t adm_sys \<Rightarrow> bool" where
  "adm_inv S \<longleftrightarrow> \<not> poisoned (shared S) \<and> finite (holders S) \<and> finite (dom (waiting S)) \<and>
     holders S \<inter> dom (waiting S) = {} \<and>
     active (shared S) = card (holders S) \<and> pending (shared S) = card (dom (waiting S)) \<and>
     active (shared S) \<le> MAX_ACTIVE \<and> pending (shared S) \<le> MAX_PENDING"

lemmas admission_defs = acquire_start_def acquire_enter_def acquire_wake_def wait_again_def lease_drop_def usize_dec_def

lemma card_insert_waiter [simp]: "w t = None \<Longrightarrow> finite (dom w) \<Longrightarrow> card (insert t (dom w)) = Suc (card (dom w))"
  by (subst card_insert_disjoint) auto

lemma dom_remove_fresh [simp]: "w t = None \<Longrightarrow> dom w - {t} = dom w"
  by auto

lemma adm_inv_enter:
  assumes "adm_inv S" "t \<notin> holders S" "waiting S t = None"
  shows "adm_inv (settle t (n + MAX_WAIT) (acquire_start n n' (shared S)) (S\<lparr>clock := n'\<rparr>))"
proof -
  consider (free) "active (shared S) < MAX_ACTIVE" | (full) "\<not> active (shared S) < MAX_ACTIVE" "MAX_PENDING \<le> pending (shared S)"
    | (late) "\<not> active (shared S) < MAX_ACTIVE" "\<not> MAX_PENDING \<le> pending (shared S)" "n + MAX_WAIT < n'"
    | (queue) "\<not> active (shared S) < MAX_ACTIVE" "\<not> MAX_PENDING \<le> pending (shared S)" "\<not> n + MAX_WAIT < n'"
    by blast
  then show ?thesis
    by cases (use assms in \<open>auto simp: adm_inv_def settle_def admission_defs\<close>)
qed

lemma waiter_counted: "adm_inv S \<Longrightarrow> waiting S t = Some d \<Longrightarrow> 0 < pending (shared S)"
  by (auto simp: adm_inv_def card_gt_0_iff)

lemma card_remove_waiter: "waiting S t = Some d \<Longrightarrow> finite (dom (waiting S)) \<Longrightarrow> card (dom (waiting S) - {t}) = card (dom (waiting S)) - 1"
  by (simp add: card_Diff_singleton domI)

lemma adm_inv_wake:
  assumes "adm_inv S" "waiting S t = Some d"
  shows "adm_inv (settle t d (acquire_wake d n n' (shared S)) (S\<lparr>clock := n'\<rparr>))"
proof -
  note p = waiter_counted [OF assms] and t = card_remove_waiter [OF assms(2)]
  have nh: "t \<notin> holders S" using assms by (auto simp: adm_inv_def)
  have ins: "insert t (dom (waiting S)) = dom (waiting S)" using assms(2) by auto
  consider (due) "d \<le> n" | (free) "\<not> d \<le> n" "active (shared S) < MAX_ACTIVE"
    | (late) "\<not> d \<le> n" "\<not> active (shared S) < MAX_ACTIVE" "d < n'"
    | (again) "\<not> d \<le> n" "\<not> active (shared S) < MAX_ACTIVE" "\<not> d < n'" by blast
  then show ?thesis
    by cases (use assms p t nh ins in \<open>auto simp: adm_inv_def settle_def admission_defs\<close>)
qed

lemma adm_inv_leave:
  assumes "adm_inv S" "t \<in> holders S"
  shows "adm_inv (S\<lparr>shared := lease_drop (shared S), holders := holders S - {t}\<rparr>)"
proof -
  have "0 < card (holders S)" using assms by (auto simp: adm_inv_def card_gt_0_iff)
  with assms show ?thesis by (auto simp: adm_inv_def admission_defs card_Diff_singleton)
qed

interpretation admission: guarded_machine adm_init adm_step adm_inv
proof
  show "adm_init S \<Longrightarrow> adm_inv S" for S :: "'t adm_sys"
    by (simp add: adm_init_def adm_inv_def admission_default_def MAX_ACTIVE_def)
  show "adm_inv S \<Longrightarrow> adm_step S S' \<Longrightarrow> adm_inv S'" for S S' :: "'t adm_sys"
    by (elim adm_stepE) (simp_all add: adm_inv_enter adm_inv_wake adm_inv_leave, simp add: adm_inv_def)
qed

text \<open>
  C18. In every state any interleaving of threads reaches, the counters agree with the threads: the
  active count is the number of leases and at most four, the pending count is the number of waiting
  threads and at most thirty-two, so no decrement wraps; and a thread that asks while fewer than four
  leases are out is admitted at once.
\<close>

theorem admission_bounded:
  assumes "adm_init S0" "adm_step\<^sup>*\<^sup>* S0 S"
  shows "active (shared S) = card (holders S) \<and> card (holders S) \<le> 4 \<and>
    pending (shared S) = card (dom (waiting S)) \<and> card (dom (waiting S)) \<le> 32 \<and>
    (card (holders S) < 4 \<longrightarrow>
      acquire_start n n' (shared S) = (Admitted, shared S\<lparr>active := card (holders S) + 1\<rparr>))"
proof -
  have "adm_inv S" using admission.inv_run [OF assms] .
  then show ?thesis
    by (auto simp: adm_inv_def acquire_start_def acquire_enter_def MAX_ACTIVE_def MAX_PENDING_def)
qed

lemma acquire_wake_due: "deadline \<le> now \<Longrightarrow> fst (acquire_wake deadline now now' s) = Refused"
  by (simp add: acquire_wake_def)

lemma acquire_loop_returns:
  "\<exists>(found, now, now') \<in> set wakes. deadline \<le> now \<Longrightarrow> fst (acquire_loop deadline wakes s) \<noteq> Waits"
proof (induction wakes arbitrary: s)
  case (Cons w wakes)
  obtain found now now' where w: "w = (found, now, now')" by (cases w)
  show ?case
  proof (cases "deadline \<le> now")
    case True
    then show ?thesis
      using acquire_wake_due [OF True, of now' found] by (auto simp: w split: prod.splits attempt.splits)
  next
    case False
    then show ?thesis using Cons by (auto simp: w split: prod.splits attempt.splits)
  qed
qed simp

text \<open>
  C19. A call of \<open>acquire\<close> returns: as soon as one of its wake-ups happens ten seconds or more after it
  began to wait, whatever the spurious wake-ups before and the states found there, the answer is a
  lease or a refusal. And a waiting thread of a reachable state that wakes in time while a lease is
  free is admitted, one that wakes at its deadline gives its place in the queue back.
\<close>

theorem acquire_returns:
  assumes "\<exists>(found, now, now') \<in> set wakes. start + 10000000000 \<le> now"
    and "adm_init S0" "adm_step\<^sup>*\<^sup>* S0 S" "waiting S t = Some d"
  shows "fst (acquire start n0 wakes s) \<noteq> Waits \<and>
    (n < d \<and> card (holders S) < 4 \<longrightarrow> fst (acquire_wake d n n' (shared S)) = Admitted) \<and>
    (d \<le> n \<longrightarrow> acquire_wake d n n' (shared S) =
       (Refused, shared S\<lparr>pending := card (dom (waiting S) - {t})\<rparr>))"
proof (intro conjI impI)
  show "fst (acquire start n0 wakes s) \<noteq> Waits"
    using acquire_loop_returns [of wakes "start + MAX_WAIT"] assms(1)
    by (auto simp: acquire_def MAX_WAIT_def split: prod.splits attempt.splits)
  have inv: "adm_inv S" using admission.inv_run [OF assms(2,3)] .
  show "fst (acquire_wake d n n' (shared S)) = Admitted" if "n < d \<and> card (holders S) < 4"
    using inv that by (auto simp: acquire_wake_def adm_inv_def MAX_ACTIVE_def)
  show "acquire_wake d n n' (shared S) = (Refused, shared S\<lparr>pending := card (dom (waiting S) - {t})\<rparr>)" if "d \<le> n"
    using inv that waiter_counted [OF inv assms(4)] card_remove_waiter [OF assms(4)]
    by (auto simp: acquire_wake_def adm_inv_def usize_dec_def)
qed

section \<open>Budgets are kept\<close>

text \<open>
  The atomic steps threads make on a shared batch, with the bytes granted on each counter as ghost
  state. The two stores of \<open>fail\<close> are steps of their own, since another thread may run between them.
\<close>

datatype batch_step = ChargeCipher nat | ChargeDecoded nat | StoreCipher | StoreDecoded

fun batch_do :: "batch_step \<Rightarrow> batch \<times> nat \<times> nat \<Rightarrow> batch \<times> nat \<times> nat" where
  "batch_do (ChargeCipher n) (b, c, d) =
     (let (r, v) = charge (ciphertext b) n in (b\<lparr>ciphertext := v\<rparr>, if r = Inr () then c + n else c, d))"
| "batch_do (ChargeDecoded n) (b, c, d) =
     (let (r, v) = charge (decoded b) n in (b\<lparr>decoded := v\<rparr>, c, if r = Inr () then d + n else d))"
| "batch_do StoreCipher (b, c, d) = (b\<lparr>ciphertext := FAILED\<rparr>, c, d)"
| "batch_do StoreDecoded (b, c, d) = (b\<lparr>decoded := FAILED\<rparr>, c, d)"

definition fresh_batch :: "batch \<times> nat \<times> nat" where
  "fresh_batch = (\<lparr>ciphertext = 0, decoded = 0\<rparr>, 0, 0)"

definition counter_ok :: "nat \<Rightarrow> nat \<Rightarrow> bool" where
  "counter_ok v granted \<longleftrightarrow> (v = FAILED \<or> v = granted) \<and> granted \<le> MAX_BATCH_BYTES"

lemma charge_cases:
  "v = FAILED \<and> charge v n = (Inl ResourceLimit, FAILED) \<or>
   v \<noteq> FAILED \<and> MAX_BATCH_BYTES < v + n \<and> charge v n = (Inl ResourceLimit, FAILED) \<or>
   v \<noteq> FAILED \<and> v + n \<le> MAX_BATCH_BYTES \<and> charge v n = (Inr (), v + n)"
  by (auto simp: charge_def charge_update_def u64_checked_add_def MAX_BATCH_BYTES_def FAILED_def)

lemma counter_ok_charge:
  assumes "counter_ok v g" "charge v n = (r, v')"
  shows "counter_ok v' (if r = Inr () then g + n else g)"
  using assms charge_cases [of v n] by (auto simp: counter_ok_def)

definition batch_inv :: "batch \<times> nat \<times> nat \<Rightarrow> bool" where
  "batch_inv S \<longleftrightarrow> (case S of (b, c, d) \<Rightarrow> counter_ok (ciphertext b) c \<and> counter_ok (decoded b) d)"

lemma batch_inv_do: "batch_inv S \<Longrightarrow> batch_inv (batch_do a S)"
proof (cases S)
  case (fields b c d)
  assume "batch_inv S"
  then have ok: "counter_ok (ciphertext b) c" "counter_ok (decoded b) d" by (simp_all add: batch_inv_def fields)
  have failed: "counter_ok FAILED c" "counter_ok FAILED d" using ok by (simp_all add: counter_ok_def)
  show ?thesis
  proof (cases a)
    case (ChargeCipher n)
    obtain r v where "charge (ciphertext b) n = (r, v)" by (cases "charge (ciphertext b) n")
    with ok counter_ok_charge [OF ok(1) this] show ?thesis by (simp add: batch_inv_def fields ChargeCipher)
  next
    case (ChargeDecoded n)
    obtain r v where "charge (decoded b) n = (r, v)" by (cases "charge (decoded b) n")
    with ok counter_ok_charge [OF ok(2) this] show ?thesis by (simp add: batch_inv_def fields ChargeDecoded)
  qed (use ok failed in \<open>simp_all add: batch_inv_def fields\<close>)
qed

definition batch_trans :: "batch \<times> nat \<times> nat \<Rightarrow> batch \<times> nat \<times> nat \<Rightarrow> bool" where
  "batch_trans S S' \<longleftrightarrow> (\<exists>a. S' = batch_do a S)"

interpretation budget: guarded_machine "\<lambda>S. S = fresh_batch" batch_trans batch_inv
proof
  show "S = fresh_batch \<Longrightarrow> batch_inv S" for S
    by (simp add: batch_inv_def fresh_batch_def counter_ok_def)
  show "batch_inv S \<Longrightarrow> batch_trans S S' \<Longrightarrow> batch_inv S'" for S S'
    unfolding batch_trans_def by (auto simp del: batch_do.simps intro: batch_inv_do)
qed

lemma consume_decoded_steps:
  "consume_decoded n b =
     (fst (charge (decoded b) n),
      fst (fold batch_do
        (ChargeDecoded n # (if fst (charge (decoded b) n) = Inr () then [] else [StoreCipher, StoreDecoded])) (b, c, d)))"
  using charge_cases [of "decoded b" n] by (auto simp: consume_decoded_def batch_fail_def)

text \<open>
  C20. However the threads of a batch interleave, the bytes granted on each counter never exceed
  256 MiB; a counter holds the bytes granted, or has failed; a charge succeeds exactly when the counter
  has not failed and the sum stays in the budget; and after one refusal the counter refuses every
  further charge.
\<close>

theorem batch_budget:
  assumes "fold batch_do steps fresh_batch = (b, c, d)"
  shows "c \<le> 268435456 \<and> d \<le> 268435456 \<and>
    (ciphertext b = 2 ^ 64 - 1 \<or> ciphertext b = c) \<and> (decoded b = 2 ^ 64 - 1 \<or> decoded b = d) \<and>
    (fst (batch_consume n b) = Inr () \<longleftrightarrow> ciphertext b = c \<and> c + n \<le> 268435456) \<and>
    (fst (consume_decoded n b) = Inr () \<longleftrightarrow> decoded b = d \<and> d + n \<le> 268435456) \<and>
    (fst (batch_consume n b) \<noteq> Inr () \<longrightarrow> fst (batch_consume m (snd (batch_consume n b))) = Inl ResourceLimit) \<and>
    (fst (consume_decoded n b) \<noteq> Inr () \<longrightarrow>
       fst (batch_consume m (snd (consume_decoded n b))) = Inl ResourceLimit \<and>
       fst (consume_decoded m (snd (consume_decoded n b))) = Inl ResourceLimit)"
proof -
  have "batch_trans\<^sup>*\<^sup>* fresh_batch (b, c, d)"
    unfolding assms [symmetric] by (rule fold_reach) (auto simp: batch_trans_def)
  then have "batch_inv (b, c, d)" by (rule budget.inv_run [OF refl])
  then have ok: "counter_ok (ciphertext b) c" "counter_ok (decoded b) d" by (simp_all add: batch_inv_def)
  have dec: "fst (consume_decoded n b) = fst (charge (decoded b) n)"
    "snd (consume_decoded n b) = (if fst (charge (decoded b) n) = Inr () then b\<lparr>decoded := snd (charge (decoded b) n)\<rparr> else batch_fail b)" for n b
    by (auto simp: consume_decoded_def batch_fail_def Let_def split: prod.splits sum.splits)
  have con: "fst (batch_consume n b) = fst (charge (ciphertext b) n)"
    "snd (batch_consume n b) = b\<lparr>ciphertext := snd (charge (ciphertext b) n)\<rparr>" for n b
    by (simp_all add: batch_consume_def split: prod.splits)
  have F: "charge FAILED m = (Inl ResourceLimit, FAILED)" using charge_cases [of FAILED m] by auto
  have big: "MAX_BATCH_BYTES < FAILED" by (simp add: MAX_BATCH_BYTES_def FAILED_def)
  have csts: "268435456 = MAX_BATCH_BYTES" "2 ^ 64 - 1 = FAILED" by (simp_all add: MAX_BATCH_BYTES_def FAILED_def)
  show ?thesis unfolding csts
    using ok big charge_cases [of "ciphertext b" n] charge_cases [of "decoded b" n]
    by (auto simp: dec con F counter_ok_def batch_fail_def)
qed

lemma add_path_bytes_sum:
  "add_path_bytes used path =
     (if used + str_len path \<le> MAX_PATH_BYTES then Inr (used + str_len path) else Inl ResourceLimit)"
  by (auto simp: add_path_bytes_def u64_checked_add_def MAX_PATH_BYTES_def)

section \<open>Witnesses\<close>

definition idle_sys :: "nat adm_sys" where
  "idle_sys = \<lparr>shared = admission_default, holders = {}, waiting = Map.empty, clock = 0\<rparr>"

text \<open>Four readers and a fifth that waits.\<close>

definition enter_one :: "nat \<Rightarrow> nat adm_sys \<Rightarrow> nat adm_sys" where
  "enter_one t S = settle t MAX_WAIT (acquire_start 0 0 (shared S)) (S\<lparr>clock := 0\<rparr>)"

lemma enter_one_step: "t \<notin> holders S \<Longrightarrow> waiting S t = None \<Longrightarrow> clock S = 0 \<Longrightarrow> adm_step S (enter_one t S)"
  using adm_step.enter [of t S 0 0] by (simp add: enter_one_def)

definition busy_sys :: "nat adm_sys" where
  "busy_sys = \<lparr>shared = \<lparr>active = 4, pending = 1, poisoned = False\<rparr>, holders = {1, 2, 3, 4},
     waiting = [5 \<mapsto> MAX_WAIT], clock = 0\<rparr>"

lemma busy_reached: "adm_step\<^sup>*\<^sup>* idle_sys busy_sys"
proof -
  have e: "enter_one t \<lparr>shared = \<lparr>active = a, pending = 0, poisoned = False\<rparr>, holders = H, waiting = Map.empty, clock = 0\<rparr> =
      \<lparr>shared = \<lparr>active = a + 1, pending = 0, poisoned = False\<rparr>, holders = insert t H, waiting = Map.empty, clock = 0\<rparr>"
    if "a < 4" for a t H
    using that by (simp add: enter_one_def settle_def admission_defs MAX_ACTIVE_def)
  let ?S = "\<lambda>a H. \<lparr>shared = \<lparr>active = a, pending = 0, poisoned = False\<rparr>, holders = H, waiting = Map.empty, clock = 0\<rparr> :: nat adm_sys"
  have st: "adm_step (?S a H) (?S (a + 1) (insert t H))" if "a < 4" "t \<notin> H" for a t H
    using enter_one_step [of t "?S a H"] e [OF that(1)] that by simp
  have "adm_step\<^sup>*\<^sup>* (?S 0 {}) (?S 4 {1, 2, 3, 4})"
    using st [of 0 4 "{}"] st [of 1 3 "{4}"] st [of 2 2 "{3, 4}"] st [of 3 1 "{2, 3, 4}"]
    by (simp add: rtranclp.rtrancl_into_rtrancl eval_nat_numeral)
  moreover have "enter_one 5 (?S 4 {1, 2, 3, 4}) = busy_sys"
    by (simp add: enter_one_def settle_def admission_defs MAX_ACTIVE_def MAX_PENDING_def busy_sys_def)
  then have "adm_step (?S 4 {1, 2, 3, 4}) busy_sys"
    using enter_one_step [of 5 "?S 4 {1, 2, 3, 4}"] by simp
  ultimately show ?thesis by (simp add: idle_sys_def admission_default_def rtranclp.rtrancl_into_rtrancl)
qed

lemma idle_init: "adm_init idle_sys"
  by (simp add: adm_init_def idle_sys_def)

theorem admission_bounded_witness:
  "active (shared busy_sys) = 4 \<and> card (holders busy_sys) = 4 \<and> card (dom (waiting busy_sys)) = 1"
  using admission_bounded [OF idle_init busy_reached, of 0 0] by (simp add: busy_sys_def)

theorem acquire_returns_witness:
  "fst (acquire 0 0 [(shared busy_sys, 5, 5), (shared busy_sys, 10000000000, 10000000000)] (shared busy_sys)) \<noteq> Waits"
  using acquire_returns [where wakes = "[(shared busy_sys, 5, 5), (shared busy_sys, 10000000000, 10000000000)]" and start = 0
      and ?S0.0 = idle_sys and S = busy_sys and t = 5 and d = MAX_WAIT and ?n0.0 = 0 and s = "shared busy_sys"]
    idle_init busy_reached by (simp add: busy_sys_def)

theorem batch_budget_witness:
  "fold batch_do [ChargeCipher 268435456, ChargeDecoded 5] fresh_batch = (\<lparr>ciphertext = 268435456, decoded = 5\<rparr>, 268435456, 5) \<and>
   fst (batch_consume 1 \<lparr>ciphertext = 268435456, decoded = 5\<rparr>) \<noteq> Inr ()"
proof -
  have "fold batch_do [ChargeCipher 268435456, ChargeDecoded 5] fresh_batch = (\<lparr>ciphertext = 268435456, decoded = 5\<rparr>, 268435456, 5)"
    by (simp add: fresh_batch_def charge_def charge_update_def u64_checked_add_def MAX_BATCH_BYTES_def FAILED_def)
  with batch_budget [OF this, of 1 0] show ?thesis by simp
qed

end
