(* ===== verification/Password.thy ===== *)
theory Password
  imports Prelude "HOL-Library.FuncSet"
begin

unbundle bit_operations_syntax

text \<open>
  \<^verbatim>\<open>symvault-core/src/password.rs\<close>: password generation from a byte reader by rejection sampling, and
  the strength assessment.

  The reader is a function from its state to one byte (or an error) and the next state. The sampling
  loop has no bound in the source, so it is a partial function into \<open>option\<close>: \<open>None\<close> means that the call
  never returns. Characters are classified by the Unicode tables of the standard library and of the
  \<^verbatim>\<open>unicode_categories\<close> crate, and the entropy is an IEEE double: both are parameters (\<open>char_class\<close>,
  \<open>f64_ops\<close>).
\<close>

section \<open>Generation\<close>

definition MAX_PASSWORD_LENGTH :: nat where "MAX_PASSWORD_LENGTH = 1024"
definition LETTERS :: "nat list" where "LETTERS = lit ''abcdefghjkmnpqrstuvwxyzABCDEFGHJKMNPQRSTUVWXYZ23456789''"
definition SYMBOLS :: "nat list" where "SYMBOLS = lit ''!@#$%^&*()-_=+[]{}|;:,.<>?/~''"

datatype password_error =
    TooLong nat nat
  | RandomSource ustring

fun bit_len :: "nat \<Rightarrow> nat" where
  "bit_len n = (if n = 0 then 0 else Suc (bit_len (n div 2)))"

declare bit_len.simps [simp del]

definition index_mask :: "nat \<Rightarrow> nat" where
  "index_mask upper = (2 ^ bit_len (upper - 1) - 1) mod 256"

partial_function (option) uniform_loop ::
  "('r \<Rightarrow> (ustring + nat) \<times> 'r) \<Rightarrow> nat \<Rightarrow> nat \<Rightarrow> 'r \<Rightarrow> ((password_error + nat) \<times> 'r) option" where
  "uniform_loop read upper msk r =
     (case read r of
        (Inl e, r') \<Rightarrow> Some (Inl (RandomSource e), r')
      | (Inr byte, r') \<Rightarrow>
          if byte AND msk < upper then Some (Inr (byte AND msk), r') else uniform_loop read upper msk r')"

declare uniform_loop.simps [code]

definition uniform_index ::
  "('r \<Rightarrow> (ustring + nat) \<times> 'r) \<Rightarrow> nat \<Rightarrow> 'r \<Rightarrow> ((password_error + nat) \<times> 'r) option" where
  "uniform_index read upper r = uniform_loop read upper (index_mask upper) r"

fun password_chars ::
  "('r \<Rightarrow> (ustring + nat) \<times> 'r) \<Rightarrow> nat list \<Rightarrow> nat \<Rightarrow> 'r \<Rightarrow> ((password_error + nat list) \<times> 'r) option" where
  "password_chars read charset 0 r = Some (Inr [], r)"
| "password_chars read charset (Suc n) r =
     (case uniform_index read (length charset) r of
        None \<Rightarrow> None
      | Some (Inl e, r') \<Rightarrow> Some (Inl e, r')
      | Some (Inr i, r') \<Rightarrow>
          (case password_chars read charset n r' of
             Some (Inr cs, r'') \<Rightarrow> Some (Inr (charset ! i # cs), r'')
           | x \<Rightarrow> x))"

definition password_charset :: "bool \<Rightarrow> nat list" where
  "password_charset use_symbols = LETTERS @ (if use_symbols then SYMBOLS else [])"

definition password_length :: "int \<Rightarrow> nat" where
  "password_length len = (if len \<le> 0 then 16 else nat len)"

definition generate_password_with_reader ::
  "('r \<Rightarrow> (ustring + nat) \<times> 'r) \<Rightarrow> int \<Rightarrow> bool \<Rightarrow> 'r \<Rightarrow> ((password_error + nat list) \<times> 'r) option" where
  "generate_password_with_reader read len use_symbols r =
     (let n = password_length len
      in if MAX_PASSWORD_LENGTH < n then Some (Inl (TooLong n MAX_PASSWORD_LENGTH), r)
         else password_chars read (password_charset use_symbols) n r)"

section \<open>Strength\<close>

record char_class =
  cl_lower :: "uchar \<Rightarrow> bool"
  cl_upper :: "uchar \<Rightarrow> bool"
  cl_digit :: "uchar \<Rightarrow> bool"
  cl_symbol :: "uchar \<Rightarrow> bool"

record 'f f64_ops =
  fo_of_nat :: "nat \<Rightarrow> 'f"
  fo_mul :: "'f \<Rightarrow> 'f \<Rightarrow> 'f"
  fo_log2 :: "'f \<Rightarrow> 'f"
  fo_less :: "'f \<Rightarrow> 'f \<Rightarrow> bool"
  fo_fixed1 :: "'f \<Rightarrow> ustring"

record 'f password_strength =
  ps_weak :: bool
  ps_message :: ustring
  ps_entropy :: 'f
  ps_missing :: "ustring list"

text \<open>What the scan over the characters collects: the classes seen and the set of other characters.\<close>

record class_scan =
  has_lower :: bool
  has_upper :: bool
  has_digit :: bool
  has_symbol :: bool
  other_runes :: "uchar list"

definition scan_char :: "char_class \<Rightarrow> uchar \<Rightarrow> class_scan \<Rightarrow> class_scan" where
  "scan_char K c s =
     (if cl_lower K c then s\<lparr>has_lower := True\<rparr>
      else if cl_upper K c then s\<lparr>has_upper := True\<rparr>
      else if cl_digit K c then s\<lparr>has_digit := True\<rparr>
      else if cl_symbol K c then s\<lparr>has_symbol := True\<rparr>
      else s\<lparr>other_runes := List.insert c (other_runes s)\<rparr>)"

definition scan_password :: "char_class \<Rightarrow> ustring \<Rightarrow> class_scan" where
  "scan_password K pw =
     fold (scan_char K) pw
       \<lparr>has_lower = False, has_upper = False, has_digit = False, has_symbol = False, other_runes = []\<rparr>"

definition missing_classes :: "class_scan \<Rightarrow> ustring list" where
  "missing_classes s =
     (if has_lower s then [] else [lit ''lowercase'']) @ (if has_upper s then [] else [lit ''uppercase'']) @
     (if has_digit s then [] else [lit ''digits'']) @ (if has_symbol s then [] else [lit ''symbols''])"

definition charset_size :: "class_scan \<Rightarrow> nat" where
  "charset_size s =
     max 1 (length (other_runes s) + (if has_lower s then 26 else 0) + (if has_upper s then 26 else 0) +
       (if has_digit s then 10 else 0) + (if has_symbol s then 32 else 0))"

definition assess_password_strength :: "char_class \<Rightarrow> 'f f64_ops \<Rightarrow> ustring \<Rightarrow> 'f password_strength" where
  "assess_password_strength K F pw =
     (let rune_count = length pw
      in if rune_count < 10
         then \<lparr>ps_weak = True, ps_message = lit ''password too short: must be at least 10 characters'',
               ps_entropy = fo_of_nat F 0, ps_missing = []\<rparr>
         else
           (let s = scan_password K pw;
                entropy = fo_mul F (fo_of_nat F rune_count) (fo_log2 F (fo_of_nat F (charset_size s)));
                weak = fo_less F entropy (fo_of_nat F 60)
            in \<lparr>ps_weak = weak,
                ps_message =
                  (if weak then lit ''password too weak: estimated entropy '' @ fo_fixed1 F entropy @
                     lit '' bits, need at least 60 bits'' else []),
                ps_entropy = entropy, ps_missing = missing_classes s\<rparr>))"

definition validate_password_strength :: "char_class \<Rightarrow> 'f f64_ops \<Rightarrow> ustring \<Rightarrow> ustring + unit" where
  "validate_password_strength K F pw =
     (let a = assess_password_strength K F pw in if ps_weak a then Inl (ps_message a) else Inr ())"

section \<open>The sampling loop\<close>

text \<open>The reader state after \<open>n\<close> reads, and whether a read ends the loop.\<close>

definition nth_reader :: "('r \<Rightarrow> (ustring + nat) \<times> 'r) \<Rightarrow> nat \<Rightarrow> 'r \<Rightarrow> 'r" where
  "nth_reader read n r = ((snd \<circ> read) ^^ n) r"

definition ends_loop :: "('r \<Rightarrow> (ustring + nat) \<times> 'r) \<Rightarrow> nat \<Rightarrow> nat \<Rightarrow> 'r \<Rightarrow> bool" where
  "ends_loop read upper msk r \<longleftrightarrow>
     (case fst (read r) of Inl _ \<Rightarrow> True | Inr b \<Rightarrow> b AND msk < upper)"

lemma nth_reader_Suc: "nth_reader read (Suc n) r = nth_reader read n (snd (read r))"
  by (simp add: nth_reader_def funpow_swap1)

lemma nth_reader_0 [simp]: "nth_reader read 0 r = r"
  by (simp add: nth_reader_def)

definition index_ok :: "nat \<Rightarrow> password_error + nat \<Rightarrow> bool" where
  "index_ok upper x \<longleftrightarrow> (case x of Inl e \<Rightarrow> (\<exists>m. e = RandomSource m) | Inr i \<Rightarrow> i < upper)"

lemma uniform_loop_returns:
  "ends_loop read upper msk (nth_reader read n r) \<Longrightarrow>
   \<exists>x r'. uniform_loop read upper msk r = Some (x, r') \<and> index_ok upper x"
proof (induction n arbitrary: r)
  case 0
  then show ?case
    by (subst uniform_loop.simps) (auto simp: ends_loop_def index_ok_def split: prod.splits sum.splits)
next
  case (Suc n)
  have "\<exists>x r'. uniform_loop read upper msk (snd (read r)) = Some (x, r') \<and> index_ok upper x"
    using Suc.IH Suc.prems by (simp add: nth_reader_Suc)
  then show ?case
    by (subst uniform_loop.simps) (cases "read r"; cases "fst (read r)"; auto simp: index_ok_def)
qed

definition source_settles :: "('r \<Rightarrow> (ustring + nat) \<times> 'r) \<Rightarrow> nat \<Rightarrow> bool" where
  "source_settles read upper \<longleftrightarrow> (\<forall>r. \<exists>n. ends_loop read upper (index_mask upper) (nth_reader read n r))"

lemma password_chars_returns:
  assumes "source_settles read (length cs)"
  shows "\<exists>x r'. password_chars read cs k r = Some (x, r') \<and>
    (case x of Inl e \<Rightarrow> (\<exists>m. e = RandomSource m) | Inr pw \<Rightarrow> length pw = k \<and> set pw \<subseteq> set cs)"
proof (induction k arbitrary: r)
  case (Suc k)
  obtain n where "ends_loop read (length cs) (index_mask (length cs)) (nth_reader read n r)"
    using assms unfolding source_settles_def by blast
  from uniform_loop_returns [OF this] obtain x r' where
    u: "uniform_index read (length cs) r = Some (x, r')" and x: "index_ok (length cs) x"
    by (auto simp: uniform_index_def)
  obtain y r'' where y: "password_chars read cs k r' = Some (y, r'')"
    "case y of Inl e \<Rightarrow> (\<exists>m. e = RandomSource m) | Inr pw \<Rightarrow> length pw = k \<and> set pw \<subseteq> set cs"
    using Suc by blast
  show ?case
    by (cases x; cases y) (use u x y in \<open>auto simp: index_ok_def\<close>)
qed simp

lemma charset_length: "length (password_charset symb) = (if symb then 82 else 54)"
  by (simp add: password_charset_def LETTERS_def SYMBOLS_def)

text \<open>
  C37. Generation returns for every reader that keeps delivering a usable byte (or an error) after
  finitely many reads: a non-positive length means 16, a length over 1024 is refused without reading,
  and otherwise the answer is a reader error or a password of the requested length over the charset.
\<close>

theorem generate_password_returns:
  assumes "source_settles read (if symb then 82 else 54)"
  shows "\<exists>res r'. generate_password_with_reader read len symb r = Some (res, r') \<and>
    (if 1024 < len then res = Inl (TooLong (nat len) 1024) \<and> r' = r
     else (case res of
             Inl e \<Rightarrow> (\<exists>m. e = RandomSource m)
           | Inr pw \<Rightarrow> length pw = (if len \<le> 0 then 16 else nat len) \<and>
               set pw \<subseteq> set LETTERS \<union> (if symb then set SYMBOLS else {})))"
proof (cases "1024 < len")
  case True
  then show ?thesis by (simp add: generate_password_with_reader_def password_length_def MAX_PASSWORD_LENGTH_def Let_def)
next
  case False
  have "source_settles read (length (password_charset symb))" using assms by (simp add: charset_length)
  from password_chars_returns [OF this, of "password_length len" r] obtain res r'
    where "password_chars read (password_charset symb) (password_length len) r = Some (res, r')"
      and "case res of Inl e \<Rightarrow> (\<exists>m. e = RandomSource m)
        | Inr pw \<Rightarrow> length pw = password_length len \<and> set pw \<subseteq> set (password_charset symb)"
    by auto
  moreover have "\<not> MAX_PASSWORD_LENGTH < password_length len"
    using False by (auto simp: password_length_def MAX_PASSWORD_LENGTH_def)
  ultimately show ?thesis using False
    by (auto simp: generate_password_with_reader_def Let_def password_length_def password_charset_def split: sum.splits)
qed

section \<open>No bias\<close>

lemma bit_len_bounds: "n < 2 ^ bit_len n \<and> (0 < n \<longrightarrow> 2 ^ bit_len n \<le> 2 * n)"
proof (induction n rule: bit_len.induct)
  case (1 n)
  show ?case
  proof (cases "n = 0")
    case False
    have "n div 2 < 2 ^ bit_len (n div 2)" using 1 False by simp
    then have "n < 2 * 2 ^ bit_len (n div 2)" by linarith
    moreover have "2 * 2 ^ bit_len (n div 2) \<le> 2 * n"
    proof (cases "n div 2 = 0")
      case True
      then show ?thesis using False by (simp add: bit_len.simps [of 0])
    next
      case d: False
      then have "2 ^ bit_len (n div 2) \<le> 2 * (n div 2)" using 1 False by simp
      then show ?thesis by linarith
    qed
    ultimately show ?thesis using False by (simp add: bit_len.simps [of n])
  qed (simp add: bit_len.simps)
qed

lemma index_mask_mod:
  assumes "0 < upper" "upper \<le> 256"
  shows "bit_len (upper - 1) \<le> 8" "b AND index_mask upper = b mod 2 ^ bit_len (upper - 1)"
proof -
  show le: "bit_len (upper - 1) \<le> 8"
  proof (rule ccontr)
    assume "\<not> bit_len (upper - 1) \<le> 8"
    then have "(2::nat) ^ 9 \<le> 2 ^ bit_len (upper - 1)" by (intro power_increasing) auto
    moreover have "2 ^ bit_len (upper - 1) \<le> 2 * (upper - 1) \<or> upper - 1 = 0" using bit_len_bounds [of "upper - 1"] by auto
    ultimately show False using assms by (auto simp: bit_len.simps [of 0])
  qed
  have "(2::nat) ^ bit_len (upper - 1) \<le> 2 ^ 8" using le by (intro power_increasing) auto
  then have "index_mask upper = 2 ^ bit_len (upper - 1) - 1" by (simp add: index_mask_def)
  then have "index_mask upper = mask (bit_len (upper - 1))" by (simp only: mask_eq_exp_minus_1)
  then show "b AND index_mask upper = b mod 2 ^ bit_len (upper - 1)"
    by (simp only: take_bit_eq_mask [symmetric] take_bit_eq_mod)
qed

lemma card_residue:
  assumes "k \<le> 8" "i < (2::nat) ^ k"
  shows "card {b. b < 256 \<and> b mod 2 ^ k = i} = 2 ^ (8 - k)"
proof -
  have p: "(256::nat) = 2 ^ k * 2 ^ (8 - k)" using assms(1) by (simp flip: power_add)
  have "bij_betw (\<lambda>j. j * 2 ^ k + i) {..<2 ^ (8 - k)} {b. b < 256 \<and> b mod 2 ^ k = i}"
  proof (rule bij_betwI [where g = "\<lambda>b. b div 2 ^ k"])
    show "(\<lambda>j. j * 2 ^ k + i) \<in> {..<2 ^ (8 - k)} \<rightarrow> {b. b < 256 \<and> b mod 2 ^ k = i}"
    proof
      fix j :: nat assume "j \<in> {..<2 ^ (8 - k)}"
      then have "Suc j * 2 ^ k \<le> 2 ^ (8 - k) * 2 ^ k" by (intro mult_le_mono1) auto
      then show "j * 2 ^ k + i \<in> {b. b < 256 \<and> b mod 2 ^ k = i}" using assms(2) p by (auto simp: mult.commute)
    qed
    show "(\<lambda>b. b div 2 ^ k) \<in> {b. b < 256 \<and> b mod 2 ^ k = i} \<rightarrow> {..<2 ^ (8 - k)}"
      by (auto simp: p less_mult_imp_div_less mult.commute)
    show "(\<lambda>j. j * 2 ^ k + i) ((\<lambda>b. b div 2 ^ k) b) = b" if "b \<in> {b. b < 256 \<and> b mod 2 ^ k = i}" for b
      using that div_mult_mod_eq [of b "2 ^ k"] by simp
  qed (use assms in auto)
  then have "card {b. b < 256 \<and> b mod 2 ^ k = i} = card {..<(2::nat) ^ (8 - k)}" by (rule bij_betw_same_card [symmetric])
  then show ?thesis by simp
qed

text \<open>
  The rejection sampling is unbiased and cheap: every index below the bound is produced by the same
  number of byte values, \<open>256 / 2\<^sup>k\<close> where \<open>k\<close> is the bit length of the largest index, no byte produces an
  index out of range, and at least half of all byte values are accepted.
\<close>

theorem uniform_index_unbiased:
  assumes "0 < upper" "upper \<le> 256"
  shows "(\<forall>i < upper. card {b. b < 256 \<and> b AND index_mask upper = i} = 2 ^ (8 - bit_len (upper - 1))) \<and>
    (\<forall>b. read r = (Inr b, r') \<and> b AND index_mask upper < upper \<longrightarrow>
       uniform_index read upper r = Some (Inr (b AND index_mask upper), r')) \<and>
    (\<forall>b. read r = (Inr b, r') \<and> \<not> b AND index_mask upper < upper \<longrightarrow>
       uniform_index read upper r = uniform_index read upper r') \<and>
    2 ^ bit_len (upper - 1) \<le> 2 * upper"
proof -
  note mo = index_mask_mod [OF assms]
  have "upper \<le> 2 ^ bit_len (upper - 1)" using bit_len_bounds [of "upper - 1"] by linarith
  then have "card {b. b < 256 \<and> b AND index_mask upper = i} = 2 ^ (8 - bit_len (upper - 1))" if "i < upper" for i
    unfolding mo(2) using card_residue [OF mo(1), of i] that by simp
  moreover have "2 ^ bit_len (upper - 1) \<le> 2 * upper"
    using bit_len_bounds [of "upper - 1"] assms(1) by (cases "upper - 1 = 0") (auto simp: bit_len.simps [of 0])
  moreover have "uniform_index read upper r = uniform_index read upper r'"
    if "read r = (Inr b, r')" "\<not> b AND index_mask upper < upper" for b
    unfolding uniform_index_def by (subst uniform_loop.simps) (simp add: that)
  moreover have "uniform_index read upper r = Some (Inr (b AND index_mask upper), r')"
    if "read r = (Inr b, r')" "b AND index_mask upper < upper" for b
    unfolding uniform_index_def by (subst uniform_loop.simps) (simp add: that)
  ultimately show ?thesis by blast
qed

section \<open>Strength\<close>

lemma scan_other_distinct: "distinct (other_runes s) \<Longrightarrow> distinct (other_runes (fold (scan_char K) pw s))"
  by (induction pw arbitrary: s) (auto simp: scan_char_def)

lemma validate_password_strength_iff:
  "validate_password_strength K F pw = Inr () \<longleftrightarrow>
     10 \<le> length pw \<and>
     \<not> fo_less F (fo_mul F (fo_of_nat F (length pw)) (fo_log2 F (fo_of_nat F (charset_size (scan_password K pw))))) (fo_of_nat F 60)"
  by (auto simp: validate_password_strength_def assess_password_strength_def Let_def)

section \<open>Witnesses\<close>

text \<open>A reader that counts upwards, modulo 256.\<close>

definition count_reader :: "nat \<Rightarrow> (ustring + nat) \<times> nat" where
  "count_reader r = (Inr (r mod 256), Suc r)"

lemma nth_count_reader: "nth_reader count_reader n r = r + n"
  by (induction n arbitrary: r) (simp_all add: nth_reader_Suc count_reader_def)

lemma count_reader_settles: "0 < upper \<Longrightarrow> upper \<le> 256 \<Longrightarrow> source_settles count_reader upper"
  unfolding source_settles_def ends_loop_def
proof (intro allI)
  fix r :: nat assume "0 < upper" "upper \<le> 256"
  define q m where "q = r div 256" and "m = r mod 256"
  have "r = q * 256 + m" "m < 256" unfolding q_def m_def by (simp_all add: div_mult_mod_eq)
  then have "r + (256 - m) = 256 * (q + 1)" by simp
  then have "(r + (256 - r mod 256)) mod 256 = 0" unfolding m_def by (metis mod_mult_self1_is_0)
  then have "(r + (256 - r mod 256)) mod 256 AND index_mask upper < upper"
    using \<open>0 < upper\<close> by simp
  then show "\<exists>n. case fst (count_reader (nth_reader count_reader n r)) of Inl _ \<Rightarrow> True | Inr b \<Rightarrow> b AND index_mask upper < upper"
    by (intro exI [of _ "256 - r mod 256"]) (simp add: nth_count_reader count_reader_def)
qed

theorem generate_password_returns_witness:
  "\<exists>res r'. generate_password_with_reader count_reader 0 True 7 = Some (res, r')"
  using generate_password_returns [where read = count_reader and symb = True and len = 0 and r = 7]
    count_reader_settles [of 82] by auto

theorem uniform_index_unbiased_witness:
  "card {b::nat. b < 256 \<and> b AND index_mask 82 = 5} = 2"
proof -
  have "bit_len 81 = 7" by (simp add: bit_len.simps)
  then show ?thesis
    using uniform_index_unbiased [of 82 count_reader 0 1] by simp
qed

end
