(* ===== verification/Base32.thy ===== *)
theory Base32
  imports Prelude
begin

unbundle bit_operations_syntax

text \<open>
  The Base32 decoder of \<^verbatim>\<open>symvault-core/src/totp.rs\<close> (\<open>go_base32_decode\<close>, \<open>decode_secret\<close>), a port of Go's
  \<^verbatim>\<open>encoding/base32\<close> with its treatment of padding. Text bytes are numbers, decoded bytes and the
  five-bit values are \<^verbatim>\<open>u8\<close>, that is \<open>8 word\<close>. The encoding of RFC 4648 is the reference against which
  the decoder is proved.
\<close>

type_synonym u8 = "8 word"

abbreviation ch_eq :: nat where "ch_eq \<equiv> 61"

definition base32_value :: "nat \<Rightarrow> u8 option" where
  "base32_value byte =
     (if 65 \<le> byte \<and> byte \<le> 90 then Some (of_nat (byte - 65))
      else if 50 \<le> byte \<and> byte \<le> 55 then Some (of_nat (byte - 50 + 26))
      else None)"

text \<open>
  The inner loop: from column \<open>j\<close> with the values read so far, it answers the block, the number of
  values, whether the input ends here, and the rest. \<open>None\<close> is the \<open>return None\<close> of the source.
\<close>

function b32_group :: "bool \<Rightarrow> nat \<Rightarrow> u8 list \<Rightarrow> nat list \<Rightarrow> (u8 list \<times> nat \<times> bool \<times> nat list) option" where
  "b32_group padded j block rest =
     (if 8 \<le> j then Some (block, 8, False, rest)
      else (case rest of
              [] \<Rightarrow> if padded then None else Some (block, j, True, [])
            | c # tail \<Rightarrow>
                if padded \<and> c = ch_eq \<and> 2 \<le> j \<and> length tail < 8
                then (if length tail + j < 7 then None
                      else if list_ex (\<lambda>k. k < length tail \<and> tail ! k \<noteq> ch_eq) [0..<7 - j] then None
                      else if j = 1 \<or> j = 3 \<or> j = 6 then None
                      else Some (block, j, True, tail))
                else (case base32_value c of
                        None \<Rightarrow> None
                      | Some v \<Rightarrow> b32_group padded (j + 1) (block[j := v]) tail)))"
  by pat_completeness auto
termination by (relation "measure (\<lambda>(_, j, _, _). 8 - j)") auto

declare b32_group.simps [simp del]

definition b32_count :: "nat \<Rightarrow> nat" where
  "b32_count len =
     (if len = 8 then 5 else if len = 7 then 4 else if len = 5 then 3
      else if len = 4 then 2 else if len = 2 then 1 else 0)"

definition b32_packed :: "u8 list \<Rightarrow> u8 list" where
  "b32_packed b =
     [push_bit 3 (b ! 0) OR drop_bit 2 (b ! 1),
      push_bit 6 (b ! 1) OR push_bit 1 (b ! 2) OR drop_bit 4 (b ! 3),
      push_bit 4 (b ! 3) OR drop_bit 1 (b ! 4),
      push_bit 7 (b ! 4) OR push_bit 2 (b ! 5) OR drop_bit 3 (b ! 6),
      push_bit 5 (b ! 6) OR b ! 7]"

lemma b32_group_length:
  "b32_group padded j block rest = Some (b, n, fin, rest') \<Longrightarrow> length rest' \<le> length rest \<and> (j < 8 \<and> rest \<noteq> [] \<longrightarrow> length rest' < length rest)"
proof (induction padded j block rest arbitrary: b n fin rest' rule: b32_group.induct)
  case (1 padded j block rest)
  show ?case
  proof (cases "8 \<le> j \<or> rest = []")
    case True
    then show ?thesis using 1(2) by (subst (asm) b32_group.simps) (auto split: if_splits)
  next
    case False
    then obtain c tail where r: "rest = c # tail" by (cases rest) auto
    show ?thesis
    proof (cases "padded \<and> c = ch_eq \<and> 2 \<le> j \<and> length tail < 8")
      case True
      then show ?thesis using 1(2) False r by (subst (asm) b32_group.simps) (auto split: if_splits)
    next
      case np: False
      then obtain v where v: "base32_value c = Some v" "b32_group padded (j + 1) (block[j := v]) tail = Some (b, n, fin, rest')"
        using 1(2) False r by (subst (asm) b32_group.simps) (auto split: option.splits if_splits)
      with 1(1) [of c tail v] False r np show ?thesis by fastforce
    qed
  qed
qed

function b32_loop :: "bool \<Rightarrow> nat list \<Rightarrow> u8 list \<Rightarrow> u8 list option" where
  "b32_loop padded rest out =
     (if rest = [] then Some out
      else (case b32_group padded 0 (replicate 8 0) rest of
              None \<Rightarrow> None
            | Some (block, len, fin, rest') \<Rightarrow>
                (let out' = out @ take (b32_count len) (b32_packed block)
                 in if fin then Some out' else b32_loop padded rest' out')))"
  by pat_completeness auto
termination
  by (relation "measure (\<lambda>(_, rest, _). length rest)") (auto dest: b32_group_length)

declare b32_loop.simps [simp del]

definition go_base32_decode :: "nat list \<Rightarrow> bool \<Rightarrow> u8 list option" where
  "go_base32_decode source padded = b32_loop padded source []"

definition decode_secret :: "ustring \<Rightarrow> u8 list option" where
  "decode_secret secret =
     (let bytes = filter (\<lambda>b. b \<noteq> 13 \<and> b \<noteq> 10) (as_bytes secret)
      in case (case go_base32_decode bytes True of None \<Rightarrow> go_base32_decode bytes False | r \<Rightarrow> r) of
           None \<Rightarrow> None
         | Some d \<Rightarrow> if d = [] then None else Some d)"

section \<open>The reference encoding\<close>

text \<open>RFC 4648: forty bits are eight five-bit values; a short last group is filled up with zero bits.\<close>

definition b32_values :: "u8 \<Rightarrow> u8 \<Rightarrow> u8 \<Rightarrow> u8 \<Rightarrow> u8 \<Rightarrow> u8 list" where
  "b32_values a b c d e =
     [drop_bit 3 a, take_bit 5 (push_bit 2 a OR drop_bit 6 b), take_bit 5 (drop_bit 1 b),
      take_bit 5 (push_bit 4 b OR drop_bit 4 c), take_bit 5 (push_bit 1 c OR drop_bit 7 d),
      take_bit 5 (drop_bit 2 d), take_bit 5 (push_bit 3 d OR drop_bit 5 e), take_bit 5 e]"

fun b32_encode_values :: "u8 list \<Rightarrow> u8 list" where
  "b32_encode_values (a # b # c # d # e # r) = b32_values a b c d e @ b32_encode_values r"
| "b32_encode_values [a, b, c, d] = take 7 (b32_values a b c d 0)"
| "b32_encode_values [a, b, c] = take 5 (b32_values a b c 0 0)"
| "b32_encode_values [a, b] = take 4 (b32_values a b 0 0 0)"
| "b32_encode_values [a] = take 2 (b32_values a 0 0 0 0)"
| "b32_encode_values [] = []"

definition b32_char :: "u8 \<Rightarrow> nat" where
  "b32_char v = (if v < 26 then 65 + unat v else 24 + unat v)"

definition b32_encode :: "bool \<Rightarrow> u8 list \<Rightarrow> nat list" where
  "b32_encode padded bs =
     (let cs = map b32_char (b32_encode_values bs)
      in cs @ (if padded then replicate ((8 - length cs mod 8) mod 8) ch_eq else []))"

section \<open>Decoding inverts encoding\<close>

lemma b32_value_char: "v < 32 \<Longrightarrow> base32_value (b32_char v) = Some v"
proof -
  assume "v < 32"
  then have "unat v < 32" by (simp add: word_less_nat_alt)
  moreover have "v < 26 \<longleftrightarrow> unat v < 26" by (simp add: word_less_nat_alt)
  ultimately show ?thesis by (auto simp: base32_value_def b32_char_def)
qed

lemma b32_char_range: "v < 32 \<Longrightarrow> b32_char v \<noteq> ch_eq \<and> b32_char v \<noteq> 13 \<and> b32_char v \<noteq> 10 \<and> b32_char v < 128"
proof -
  assume "v < 32"
  then have "unat v < 32" by (simp add: word_less_nat_alt)
  moreover have "v < 26 \<longleftrightarrow> unat v < 26" by (simp add: word_less_nat_alt)
  ultimately show ?thesis by (auto simp: b32_char_def)
qed

lemma high_bit [simp]: "8 \<le> k \<Longrightarrow> \<not> bit (x :: u8) k"
  using bit_imp_le_length [of x k] by auto

lemma u8_eqI:
  assumes "bit x 0 = bit y 0" "bit x 1 = bit y 1" "bit x 2 = bit y 2" "bit x 3 = bit y 3"
    "bit x 4 = bit y 4" "bit x 5 = bit y 5" "bit x 6 = bit y 6" "bit x 7 = bit y 7"
  shows "x = (y :: u8)"
proof (rule bit_word_eqI)
  fix n assume "n < LENGTH(8)"
  then have "n = 0 \<or> n = 1 \<or> n = 2 \<or> n = 3 \<or> n = 4 \<or> n = 5 \<or> n = 6 \<or> n = (7::nat)" by auto
  then show "bit x n = bit y n" using assms by auto
qed

lemma bit_shifts:
  "bit (push_bit m (x :: u8)) n \<longleftrightarrow> m \<le> n \<and> n < 8 \<and> bit x (n - m)"
  "bit (drop_bit m x) n \<longleftrightarrow> bit x (m + n)"
  "bit (take_bit m x) n \<longleftrightarrow> n < m \<and> bit x n"
  "bit (x OR y) n \<longleftrightarrow> bit x n \<or> bit y n"
  by (auto simp: bit_simps)

lemma b32_values_packed: "b32_packed (b32_values a b c d e) = [a, b, c, d, e]"
proof -
  have "push_bit 3 (drop_bit 3 a) OR drop_bit 2 (take_bit 5 (push_bit 2 a OR drop_bit 6 b)) = a"
    by (rule u8_eqI) (simp_all only: bit_shifts, simp_all)
  moreover have "push_bit 6 (take_bit 5 (push_bit 2 a OR drop_bit 6 b)) OR push_bit 1 (take_bit 5 (drop_bit 1 b)) OR
      drop_bit 4 (take_bit 5 (push_bit 4 b OR drop_bit 4 c)) = b"
    by (rule u8_eqI) (simp_all only: bit_shifts, simp_all, simp_all add: numeral_2_eq_2 numeral_3_eq_3)
  moreover have "push_bit 4 (take_bit 5 (push_bit 4 b OR drop_bit 4 c)) OR
      drop_bit 1 (take_bit 5 (push_bit 1 c OR drop_bit 7 d)) = c"
    by (rule u8_eqI) (simp_all only: bit_shifts, simp_all, simp_all add: numeral_2_eq_2)
  moreover have "push_bit 7 (take_bit 5 (push_bit 1 c OR drop_bit 7 d)) OR push_bit 2 (take_bit 5 (drop_bit 2 d)) OR
      drop_bit 3 (take_bit 5 (push_bit 3 d OR drop_bit 5 e)) = d"
    by (rule u8_eqI) (simp_all only: bit_shifts, simp_all)
  moreover have "push_bit 5 (take_bit 5 (push_bit 3 d OR drop_bit 5 e)) OR take_bit 5 e = e"
    by (rule u8_eqI) (simp_all only: bit_shifts, simp_all)
  ultimately show ?thesis by (simp only: b32_packed_def b32_values_def nth_Cons_0 nth_Cons_numeral nth_Cons_Suc One_nat_def) simp
qed

lemma take_bit_5_less: "take_bit 5 (x :: u8) < 32"
  by (simp add: word_less_nat_alt take_bit_eq_mod unat_mod_distrib)

lemma drop_bit_3_less: "drop_bit 3 (x :: u8) < 32"
proof -
  have "unat x < 2 ^ 8" using unsigned_less [of x] by simp
  then have "unat x div 8 < 32" by (simp add: less_mult_imp_div_less)
  then show ?thesis by (simp add: word_less_nat_alt drop_bit_eq_div unat_div_distrib)
qed

lemma b32_values_range: "v \<in> set (b32_values a b c d e) \<Longrightarrow> v < 32"
  by (auto simp: b32_values_def take_bit_5_less drop_bit_3_less simp del: take_bit_or)

lemma length_b32_values [simp]: "length (b32_values a b c d e) = 8"
  by (simp add: b32_values_def)

lemma b32_group_chars:
  assumes "length block = 8" "j + length vs \<le> 8" "\<forall>v \<in> set vs. v < 32"
  shows "b32_group padded j block (map b32_char vs @ rest) =
    b32_group padded (j + length vs) (take j block @ vs @ drop (j + length vs) block) rest"
  using assms
proof (induction vs arbitrary: j block)
  case (Cons v vs)
  have "b32_group padded j block (map b32_char (v # vs) @ rest) =
      b32_group padded (j + 1) (block[j := v]) (map b32_char vs @ rest)"
    using Cons.prems b32_char_range [of v] b32_value_char [of v] by (subst b32_group.simps) auto
  also have "\<dots> = b32_group padded (j + length (v # vs)) (take (j + 1) (block[j := v]) @ vs @ drop (j + length (v # vs)) (block[j := v])) rest"
    using Cons.IH [of "block[j := v]" "j + 1"] Cons.prems by simp
  also have "take (j + 1) (block[j := v]) = take j block @ [v]"
    using Cons.prems by (simp add: take_Suc_conv_app_nth)
  finally show ?case using Cons.prems by (simp add: drop_update_cancel)
qed simp

lemma length_b32_packed: "length (b32_packed b) = 5"
  by (simp add: b32_packed_def)

lemma b32_loop_full:
  assumes "length vs = 8" "\<forall>v \<in> set vs. v < 32"
  shows "b32_loop padded (map b32_char vs @ rest) out = b32_loop padded rest (out @ b32_packed vs)"
proof -
  have "b32_group padded 0 (replicate 8 0) (map b32_char vs @ rest) = Some (vs, 8, False, rest)"
    using assms by (subst b32_group_chars) (simp_all add: b32_group.simps)
  moreover have "map b32_char vs @ rest \<noteq> []" using assms(1) by auto
  ultimately show ?thesis
    by (subst b32_loop.simps) (auto simp: b32_count_def length_b32_packed)
qed

text \<open>The last group, with its padding, without it, and where padding is asked for but missing.\<close>

lemma b32_loop_last:
  assumes "length vs = n" "n = 2 \<or> n = 4 \<or> n = 5 \<or> n = 7" "\<forall>v \<in> set vs. v < 32"
  shows "b32_loop True (map b32_char vs @ replicate (8 - n) ch_eq) out =
      Some (out @ take (b32_count n) (b32_packed (vs @ replicate (8 - n) 0)))"
    and "b32_loop False (map b32_char vs) out =
      Some (out @ take (b32_count n) (b32_packed (vs @ replicate (8 - n) 0)))"
    and "b32_loop True (map b32_char vs) out = None"
proof -
  have ne: "vs \<noteq> []" using assms(1,2) by auto
  have pads: "replicate (8 - n) ch_eq = ch_eq # replicate (7 - n) ch_eq"
    using assms(2) by (auto simp flip: replicate_Suc)
  have "b32_group True 0 (replicate 8 0) (map b32_char vs @ replicate (8 - n) ch_eq) =
      Some (vs @ replicate (8 - n) 0, n, True, replicate (7 - n) ch_eq)"
    using assms unfolding pads
    by (subst b32_group_chars) (auto simp: b32_group.simps list_ex_iff)
  then show "b32_loop True (map b32_char vs @ replicate (8 - n) ch_eq) out =
      Some (out @ take (b32_count n) (b32_packed (vs @ replicate (8 - n) 0)))"
    using ne by (subst b32_loop.simps) simp
  have "b32_group False 0 (replicate 8 0) (map b32_char vs @ []) = Some (vs @ replicate (8 - n) 0, n, True, [])"
    using assms by (subst b32_group_chars) (auto simp: b32_group.simps)
  then show "b32_loop False (map b32_char vs) out =
      Some (out @ take (b32_count n) (b32_packed (vs @ replicate (8 - n) 0)))"
    using ne by (subst b32_loop.simps) simp
  have "b32_group True 0 (replicate 8 0) (map b32_char vs @ []) = None"
    using assms by (subst b32_group_chars) (auto simp: b32_group.simps)
  then show "b32_loop True (map b32_char vs) out = None"
    using ne by (subst b32_loop.simps) simp
qed

lemma b32_loop_Nil [simp]: "b32_loop padded [] out = Some out"
  by (simp add: b32_loop.simps)

lemma b32_fill:
  "take 7 (b32_values a b c d 0) @ replicate 1 0 = b32_values a b c d 0"
  "take 5 (b32_values a b c 0 0) @ replicate 3 0 = b32_values a b c 0 0"
  "take 4 (b32_values a b 0 0 0) @ replicate 4 0 = b32_values a b 0 0 0"
  "take 2 (b32_values a 0 0 0 0) @ replicate 6 0 = b32_values a 0 0 0 0"
  by (simp_all add: b32_values_def numeral_eq_Suc)

lemma encode_range: "v \<in> set (b32_encode_values bs) \<Longrightarrow> v < 32"
  by (induction bs rule: b32_encode_values.induct) (auto dest: b32_values_range in_set_takeD)

definition pad_count :: "nat \<Rightarrow> nat" where
  "pad_count n = (8 - n mod 8) mod 8"

lemma pad_count_add8: "pad_count (8 + n) = pad_count n"
  by (simp add: pad_count_def)

lemma last_group_range: "\<forall>v \<in> set (take n (b32_values a b c d e)). v < 32"
  by (auto dest: in_set_takeD b32_values_range)

definition decodes :: "u8 list \<Rightarrow> bool" where
  "decodes bs \<longleftrightarrow> (\<forall>out. let vs = map b32_char (b32_encode_values bs); k = pad_count (length vs) in
     b32_loop True (vs @ replicate k ch_eq) out = Some (out @ bs) \<and>
     b32_loop False vs out = Some (out @ bs) \<and>
     b32_loop True vs out = (if k = 0 then Some (out @ bs) else None))"

lemma decodes_step: "decodes r \<Longrightarrow> decodes (a # b # c # d # e # r)"
  using b32_loop_full [of "b32_values a b c d e", OF length_b32_values ballI, OF b32_values_range]
  by (simp add: decodes_def Let_def b32_values_packed pad_count_add8)

lemma decodes_last:
  assumes "b32_encode_values bs = take n (b32_values a b c d e)" "n = 2 \<or> n = 4 \<or> n = 5 \<or> n = 7"
    "take n (b32_values a b c d e) @ replicate (8 - n) 0 = b32_values a b c d e"
    "take (b32_count n) [a, b, c, d, e] = bs"
  shows "decodes bs"
proof -
  have "length (take n (b32_values a b c d e)) = n" using assms(2) by auto
  note g = b32_loop_last [OF this assms(2) last_group_range, unfolded assms(3) b32_values_packed assms(4)]
  have "pad_count n = 8 - n" using assms(2) by (auto simp: pad_count_def)
  then show ?thesis using g assms(1,2) by (auto simp: decodes_def Let_def)
qed

lemma decodes_all: "decodes bs"
proof (induction bs rule: b32_encode_values.induct)
  case (1 a b c d e r)
  then show ?case by (rule decodes_step)
next
  case (2 a b c d)
  show ?case by (rule decodes_last [where n = 7 and e = 0]) (simp_all add: b32_fill [simplified] b32_fill b32_count_def)
next
  case (3 a b c)
  show ?case by (rule decodes_last [where n = 5 and d = 0 and e = 0])
      (simp_all add: b32_fill [simplified] b32_fill b32_count_def)
next
  case (4 a b)
  show ?case by (rule decodes_last [where n = 4 and c = 0 and d = 0 and e = 0])
      (simp_all add: b32_fill [simplified] b32_fill b32_count_def)
next
  case (5 a)
  show ?case by (rule decodes_last [where n = 2 and b = 0 and c = 0 and d = 0 and e = 0])
      (simp_all add: b32_fill [simplified] b32_fill b32_count_def)
next
  case 6
  show ?case by (simp add: decodes_def pad_count_def)
qed

lemma go_base32_decode_encode:
  "go_base32_decode (b32_encode True bs) True = Some bs"
  "go_base32_decode (b32_encode False bs) False = Some bs"
  "go_base32_decode (b32_encode False bs) True = (if length (b32_encode_values bs) mod 8 = 0 then Some bs else None)"
  using decodes_all [of bs]
  by (auto simp: decodes_def go_base32_decode_def b32_encode_def pad_count_def Let_def)

lemma b32_encode_ascii: "c \<in> set (b32_encode padded bs) \<Longrightarrow> c < 128 \<and> c \<noteq> 13 \<and> c \<noteq> 10"
  using encode_range b32_char_range by (auto simp: b32_encode_def Let_def split: if_splits)

lemma decode_secret_of_encode:
  assumes "bs \<noteq> []" "filter (\<lambda>c. c \<noteq> 13 \<and> c \<noteq> 10) text = b32_encode padded bs"
  shows "decode_secret text = Some bs"
proof -
  have "c < 128" if "c \<in> set text" for c
    using that assms(2) b32_encode_ascii [of c padded bs] by (cases "c = 13 \<or> c = 10") (auto simp flip: assms(2))
  then have "as_bytes text = text" by (intro as_bytes_ascii) auto
  then show ?thesis
    using assms go_base32_decode_encode [of bs] by (cases padded) (auto simp: decode_secret_def Let_def)
qed

text \<open>
  C38. Decoding a secret inverts the RFC 4648 encoding of any non-empty byte string, with or without
  padding, wherever the text is broken by line ends.
\<close>

theorem decode_secret_encode:
  assumes "bs \<noteq> []" "filter (\<lambda>c. c \<noteq> 13 \<and> c \<noteq> 10) text = b32_encode padded bs"
  shows "decode_secret text = Some bs"
  using assms by (rule decode_secret_of_encode)

theorem decode_secret_encode_witness:
  "decode_secret (lit ''GEZDG'' @ [10] @ lit ''NBV'') = Some [49, 50, 51, 52, 53]"
proof (rule decode_secret_encode [where padded = True])
  show "filter (\<lambda>c. c \<noteq> 13 \<and> c \<noteq> 10) (lit ''GEZDG'' @ [10] @ lit ''NBV'') = b32_encode True [49, 50, 51, 52, 53]"
    by (simp add: b32_encode_def b32_values_def b32_char_def take_bit_eq_mod)
qed simp

end
