(* ===== verification/Totp.thy ===== *)
theory Totp
  imports Base32
begin

unbundle bit_operations_syntax

text \<open>
  \<^verbatim>\<open>symvault-core/src/totp.rs\<close>: validation of TOTP secrets and parameters, and code generation at an
  explicit time. The HMAC functions (\<^verbatim>\<open>hmac\<close>, \<^verbatim>\<open>sha1\<close>, \<^verbatim>\<open>sha2\<close> crates), the Unicode upper-case table of
  the standard library and the quoting of an unknown algorithm in an error text are the fields of
  \<open>totp_libs\<close>. \<open>i64\<close> products wrap as in a release build, and an index out of range is \<open>TotpPanic\<close>.
\<close>

datatype totp_error = TotpError ustring | TotpPanic

record totp_code =
  tc_code :: ustring
  tc_expires_at :: int
  tc_period :: int

record totp_libs =
  tp_upper :: "uchar \<Rightarrow> ustring"
  tp_quote :: "ustring \<Rightarrow> ustring"
  tp_hmac_sha1 :: "u8 list \<Rightarrow> u8 list \<Rightarrow> u8 list"
  tp_hmac_sha256 :: "u8 list \<Rightarrow> u8 list \<Rightarrow> u8 list"
  tp_hmac_sha512 :: "u8 list \<Rightarrow> u8 list \<Rightarrow> u8 list"

definition normalize_secret :: "totp_libs \<Rightarrow> ustring \<Rightarrow> ustring" where
  "normalize_secret L secret =
     map (\<lambda>c. case tp_upper L c of [u] \<Rightarrow> u | _ \<Rightarrow> c) (filter (\<lambda>c. c \<noteq> 32) secret)"

text \<open>\<open>windows(2).all\<close>: a relation between all neighbours.\<close>

definition windows_all :: "('a \<Rightarrow> 'a \<Rightarrow> bool) \<Rightarrow> 'a list \<Rightarrow> bool" where
  "windows_all P xs = list_all (\<lambda>(a, b). P a b) (zip xs (tl xs))"

definition validate_totp_secret :: "totp_libs \<Rightarrow> ustring \<Rightarrow> totp_error + unit" where
  "validate_totp_secret L secret =
     (let normalized = normalize_secret L secret
      in if 256 < str_len normalized
         then Inl (TotpError (lit ''TOTP secret too long: maximum 256 base32 characters''))
         else (case decode_secret normalized of
                 None \<Rightarrow> Inl (TotpError (lit ''TOTP secret must be Base32-encoded (spaces allowed)''))
               | Some d \<Rightarrow>
                   if length d < 16
                   then Inl (TotpError (lit ''TOTP secret too short: minimum 16 bytes required (26 base32 characters)''))
                   else if windows_all (\<lambda>a b. a = b) d
                   then Inl (TotpError (lit ''TOTP secret is trivially weak: all bytes identical''))
                   else if windows_all (\<lambda>a b. b = a + 1) d
                   then Inl (TotpError (lit ''TOTP secret is trivially weak: bytes are sequential''))
                   else Inr ()))"

definition to_ascii_uppercase :: "ustring \<Rightarrow> ustring" where
  "to_ascii_uppercase = map (\<lambda>c. if 97 \<le> c \<and> c \<le> 122 then c - 32 else c)"

definition dec_int :: "int \<Rightarrow> ustring" where
  "dec_int i = (if i < 0 then ch_minus # dec (nat (- i)) else dec (nat i))"

definition validate_totp_params :: "totp_libs \<Rightarrow> ustring \<Rightarrow> int \<Rightarrow> int \<Rightarrow> totp_error + unit" where
  "validate_totp_params L algorithm digits period =
     (let up = to_ascii_uppercase algorithm
      in if up \<noteq> [] \<and> up \<noteq> lit ''SHA1'' \<and> up \<noteq> lit ''SHA256'' \<and> up \<noteq> lit ''SHA512''
         then Inl (TotpError (lit ''invalid TOTP algorithm '' @ tp_quote L algorithm @ lit '': must be SHA1, SHA256, or SHA512''))
         else if digits \<noteq> 0 \<and> digits \<noteq> 6 \<and> digits \<noteq> 8
         then Inl (TotpError (lit ''invalid TOTP digits '' @ dec_int digits @ lit '': must be 6 or 8''))
         else if period \<noteq> 0 \<and> (period \<le> 0 \<or> 3600 < period)
         then Inl (TotpError (lit ''invalid TOTP period '' @ dec_int period @ lit '': must be 1-3600 seconds''))
         else Inr ())"

definition be_bytes :: "int \<Rightarrow> u8 list" where
  "be_bytes n = map (\<lambda>k. word_of_int (n div 256 ^ (7 - k))) [0..<8]"

definition i64_wrap :: "int \<Rightarrow> int" where
  "i64_wrap x = (x + 2 ^ 63) mod 2 ^ 64 - 2 ^ 63"

definition totp_digest :: "totp_libs \<Rightarrow> ustring \<Rightarrow> u8 list \<Rightarrow> u8 list \<Rightarrow> u8 list" where
  "totp_digest L algorithm key msg =
     (let up = to_ascii_uppercase algorithm
      in if up = lit ''SHA256'' then tp_hmac_sha256 L key msg
         else if up = lit ''SHA512'' then tp_hmac_sha512 L key msg
         else tp_hmac_sha1 L key msg)"

text \<open>Dynamic truncation: \<open>None\<close> where the source indexes the digest out of range.\<close>

definition truncate_digest :: "u8 list \<Rightarrow> 32 word option" where
  "truncate_digest d =
     (if d = [] then None
      else (let off = unat (last d AND 0x0f)
            in if off + 3 < length d
               then Some ((push_bit 24 (ucast (d ! off)) OR push_bit 16 (ucast (d ! (off + 1))) OR
                           push_bit 8 (ucast (d ! (off + 2))) OR ucast (d ! (off + 3))) AND 0x7fffffff)
               else None))"

definition generate_totp_at ::
  "totp_libs \<Rightarrow> ustring \<Rightarrow> ustring \<Rightarrow> int \<Rightarrow> int \<Rightarrow> int \<Rightarrow> totp_error + totp_code" where
  "generate_totp_at L secret algorithm digits0 period0 unix_time =
     res_bind (validate_totp_params L algorithm digits0 period0) (\<lambda>_.
       let algorithm = (if algorithm = [] then lit ''SHA1'' else algorithm);
           digits = (if digits0 = 0 then 6 else digits0);
           period = (if period0 = 0 then 30 else period0)
       in case decode_secret (normalize_secret L secret) of
            None \<Rightarrow> Inl (TotpError (lit ''invalid TOTP secret''))
          | Some key \<Rightarrow>
              if unix_time < 0 then Inl (TotpError (lit ''system time is before Unix epoch''))
              else
                let counter = tdiv unix_time period
                in (case truncate_digest (totp_digest L algorithm key (be_bytes counter)) of
                      None \<Rightarrow> Inl TotpPanic
                    | Some truncated \<Rightarrow>
                        Inr \<lparr>tc_code = pad (nat digits) (unat truncated mod 10 ^ nat digits),
                             tc_expires_at = i64_wrap ((counter + 1) * period), tc_period = period\<rparr>))"

text \<open>The entry point with the system clock: \<open>now\<close> is the time since the epoch in seconds.\<close>

definition generate_totp :: "totp_libs \<Rightarrow> int \<Rightarrow> ustring \<Rightarrow> ustring \<Rightarrow> int \<Rightarrow> int \<Rightarrow> totp_error + totp_code" where
  "generate_totp L now secret algorithm digits period =
     (if now < 0 then Inl (TotpError (lit ''system time is before Unix epoch''))
      else generate_totp_at L secret algorithm digits period now)"

section \<open>Codes\<close>

text \<open>The output lengths of the three HMAC functions, as their standards fix them.\<close>

definition hmac_lengths :: "totp_libs \<Rightarrow> bool" where
  "hmac_lengths L \<longleftrightarrow> (\<forall>k m. length (tp_hmac_sha1 L k m) = 20 \<and> length (tp_hmac_sha256 L k m) = 32 \<and>
     length (tp_hmac_sha512 L k m) = 64)"

lemma truncate_digest_long: "20 \<le> length d \<Longrightarrow> \<exists>v. truncate_digest d = Some v"
proof -
  assume d: "20 \<le> length d"
  have "last d AND 0x0f = take_bit 4 (last d)" by (simp add: take_bit_eq_mask mask_eq_exp_minus_1)
  then have "unat (last d AND 0x0f) < 16" by (simp add: take_bit_eq_mod unat_mod_distrib)
  then show ?thesis using d by (auto simp: truncate_digest_def Let_def)
qed

lemma totp_digest_length: "hmac_lengths L \<Longrightarrow> 20 \<le> length (totp_digest L a k m)"
  by (simp add: hmac_lengths_def totp_digest_def Let_def)

definition params_ok :: "ustring \<Rightarrow> int \<Rightarrow> int \<Rightarrow> bool" where
  "params_ok a d p \<longleftrightarrow> to_ascii_uppercase a \<in> {[], lit ''SHA1'', lit ''SHA256'', lit ''SHA512''} \<and>
     d \<in> {0, 6, 8} \<and> 0 \<le> p \<and> p \<le> 3600"

lemma validate_totp_params_iff: "validate_totp_params L a d p = Inr () \<longleftrightarrow> params_ok a d p"
  unfolding validate_totp_params_def params_ok_def Let_def by auto

lemma i64_wrap_id: "in_i64 x \<Longrightarrow> i64_wrap x = x"
  by (simp add: i64_wrap_def in_i64_def)

definition totp_value :: "totp_libs \<Rightarrow> ustring \<Rightarrow> u8 list \<Rightarrow> int \<Rightarrow> 32 word option" where
  "totp_value L a key counter =
     truncate_digest (totp_digest L (if a = [] then lit ''SHA1'' else a) key (be_bytes counter))"

lemma generate_totp_at_ok:
  assumes "hmac_lengths L" "params_ok a d p" "decode_secret (normalize_secret L s) = Some key" "0 \<le> t"
  obtains v where "totp_value L a key (t div (if p = 0 then 30 else p)) = Some v"
    and "generate_totp_at L s a d p t = Inr
      \<lparr>tc_code = pad (nat (if d = 0 then 6 else d)) (unat v mod 10 ^ nat (if d = 0 then 6 else d)),
       tc_expires_at = i64_wrap ((t div (if p = 0 then 30 else p) + 1) * (if p = 0 then 30 else p)),
       tc_period = (if p = 0 then 30 else p)\<rparr>"
proof -
  obtain v where v: "totp_value L a key (t div (if p = 0 then 30 else p)) = Some v"
    unfolding totp_value_def using truncate_digest_long totp_digest_length [OF assms(1)] by blast
  have "validate_totp_params L a d p = Inr ()" using assms(2) by (simp add: validate_totp_params_iff)
  then have "generate_totp_at L s a d p t = Inr
      \<lparr>tc_code = pad (nat (if d = 0 then 6 else d)) (unat v mod 10 ^ nat (if d = 0 then 6 else d)),
       tc_expires_at = i64_wrap ((t div (if p = 0 then 30 else p) + 1) * (if p = 0 then 30 else p)),
       tc_period = (if p = 0 then 30 else p)\<rparr>"
    unfolding generate_totp_at_def using assms(3,4) v by (simp add: totp_value_def Let_def)
  with v show ?thesis by (rule that)
qed

lemma generate_totp_at_fails:
  assumes "\<not> (params_ok a d p \<and> decode_secret (normalize_secret L s) \<noteq> None \<and> 0 \<le> t)"
  shows "\<exists>m. generate_totp_at L s a d p t = Inl (TotpError m)"
proof (cases "validate_totp_params L a d p")
  case (Inl e)
  then have "\<exists>m. e = TotpError m" by (auto simp: validate_totp_params_def Let_def split: if_splits)
  with Inl show ?thesis by (auto simp: generate_totp_at_def)
next
  case (Inr u)
  then have "params_ok a d p" using validate_totp_params_iff [of L a d p] by simp
  with assms Inr show ?thesis by (auto simp: generate_totp_at_def Let_def split: option.splits)
qed

lemma period_window:
  fixes t p :: int
  assumes "0 < p"
  shows "(t div p + 1) * p - p \<le> t" "t < (t div p + 1) * p"
    and "(t div p + 1) * p - p \<le> t' \<Longrightarrow> t' < (t div p + 1) * p \<Longrightarrow> t' div p = t div p"
proof -
  have e: "(t div p + 1) * p - p = p * (t div p)" by (simp add: algebra_simps)
  have b: "p * (t div p) + t mod p = t" "0 \<le> t mod p" "t mod p < p" using assms by auto
  show "(t div p + 1) * p - p \<le> t" using e b by linarith
  show "t < (t div p + 1) * p" using e b by linarith
  assume "(t div p + 1) * p - p \<le> t'" "t' < (t div p + 1) * p"
  then show "t' div p = t div p" using e
    by (intro div_unique_pos [where r = "t' - p * (t div p)"]) auto
qed

text \<open>
  C39. Code generation succeeds exactly for valid parameters, a secret that decodes and a time from the
  epoch on, and never panics. The code then has the requested number of decimal digits, and it is valid
  from the start of its period to \<open>expires_at\<close>: every time in that interval gives the same code.
\<close>

theorem totp_window:
  assumes "hmac_lengths L" "t + 3600 \<le> i64_max"
  shows "generate_totp_at L s a d p t \<noteq> Inl TotpPanic \<and>
    ((\<exists>c. generate_totp_at L s a d p t = Inr c) \<longleftrightarrow>
       params_ok a d p \<and> decode_secret (normalize_secret L s) \<noteq> None \<and> 0 \<le> t) \<and>
    (\<forall>c. generate_totp_at L s a d p t = Inr c \<longrightarrow>
       length (tc_code c) = (if d = 8 then 8 else 6) \<and> list_all is_digit (tc_code c) \<and>
       tc_period c = (if p = 0 then 30 else p) \<and>
       tc_expires_at c - tc_period c \<le> t \<and> t < tc_expires_at c \<and>
       (\<forall>t'. 0 \<le> t' \<and> tc_expires_at c - tc_period c \<le> t' \<and> t' < tc_expires_at c \<longrightarrow>
          generate_totp_at L s a d p t' = Inr c))"
proof (cases "params_ok a d p \<and> decode_secret (normalize_secret L s) \<noteq> None \<and> 0 \<le> t")
  case False
  from generate_totp_at_fails [OF this] obtain m where "generate_totp_at L s a d p t = Inl (TotpError m)" by blast
  with False show ?thesis by simp
next
  case True
  then obtain key where key: "decode_secret (normalize_secret L s) = Some key" by blast
  define P where "P = (if p = 0 then 30 else p)"
  define D where "D = nat (if d = 0 then 6 else d)"
  have P: "0 < P" "P \<le> 3600" and D: "D = (if d = 8 then 8 else 6)"
    using True by (auto simp: P_def D_def params_ok_def)
  note ok = generate_totp_at_ok [OF assms(1) _ key, of a d p, folded P_def D_def]
  obtain v where v: "totp_value L a key (t div P) = Some v"
    and g: "generate_totp_at L s a d p t =
      Inr \<lparr>tc_code = pad D (unat v mod 10 ^ D), tc_expires_at = i64_wrap ((t div P + 1) * P), tc_period = P\<rparr>"
    using ok [of t] True by blast
  note w = period_window [OF P(1), of t]
  have x: "i64_wrap ((t div P + 1) * P) = (t div P + 1) * P"
    using w(1,2) True P assms(2) by (intro i64_wrap_id) (simp add: in_i64_def)
  have same: "generate_totp_at L s a d p t' = generate_totp_at L s a d p t"
    if "0 \<le> t'" "(t div P + 1) * P - P \<le> t'" "t' < (t div P + 1) * P" for t'
    using ok [of t'] True that w(3) [OF that(2,3)] v g by (metis option.inject)
  have "length (pad D (unat v mod 10 ^ D)) = D" using D by (intro length_pad) auto
  moreover have "list_all is_digit (pad D n)" for n by (simp add: list_all_iff pad_simps)
  ultimately show ?thesis
    using g x w(1,2) same True D by (simp add: P_def)
qed

section \<open>Secrets\<close>

lemma validate_totp_secret_iff:
  "validate_totp_secret L secret = Inr () \<longleftrightarrow>
     str_len (normalize_secret L secret) \<le> 256 \<and>
     (\<exists>k. decode_secret (normalize_secret L secret) = Some k \<and> 16 \<le> length k \<and>
        \<not> windows_all (\<lambda>a b. a = b) k \<and> \<not> windows_all (\<lambda>a b. b = a + 1) k)"
  by (auto simp: validate_totp_secret_def Let_def split: option.splits)

section \<open>Witness\<close>

definition demo_totp :: totp_libs where
  "demo_totp = \<lparr>tp_upper = (\<lambda>c. [if 97 \<le> c \<and> c \<le> 122 then c - 32 else c]), tp_quote = (\<lambda>s. s),
     tp_hmac_sha1 = (\<lambda>_ _. replicate 20 7), tp_hmac_sha256 = (\<lambda>_ _. replicate 32 7),
     tp_hmac_sha512 = (\<lambda>_ _. replicate 64 7)\<rparr>"

definition demo_secret :: ustring where "demo_secret = lit ''ge zdgnbv''"

lemma demo_secret_decodes: "decode_secret (normalize_secret demo_totp demo_secret) = Some [49, 50, 51, 52, 53]"
proof -
  have "normalize_secret demo_totp demo_secret = lit ''GEZDGNBV''"
    by (simp add: normalize_secret_def demo_totp_def demo_secret_def)
  moreover have "b32_encode True [49, 50, 51, 52, 53] = lit ''GEZDGNBV''"
    by (simp add: b32_encode_def b32_values_def b32_char_def take_bit_eq_mod)
  moreover have "filter (\<lambda>c. c \<noteq> 13 \<and> c \<noteq> 10) (lit ''GEZDGNBV'') = lit ''GEZDGNBV''" by simp
  ultimately show ?thesis by (simp only: decode_secret_of_encode [where padded = True] list.distinct not_False_eq_True)
qed

theorem totp_window_witness:
  "\<exists>c. generate_totp_at demo_totp demo_secret [] 0 0 59 = Inr c \<and> tc_expires_at c - tc_period c \<le> 59 \<and> 59 < tc_expires_at c"
proof -
  have "hmac_lengths demo_totp" by (simp add: hmac_lengths_def demo_totp_def)
  note w = totp_window [OF this, where t = 59 and s = demo_secret and a = "[]" and d = 0 and p = 0]
  have "params_ok [] 0 0" by (simp add: params_ok_def to_ascii_uppercase_def)
  then have "\<exists>c. generate_totp_at demo_totp demo_secret [] 0 0 59 = Inr c"
    using w [THEN conjunct2, THEN conjunct1] demo_secret_decodes by simp
  then obtain c where c: "generate_totp_at demo_totp demo_secret [] 0 0 59 = Inr c" by blast
  from w [THEN conjunct2, THEN conjunct2, rule_format, OF _ c] c show ?thesis by auto
qed

end
