(* ===== verification/Pairing.thy ===== *)
theory Pairing
  imports Go_Time Base32
begin

unbundle bit_operations_syntax

text \<open>
  The parts of \<^verbatim>\<open>symvault-sync/src/pairing.rs\<close> the device sessions rest on: the timestamps, the JSON
  string encoder and the token generator. \<^verbatim>\<open>GoTime\<close> of \<^verbatim>\<open>symvault-sync/src/pairing.rs\<close>: the timestamp of the device-session store and of the
  pairing artifacts, which keeps its offset across a round trip. The parser accepts any two-digit
  offset, the marshaller refuses an hour beyond 23.
\<close>

datatype pairing_error =
    PairingJson ustring
  | FieldType ustring ustring
  | PairingTime ustring
  | InvalidToken
  | UnmarshalableTime

record go_time =
  gt_year :: int
  gt_month :: nat
  gt_day :: nat
  gt_hour :: nat
  gt_minute :: nat
  gt_second :: nat
  gt_nanosecond :: nat
  gt_offset_seconds :: int

definition go_time_ZERO :: go_time where
  "go_time_ZERO = \<lparr>gt_year = 1, gt_month = 1, gt_day = 1, gt_hour = 0, gt_minute = 0, gt_second = 0,
     gt_nanosecond = 0, gt_offset_seconds = 0\<rparr>"

definition from_offset_datetime :: "odt \<Rightarrow> go_time" where
  "from_offset_datetime dt =
     \<lparr>gt_year = od_year dt, gt_month = od_month dt, gt_day = od_day dt, gt_hour = od_hour dt,
      gt_minute = od_minute dt, gt_second = od_second dt, gt_nanosecond = od_nano dt,
      gt_offset_seconds = od_offset dt\<rparr>"

definition pairing_days_in_month :: "nat \<Rightarrow> nat \<Rightarrow> nat" where
  "pairing_days_in_month year month =
     (if month \<in> {1, 3, 5, 7, 8, 10, 12} then 31
      else if month \<in> {4, 6, 9, 11} then 30
      else if month = 2 \<and> year mod 4 = 0 \<and> (year mod 100 \<noteq> 0 \<or> year mod 400 = 0) then 29
      else if month = 2 then 28
      else 0)"

definition digits_at :: "nat list \<Rightarrow> nat \<Rightarrow> nat \<Rightarrow> nat option" where
  "digits_at b i j =
     (let ds = take (j - i) (drop i b)
      in if list_all is_digit ds then Some (digits_value ds) else None)"

text \<open>The optional fraction at the head of the rest: the nanoseconds and what follows.\<close>

definition rest_fraction :: "nat list \<Rightarrow> (nat \<times> nat list) option" where
  "rest_fraction rest =
     (case rest of
        p # r \<Rightarrow>
          if p = ch_dot \<or> p = ch_comma then
            (let ds = takeWhile is_digit r; kept = take 9 ds
             in if ds = [] then None
                else Some (digits_value kept * 10 ^ (9 - length kept), drop (length ds) r))
          else Some (0, rest)
      | [] \<Rightarrow> Some (0, rest))"

definition rest_offset :: "nat list \<Rightarrow> int option" where
  "rest_offset rest =
     (case rest of
        [z] \<Rightarrow> if z = 90 then Some 0 else None
      | [sign, h1, h2, c, m1, m2] \<Rightarrow>
          if (sign = ch_plus \<or> sign = ch_minus) \<and> c = ch_colon \<and>
             is_digit h1 \<and> is_digit h2 \<and> is_digit m1 \<and> is_digit m2 then
            (let magnitude = int ((((h1 - 48) * 10 + (h2 - 48)) * 60 + ((m1 - 48) * 10 + (m2 - 48))) * 60)
             in Some (if sign = ch_minus then - magnitude else magnitude))
          else None
      | _ \<Rightarrow> None)"

definition go_time_parse :: "ustring \<Rightarrow> pairing_error + go_time" where
  "go_time_parse value =
     (let b = as_bytes value; bad = Inl (PairingTime value)
      in if length b < 20 then bad
         else if b ! 4 \<noteq> ch_minus \<or> b ! 7 \<noteq> ch_minus \<or> b ! 10 \<noteq> 84 \<or> b ! 13 \<noteq> ch_colon \<or> b ! 16 \<noteq> ch_colon then bad
         else
           (case (digits_at b 0 4, digits_at b 5 7, digits_at b 8 10,
                  digits_at b 11 13, digits_at b 14 16, digits_at b 17 19) of
              (Some year, Some month, Some day, Some hour, Some minute, Some second) \<Rightarrow>
                (case rest_fraction (drop 19 b) of
                   None \<Rightarrow> bad
                 | Some (nanosecond, rest) \<Rightarrow>
                     (case rest_offset rest of
                        None \<Rightarrow> bad
                      | Some off \<Rightarrow>
                          if month = 0 \<or> 12 < month \<or> day = 0 \<or> pairing_days_in_month year month < day then bad
                          else if 23 < hour \<or> 59 < minute \<or> 59 < second then bad
                          else Inr \<lparr>gt_year = int year, gt_month = month, gt_day = day, gt_hour = hour,
                                 gt_minute = minute, gt_second = second, gt_nanosecond = nanosecond,
                                 gt_offset_seconds = off\<rparr>))
            | _ \<Rightarrow> bad))"

definition offset_text :: "int \<Rightarrow> ustring" where
  "offset_text off =
     (if off = 0 then [90]
      else (let magnitude = nat \<bar>off\<bar>
            in (if off < 0 then ch_minus else ch_plus) #
               pad 2 (magnitude div 3600) @ ch_colon # pad 2 (magnitude mod 3600 div 60)))"

definition to_rfc3339_nano :: "go_time \<Rightarrow> ustring" where
  "to_rfc3339_nano t =
     pad_int 4 (gt_year t) @ ch_minus # pad 2 (gt_month t) @ ch_minus # pad 2 (gt_day t) @ 84 #
     pad 2 (gt_hour t) @ ch_colon # pad 2 (gt_minute t) @ ch_colon # pad 2 (gt_second t) @
     fraction_suffix (gt_nanosecond t) @ offset_text (gt_offset_seconds t)"

definition check_marshalable :: "go_time \<Rightarrow> pairing_error + unit" where
  "check_marshalable t =
     (if \<not> (0 \<le> gt_year t \<and> gt_year t \<le> 9999) then Inl UnmarshalableTime
      else if 24 \<le> \<bar>gt_offset_seconds t\<bar> div 3600 then Inl UnmarshalableTime
      else Inr ())"

definition to_go_json :: "go_time \<Rightarrow> pairing_error + ustring" where
  "to_go_json t = res_bind (check_marshalable t) (\<lambda>_. Inr (34 # to_rfc3339_nano t @ [34]))"

section \<open>Strings and tokens\<close>

definition go_hex :: "nat \<Rightarrow> uchar" where
  "go_hex n = lit ''0123456789abcdef'' ! n"

definition encode_go_char :: "uchar \<Rightarrow> ustring" where
  "encode_go_char c =
     (if c = 34 then [ch_backslash, 34]
      else if c = ch_backslash then [ch_backslash, ch_backslash]
      else if c = 10 then [ch_backslash, 110]
      else if c = 13 then [ch_backslash, 114]
      else if c = 9 then [ch_backslash, 116]
      else if c = 8 then [ch_backslash, 98]
      else if c = 12 then [ch_backslash, 102]
      else if c = 60 then ch_backslash # lit ''u003c''
      else if c = 62 then ch_backslash # lit ''u003e''
      else if c = 38 then ch_backslash # lit ''u0026''
      else if c = 0x2028 then ch_backslash # lit ''u2028''
      else if c = 0x2029 then ch_backslash # lit ''u2029''
      else if c < 32 then ch_backslash # lit ''u00'' @ [go_hex (c div 16), go_hex (c mod 16)]
      else [c])"

definition encode_go_string :: "ustring \<Rightarrow> ustring" where
  "encode_go_string value = 34 # concat (map encode_go_char value) @ [34]"

definition TOKEN_ALPHABET :: ustring where "TOKEN_ALPHABET = lit ''0123456789ABCDEFGHIJKLMNOPQRSTUV''"

definition token_values :: "u8 \<Rightarrow> u8 \<Rightarrow> u8 \<Rightarrow> u8 \<Rightarrow> u8 \<Rightarrow> u8 list" where
  "token_values b0 b1 b2 b3 b4 =
     [drop_bit 3 b0 AND 0x1f, push_bit 2 (b0 AND 0x07) OR (drop_bit 6 b1 AND 0x03), drop_bit 1 b1 AND 0x1f,
      push_bit 4 (b1 AND 0x01) OR (drop_bit 4 b2 AND 0x0f), push_bit 1 (b2 AND 0x0f) OR (drop_bit 7 b3 AND 0x01),
      drop_bit 2 b3 AND 0x1f, push_bit 3 (b3 AND 0x03) OR (drop_bit 5 b4 AND 0x07), b4 AND 0x1f]"

fun token_chars :: "u8 list \<Rightarrow> ustring" where
  "token_chars (b0 # b1 # b2 # b3 # b4 # r) =
     map (\<lambda>v. TOKEN_ALPHABET ! unat v) (token_values b0 b1 b2 b3 b4) @ token_chars r"
| "token_chars _ = []"

definition generate_token :: "ustring + u8 list \<Rightarrow> pairing_error + ustring" where
  "generate_token random =
     (case random of
        Inl e \<Rightarrow> Inl (PairingJson (lit ''generate random token: '' @ e))
      | Inr bytes \<Rightarrow> Inr (token_chars bytes))"

definition MAX_TOKEN_LEN :: nat where "MAX_TOKEN_LEN = 64"

definition validate_pairing_token :: "ustring \<Rightarrow> pairing_error + unit" where
  "validate_pairing_token token =
     (if token = [] \<or> MAX_TOKEN_LEN < str_len token then Inl InvalidToken
      else if list_all (\<lambda>c. is_digit c \<or> (65 \<le> c \<and> c \<le> 86) \<or> (97 \<le> c \<and> c \<le> 118)) token then Inr ()
      else Inl InvalidToken)"

section \<open>Round trip\<close>

text \<open>A valid time: the fields are in range and the offset is a whole number of minutes under 100 hours.\<close>

definition go_time_ok :: "go_time \<Rightarrow> bool" where
  "go_time_ok t \<longleftrightarrow> 0 \<le> gt_year t \<and> gt_year t \<le> 9999 \<and> 1 \<le> gt_month t \<and> gt_month t \<le> 12 \<and> 1 \<le> gt_day t \<and>
     gt_day t \<le> pairing_days_in_month (nat (gt_year t)) (gt_month t) \<and>
     gt_hour t < 24 \<and> gt_minute t < 60 \<and> gt_second t < 60 \<and> gt_nanosecond t < 1000000000 \<and>
     \<bar>gt_offset_seconds t\<bar> < 360000 \<and> gt_offset_seconds t mod 60 = 0"

lemma digits_at_field: "num_field b i j = Some n \<Longrightarrow> digits_at b i j = Some n"
  by (auto simp: num_field_def digits_at_def Let_def split: if_splits)

lemma offset_text_head: "\<exists>x r. offset_text off = x # r \<and> \<not> is_digit x \<and> x \<noteq> ch_dot \<and> x \<noteq> ch_comma"
  by (simp add: offset_text_def Let_def is_digit_def)

lemma rest_fraction_suffix:
  assumes "frac < 1000000000"
  shows "rest_fraction (fraction_suffix frac @ offset_text off) = Some (frac, offset_text off)"
proof (cases "frac = 0")
  case True
  with offset_text_head [of off] show ?thesis by (auto simp: fraction_suffix_def rest_fraction_def)
next
  case False
  define ds where "ds = trim_end_matches 48 (pad 9 frac)"
  note d = fraction_digits [OF assms False, folded ds_def]
  have "takeWhile is_digit (ds @ offset_text off) = ds"
    using d(3) offset_text_head [of off] by (auto simp: list_all_iff takeWhile_tail)
  then show ?thesis
    using False d by (simp add: rest_fraction_def fraction_suffix_def ds_def [symmetric] Let_def)
qed

lemma rest_offset_text:
  assumes "\<bar>off\<bar> < 360000" "off mod 60 = 0"
  shows "rest_offset (offset_text off) = Some off"
proof (cases "off = 0")
  case False
  define m where "m = nat \<bar>off\<bar>"
  have m: "m < 360000" "int m = \<bar>off\<bar>" using assms by (simp_all add: m_def)
  have "60 dvd int m" using assms(2) m(2) by (simp add: dvd_eq_mod_eq_0 [symmetric])
  then have "60 dvd m" by (metis int_dvd_int_iff of_nat_numeral)
  then obtain k where k: "m = 60 * k" by blast
  have "m div 3600 = k div 60" "m mod 3600 = 60 * (k mod 60)"
    using div_mult_mult1 [of 60 k 60] mod_mult_mult1 [of 60 k 60] by (simp_all add: k)
  then have rec: "(m div 3600 * 60 + m mod 3600 div 60) * 60 = m" by (simp add: k)
  have lim: "m div 3600 < 100" "m mod 3600 div 60 < 100" using m by (auto simp: div_less_iff_less_mult)
  obtain h1 h2 where h: "pad 2 (m div 3600) = [h1, h2]" "is_digit h1" "is_digit h2"
    by (rule two_digits [of "pad 2 (m div 3600)"]) (use lim in \<open>auto simp: length_pad pad_simps\<close>)
  obtain n1 n2 where n: "pad 2 (m mod 3600 div 60) = [n1, n2]" "is_digit n1" "is_digit n2"
    by (rule two_digits [of "pad 2 (m mod 3600 div 60)"]) (use lim in \<open>auto simp: length_pad pad_simps\<close>)
  have v: "(h1 - 48) * 10 + (h2 - 48) = m div 3600" "(n1 - 48) * 10 + (n2 - 48) = m mod 3600 div 60"
    using h n by (simp_all only: digits_value_two [symmetric] h(1) [symmetric] n(1) [symmetric] pad_simps(1))
  have "3600 * int (m div 3600) + int (m mod 3600 div 60) * 60 = int m"
    using arg_cong [OF rec, of int] by simp
  then have "rest_offset (offset_text off) = Some (if off < 0 then - int m else int m)"
    using False h n by (simp add: rest_offset_def offset_text_def Let_def m_def [symmetric] v)
  then show ?thesis using m(2) by auto
qed (simp add: offset_text_def rest_offset_def)


lemma go_time_printed:
  assumes "go_time_ok t"
  shows "go_time_parse (to_rfc3339_nano t) = Inr t"
proof -
  define b where "b = pad 4 (nat (gt_year t)) @ ch_minus # pad 2 (gt_month t) @ ch_minus # pad 2 (gt_day t) @ 84 #
     pad 2 (gt_hour t) @ ch_colon # pad 2 (gt_minute t) @ ch_colon # pad 2 (gt_second t) @
     (fraction_suffix (gt_nanosecond t) @ offset_text (gt_offset_seconds t))"
  have tx: "to_rfc3339_nano t = b"
    using assms by (simp add: to_rfc3339_nano_def pad_int_def b_def go_time_ok_def)
  have n: "gt_nanosecond t < 1000000000" using assms by (simp add: go_time_ok_def)
  have lim: "nat (gt_year t) < 10000" "gt_month t < 100" "gt_day t < 100" "gt_hour t < 100" "gt_minute t < 100" "gt_second t < 100"
    using assms by (auto simp: go_time_ok_def pairing_days_in_month_def split: if_splits)
  have "as_bytes b = b"
    by (rule as_bytes_ascii)
      (auto simp: b_def offset_text_def Let_def dest: digit_ascii fraction_suffix_ascii [OF n])
  moreover note f = stamp_fields [OF lim b_def]
  define pre where "pre = pad 4 (nat (gt_year t)) @ ch_minus # pad 2 (gt_month t) @ ch_minus # pad 2 (gt_day t) @ 84 #
     pad 2 (gt_hour t) @ ch_colon # pad 2 (gt_minute t) @ ch_colon # pad 2 (gt_second t)"
  have "b = pre @ fraction_suffix (gt_nanosecond t) @ offset_text (gt_offset_seconds t)" "length pre = 19"
    using lim by (simp_all add: pre_def b_def length_pad)
  then have "drop 19 b = fraction_suffix (gt_nanosecond t) @ offset_text (gt_offset_seconds t)" by simp
  moreover have "\<not> length b < 20" using f(12) offset_text_head [of "gt_offset_seconds t"] by auto
  ultimately show ?thesis
    using f(7-11) digits_at_field [OF f(1)] digits_at_field [OF f(2)] digits_at_field [OF f(3)] digits_at_field [OF f(4)]
      digits_at_field [OF f(5)] digits_at_field [OF f(6)] rest_fraction_suffix [OF n] rest_offset_text [of "gt_offset_seconds t"] assms
    unfolding tx go_time_parse_def Let_def go_time_ok_def by simp
qed

interpretation gotime: text_codec to_rfc3339_nano
  "\<lambda>v. case go_time_parse v of Inl _ \<Rightarrow> None | Inr t \<Rightarrow> Some t" go_time_ok
  by unfold_locales (simp add: go_time_printed)

text \<open>What the parser accepts is valid, unless the offset is out of the marshaller's range.\<close>

lemma rest_offset_range: "rest_offset r = Some off \<Longrightarrow> \<bar>off\<bar> < 363600 \<and> off mod 60 = 0"
  by (auto simp: rest_offset_def is_digit_def Let_def mod_minus_eq [symmetric] split: list.splits if_splits)

section \<open>Tokens\<close>

lemma and_masks:
  "(x :: u8) AND 0x1f = take_bit 5 x" "x AND 0x0f = take_bit 4 x" "x AND 0x07 = take_bit 3 x"
  "x AND 0x03 = take_bit 2 x" "x AND 0x01 = take_bit 1 x"
  by (simp_all add: take_bit_eq_mask mask_eq_exp_minus_1)

text \<open>The token generator computes the five-bit groups of RFC 4648.\<close>

lemma token_values_b32: "token_values a b c d e = b32_values a b c d e"
proof -
  have "take_bit 5 (drop_bit 3 a) = drop_bit 3 a"
    by (rule u8_eqI) (simp_all only: bit_shifts, simp_all)
  moreover have "push_bit 2 (take_bit 3 a) OR take_bit 2 (drop_bit 6 b) = take_bit 5 (push_bit 2 a OR drop_bit 6 b)"
    by (rule u8_eqI) (simp_all only: bit_shifts, simp_all)
  moreover have "push_bit 4 (take_bit 1 b) OR take_bit 4 (drop_bit 4 c) = take_bit 5 (push_bit 4 b OR drop_bit 4 c)"
    by (rule u8_eqI) (simp_all only: bit_shifts, simp_all)
  moreover have "push_bit 1 (take_bit 4 c) OR take_bit 1 (drop_bit 7 d) = take_bit 5 (push_bit 1 c OR drop_bit 7 d)"
    by (rule u8_eqI) (simp_all only: bit_shifts, simp_all)
  moreover have "push_bit 3 (take_bit 2 d) OR take_bit 3 (drop_bit 5 e) = take_bit 5 (push_bit 3 d OR drop_bit 5 e)"
    by (rule u8_eqI) (simp_all only: bit_shifts, simp_all)
  ultimately show ?thesis by (simp only: token_values_def b32_values_def and_masks)
qed

lemma token_alphabet_ok:
  "v < 32 \<Longrightarrow> c = TOKEN_ALPHABET ! unat (v :: u8) \<Longrightarrow> c < 128 \<and> (is_digit c \<or> (65 \<le> c \<and> c \<le> 86))"
proof -
  assume v: "v < 32" and c: "c = TOKEN_ALPHABET ! unat v"
  have "unat v < length TOKEN_ALPHABET" using v by (simp add: TOKEN_ALPHABET_def word_less_nat_alt)
  then have "c \<in> set TOKEN_ALPHABET" unfolding c by (rule nth_mem)
  then show ?thesis by (auto simp: TOKEN_ALPHABET_def is_digit_def)
qed

lemma token_chars_ok:
  "c \<in> set (token_chars bs) \<Longrightarrow> c < 128 \<and> (is_digit c \<or> (65 \<le> c \<and> c \<le> 86))"
proof (induction bs rule: token_chars.induct)
  case (1 b0 b1 b2 b3 b4 r)
  then show ?case
    using token_alphabet_ok [OF b32_values_range] by (fastforce simp: token_values_b32)
qed simp_all

lemma length_token_chars: "length (token_chars bs) = length bs div 5 * 8"
proof (induction bs rule: token_chars.induct)
  case (1 b0 b1 b2 b3 b4 r)
  have "(length r + 5) div 5 = length r div 5 + 1" by simp
  then show ?case using 1 by (simp add: token_values_b32 add.commute)
qed simp_all

lemma generated_token_valid:
  assumes "length bs = 20"
  shows "\<exists>t. generate_token (Inr bs) = Inr t \<and> length t = 32 \<and> validate_pairing_token t = Inr ()"
proof -
  have l: "length (token_chars bs) = 32" using assms by (simp add: length_token_chars)
  moreover have "str_len (token_chars bs) = 32"
    using l token_chars_ok by (subst length_as_bytes [symmetric]) (metis as_bytes_ascii)
  ultimately show ?thesis
    using token_chars_ok [of _ bs] by (auto simp: generate_token_def validate_pairing_token_def MAX_TOKEN_LEN_def list_all_iff)
qed

end
