(* ===== verification/Device_Sessions.thy ===== *)
theory Device_Sessions
  imports Pairing Ordered_Map
begin

text \<open>
  \<^verbatim>\<open>symvault-sync/src/device_sessions.rs\<close>: the sessions of enrolled approval devices, kept in memory and
  mirrored to a file that other processes (the revocation command) write too.

  A store is its in-memory map, whether it has a file, and the poison flag of its mutex. The file is
  reached through \<open>device_io\<close> (reading, creating the directory, atomic replacement); decoding of the
  JSON document, SHA-256 and the parser of the \<^verbatim>\<open>time\<close> crate are the fields of \<open>device_libs\<close>. The clock
  is an argument. A failing addition of a duration, which panics in the source, is \<open>DevPanicked\<close>.
\<close>

section \<open>State\<close>

record device_session =
  dv_prefix :: ustring
  dv_device_id :: ustring
  dv_name :: ustring
  dv_public_key :: ustring
  dv_created_at :: ustring
  dv_expires_at :: ustring
  dv_revoked :: bool

datatype device_error =
    DevIo ustring
  | DevSafeIo ustring
  | DevJson ustring
  | DevToken pairing_error
  | DevTime ustring
  | DevPoisoned
  | DevPanicked

type_synonym session_map = "(ustring \<times> device_session) list"

record device_store =
  st_path :: bool
  st_sessions :: session_map
  st_poisoned :: bool

record 'f device_io =
  di_read :: "'f \<Rightarrow> ustring + nat list option"
  di_create_dir :: "'f \<Rightarrow> (ustring + unit) \<times> 'f"
  di_write :: "'f \<Rightarrow> nat list \<Rightarrow> (ustring + unit) \<times> 'f"

record device_libs =
  dl_decode :: "nat list \<Rightarrow> ustring + (ustring \<times> device_session option) list"
  dl_sha256 :: "nat list \<Rightarrow> u8 list"
  dl_parse :: "ustring \<Rightarrow> ustring + odt"
  dl_time :: time_lib
  dl_error_text :: "pairing_error \<Rightarrow> ustring"

definition DEFAULT_SESSION_TTL_SECONDS :: int where "DEFAULT_SESSION_TTL_SECONDS = 90 * 24 * 60 * 60"

section \<open>Rendering\<close>

definition hash_token :: "device_libs \<Rightarrow> ustring \<Rightarrow> ustring" where
  "hash_token L token =
     concat (map (\<lambda>b. [go_hex (unat b div 16), go_hex (unat b mod 16)]) (dl_sha256 L (as_bytes token)))"

definition looks_like_sha256_hex :: "ustring \<Rightarrow> bool" where
  "looks_like_sha256_hex v \<longleftrightarrow>
     str_len v = 64 \<and> list_all (\<lambda>b. is_digit b \<or> (97 \<le> b \<and> b \<le> 102)) (as_bytes v)"

definition dev_go_time :: "device_libs \<Rightarrow> ustring \<Rightarrow> device_error + go_time" where
  "dev_go_time L v = (case go_time_parse v of Inl e \<Rightarrow> Inl (DevTime (dl_error_text L e)) | Inr t \<Rightarrow> Inr t)"

definition timestamp_literal :: "device_libs \<Rightarrow> ustring \<Rightarrow> device_error + ustring" where
  "timestamp_literal L v =
     res_bind (dev_go_time L v) (\<lambda>t.
       case to_go_json t of Inl e \<Rightarrow> Inl (DevTime (dl_error_text L e)) | Inr s \<Rightarrow> Inr s)"

definition session_fields :: "device_libs \<Rightarrow> device_session \<Rightarrow> device_error + (ustring \<times> ustring) list" where
  "session_fields L s =
     res_bind (timestamp_literal L (dv_created_at s)) (\<lambda>created.
     res_bind (timestamp_literal L (dv_expires_at s)) (\<lambda>expires.
       Inr ([(lit ''prefix'', encode_go_string (dv_prefix s)), (lit ''device_id'', encode_go_string (dv_device_id s))] @
            (if dv_name s = [] then [] else [(lit ''name'', encode_go_string (dv_name s))]) @
            [(lit ''public_key'', encode_go_string (dv_public_key s)), (lit ''created_at'', created),
             (lit ''expires_at'', expires), (lit ''revoked'', if dv_revoked s then lit ''true'' else lit ''false'')])))"

text \<open>Lines separated by a comma and ended by a line feed, as both loops of the source write them.\<close>

fun comma_lines :: "ustring list \<Rightarrow> ustring" where
  "comma_lines [] = []"
| "comma_lines [x] = x @ [10]"
| "comma_lines (x # y # r) = x @ [ch_comma, 10] @ comma_lines (y # r)"

definition session_entry :: "device_libs \<Rightarrow> ustring \<times> device_session \<Rightarrow> device_error + ustring" where
  "session_entry L = (\<lambda>(key, s).
     res_bind (session_fields L s) (\<lambda>fields.
       Inr (lit ''  '' @ encode_go_string key @ lit '': {'' @ [10] @
            comma_lines (map (\<lambda>(name, v). lit ''    '' @ encode_go_string name @ lit '': '' @ v) fields) @ lit ''  }'')))"

fun map_res :: "('a \<Rightarrow> 'e + 'b) \<Rightarrow> 'a list \<Rightarrow> 'e + 'b list" where
  "map_res f [] = Inr []"
| "map_res f (x # xs) = res_bind (f x) (\<lambda>y. res_bind (map_res f xs) (\<lambda>ys. Inr (y # ys)))"

definition marshal_sessions :: "device_libs \<Rightarrow> session_map \<Rightarrow> device_error + ustring" where
  "marshal_sessions L m =
     (if m = [] then Inr (lit ''{}'')
      else res_bind (map_res (session_entry L) m) (\<lambda>es. Inr (lit ''{'' @ [10] @ comma_lines es @ lit ''}'')))"

section \<open>Operations\<close>

definition save_locked ::
  "device_libs \<Rightarrow> 'f device_io \<Rightarrow> bool \<Rightarrow> session_map \<Rightarrow> 'f \<Rightarrow> (device_error + unit) \<times> 'f" where
  "save_locked L io path m f =
     (if \<not> path then (Inr (), f)
      else (case di_create_dir io f of
              (Inl e, f') \<Rightarrow> (Inl (DevSafeIo e), f')
            | (Inr _, f') \<Rightarrow>
                (case marshal_sessions L m of
                   Inl e \<Rightarrow> (Inl e, f')
                 | Inr s \<Rightarrow>
                     (case di_write io f' (as_bytes s) of
                        (Inl e, f'') \<Rightarrow> (Inl (DevSafeIo e), f'')
                      | (Inr _, f'') \<Rightarrow> (Inr (), f'')))))"

text \<open>The keys the file marks as revoked: nothing when it is absent, unreadable or does not parse.\<close>

definition disk_revoked :: "device_libs \<Rightarrow> 'f device_io \<Rightarrow> 'f \<Rightarrow> ustring list" where
  "disk_revoked L io f =
     (case di_read io f of
        Inr (Some data) \<Rightarrow>
          (case dl_decode L data of
             Inl _ \<Rightarrow> []
           | Inr disk \<Rightarrow> map fst (filter (\<lambda>(_, v). case v of Some e \<Rightarrow> dv_revoked e | None \<Rightarrow> False) disk))
      | _ \<Rightarrow> [])"

definition mark_revoked :: "(ustring \<Rightarrow> device_session \<Rightarrow> bool) \<Rightarrow> session_map \<Rightarrow> session_map" where
  "mark_revoked P m = map (\<lambda>(k, s). (k, if P k s then s\<lparr>dv_revoked := True\<rparr> else s)) m"

definition merge_revocations ::
  "device_libs \<Rightarrow> 'f device_io \<Rightarrow> bool \<Rightarrow> 'f \<Rightarrow> session_map \<Rightarrow> bool \<times> session_map" where
  "merge_revocations L io path f m =
     (if \<not> path then (False, m)
      else (let ks = disk_revoked L io f
            in (list_ex (\<lambda>k. case map_of m k of Some s \<Rightarrow> \<not> dv_revoked s | None \<Rightarrow> False) ks,
                mark_revoked (\<lambda>k _. k \<in> set ks) m)))"

definition enroll_with_token ::
  "device_libs \<Rightarrow> 'f device_io \<Rightarrow> ustring \<Rightarrow> ustring \<Rightarrow> ustring \<Rightarrow> ustring \<Rightarrow> ustring \<Rightarrow>
   device_store \<times> 'f \<Rightarrow> (device_error + unit) \<times> device_store \<times> 'f" where
  "enroll_with_token L io device_id name public_key token created_at = (\<lambda>(st, f).
     case dl_parse L created_at of
       Inl e \<Rightarrow> (Inl (DevTime e), st, f)
     | Inr created \<Rightarrow>
         (case tl_checked_add (dl_time L) created (DEFAULT_SESSION_TTL_SECONDS * 1000000000) of
            None \<Rightarrow> (Inl DevPanicked, st, f)
          | Some expires \<Rightarrow>
              if st_poisoned st then (Inl DevPoisoned, st, f)
              else
                let session = \<lparr>dv_prefix = take 4 token, dv_device_id = device_id, dv_name = name,
                      dv_public_key = public_key, dv_created_at = created_at,
                      dv_expires_at = to_rfc3339_nano (from_offset_datetime expires), dv_revoked = False\<rparr>;
                    key = hash_token L token;
                    m = bt_insert key session (st_sessions st)
                in (case save_locked L io (st_path st) m f of
                      (Inl e, f') \<Rightarrow> (Inl e, st\<lparr>st_sessions := filter (\<lambda>(k, _). k \<noteq> key) m\<rparr>, f')
                    | (Inr _, f') \<Rightarrow> (Inr (), st\<lparr>st_sessions := m\<rparr>, f'))))"

definition dev_enroll ::
  "device_libs \<Rightarrow> 'f device_io \<Rightarrow> ustring + u8 list \<Rightarrow> odt \<Rightarrow> ustring \<Rightarrow> ustring \<Rightarrow> ustring \<Rightarrow>
   device_store \<times> 'f \<Rightarrow> (device_error + ustring) \<times> device_store \<times> 'f" where
  "dev_enroll L io random now device_id name public_key = (\<lambda>(st, f).
     case generate_token random of
       Inl e \<Rightarrow> (Inl (DevToken e), st, f)
     | Inr token \<Rightarrow>
         (case enroll_with_token L io device_id name public_key token
                 (to_rfc3339_nano (from_offset_datetime now)) (st, f) of
            (Inl e, s) \<Rightarrow> (Inl e, s)
          | (Inr _, s) \<Rightarrow> (Inr token, s)))"

definition dev_validate ::
  "device_libs \<Rightarrow> 'f device_io \<Rightarrow> odt \<Rightarrow> ustring \<Rightarrow> device_store \<times> 'f \<Rightarrow>
   (device_error + ustring option) \<times> device_store \<times> 'f" where
  "dev_validate L io now token = (\<lambda>(st, f).
     if st_poisoned st then (Inl DevPoisoned, st, f)
     else
       let m = snd (merge_revocations L io (st_path st) f (st_sessions st)); st' = st\<lparr>st_sessions := m\<rparr>
       in (case map_of m (hash_token L token) of
             None \<Rightarrow> Inr None
           | Some s \<Rightarrow>
               if dv_revoked s then Inr None
               else (case dl_parse L (dv_expires_at s) of
                       Inl e \<Rightarrow> Inl (DevTime e)
                     | Inr expires \<Rightarrow>
                         if tl_unix_nanos (dl_time L) expires < tl_unix_nanos (dl_time L) now then Inr None
                         else Inr (Some (dv_device_id s))), st', f))"

definition dev_list :: "device_store \<Rightarrow> device_error + device_session list" where
  "dev_list st = (if st_poisoned st then Inl DevPoisoned else Inr (map snd (st_sessions st)))"

text \<open>The shared tail of the mutations: keep the new map in memory, save it when asked to.\<close>

definition keep_and_save ::
  "device_libs \<Rightarrow> 'f device_io \<Rightarrow> bool \<Rightarrow> session_map \<Rightarrow> device_store \<times> 'f \<Rightarrow> (device_error + unit) \<times> device_store \<times> 'f" where
  "keep_and_save L io changed m = (\<lambda>(st, f).
     let st' = st\<lparr>st_sessions := m\<rparr>
     in if changed then (let (r, f') = save_locked L io (st_path st) m f in (r, st', f')) else (Inr (), st', f))"

definition dev_revoke ::
  "device_libs \<Rightarrow> 'f device_io \<Rightarrow> ustring \<Rightarrow> device_store \<times> 'f \<Rightarrow> (device_error + unit) \<times> device_store \<times> 'f" where
  "dev_revoke L io device_id = (\<lambda>(st, f).
     if st_poisoned st then (Inl DevPoisoned, st, f)
     else
       let (changed, m) = merge_revocations L io (st_path st) f (st_sessions st);
           hit = list_ex (\<lambda>(_, s). dv_device_id s = device_id \<and> \<not> dv_revoked s) m
       in keep_and_save L io (changed \<or> hit) (mark_revoked (\<lambda>_ s. dv_device_id s = device_id) m) (st, f))"

definition dev_revoke_all ::
  "device_libs \<Rightarrow> 'f device_io \<Rightarrow> device_store \<times> 'f \<Rightarrow> (device_error + unit) \<times> device_store \<times> 'f" where
  "dev_revoke_all L io = (\<lambda>(st, f).
     if st_poisoned st then (Inl DevPoisoned, st, f)
     else
       let (_, m) = merge_revocations L io (st_path st) f (st_sessions st)
       in keep_and_save L io True (mark_revoked (\<lambda>_ _. True) m) (st, f))"

definition unexpired :: "device_libs \<Rightarrow> odt \<Rightarrow> device_session \<Rightarrow> bool" where
  "unexpired L now s =
     (case dl_parse L (dv_expires_at s) of
        Inl _ \<Rightarrow> False
      | Inr expires \<Rightarrow> tl_unix_nanos (dl_time L) now \<le> tl_unix_nanos (dl_time L) expires)"

definition dev_cleanup_expired ::
  "device_libs \<Rightarrow> 'f device_io \<Rightarrow> odt \<Rightarrow> device_store \<times> 'f \<Rightarrow> (device_error + unit) \<times> device_store \<times> 'f" where
  "dev_cleanup_expired L io now = (\<lambda>(st, f).
     if st_poisoned st then (Inl DevPoisoned, st, f)
     else
       let (changed, m) = merge_revocations L io (st_path st) f (st_sessions st)
       in keep_and_save L io (changed \<or> list_ex (\<lambda>(_, s). \<not> unexpired L now s) m)
            (filter (\<lambda>(_, s). unexpired L now s) m) (st, f))"

definition dev_save ::
  "device_libs \<Rightarrow> 'f device_io \<Rightarrow> device_store \<times> 'f \<Rightarrow> (device_error + unit) \<times> device_store \<times> 'f" where
  "dev_save L io = (\<lambda>(st, f).
     if st_poisoned st then (Inl DevPoisoned, st, f)
     else (let (r, f') = save_locked L io (st_path st) (st_sessions st) f in (r, st, f')))"

text \<open>One entry of the file at load time: its key and value in memory, and whether it was migrated.\<close>

definition load_entry :: "device_libs \<Rightarrow> ustring \<Rightarrow> device_session \<Rightarrow> device_error + (ustring \<times> device_session \<times> bool)" where
  "load_entry L key entry =
     res_bind (dev_go_time L (dv_created_at entry)) (\<lambda>created.
     res_bind (dev_go_time L (dv_expires_at entry)) (\<lambda>expires.
       let e = entry\<lparr>dv_created_at := to_rfc3339_nano created, dv_expires_at := to_rfc3339_nano expires\<rparr>
       in if looks_like_sha256_hex key then Inr (key, e, False)
          else Inr (hash_token L key, if dv_prefix e = [] then e\<lparr>dv_prefix := take 4 key\<rparr> else e, True)))"

fun load_entries ::
  "device_libs \<Rightarrow> (ustring \<times> device_session option) list \<Rightarrow> session_map \<Rightarrow> bool \<Rightarrow> device_error + session_map \<times> bool" where
  "load_entries L [] m migrated = Inr (m, migrated)"
| "load_entries L ((key, None) # r) m migrated = load_entries L r m migrated"
| "load_entries L ((key, Some entry) # r) m migrated =
     res_bind (load_entry L key entry) (\<lambda>(k, e, mig). load_entries L r (bt_insert k e m) (migrated \<or> mig))"

definition dev_new ::
  "device_libs \<Rightarrow> 'f device_io \<Rightarrow> bool \<Rightarrow> 'f \<Rightarrow> (device_error + device_store) \<times> 'f" where
  "dev_new L io path f =
     (let st = \<lparr>st_path = path, st_sessions = [], st_poisoned = False\<rparr>
      in if \<not> path then (Inr st, f)
         else (case di_read io f of
                 Inl e \<Rightarrow> (Inl (DevSafeIo e), f)
               | Inr None \<Rightarrow>
                   (case save_locked L io path [] f of (Inl e, f') \<Rightarrow> (Inl e, f') | (Inr _, f') \<Rightarrow> (Inr st, f'))
               | Inr (Some data) \<Rightarrow>
                   (case dl_decode L data of
                      Inl e \<Rightarrow> (Inl (DevJson e), f)
                    | Inr raw \<Rightarrow>
                        (case load_entries L raw [] False of
                           Inl e \<Rightarrow> (Inl e, f)
                         | Inr (m, migrated) \<Rightarrow>
                             (case (if migrated then save_locked L io path m f else (Inr (), f)) of
                                (Inl e, f') \<Rightarrow> (Inl e, f')
                              | (Inr _, f') \<Rightarrow> (Inr (st\<lparr>st_sessions := m\<rparr>), f'))))))"

section \<open>Revocation is final in memory\<close>

lemma map_of_mark_revoked: "map_of (mark_revoked P m) k = map_option (\<lambda>s. if P k s then s\<lparr>dv_revoked := True\<rparr> else s) (map_of m k)"
  unfolding mark_revoked_def by (induction m) auto

lemma mark_revoked_lookup:
  assumes "m' = mark_revoked P m" "map_of m' k = Some s"
  obtains t where "s = (if P k t then t\<lparr>dv_revoked := True\<rparr> else t)"
  using assms(2) unfolding assms(1) map_of_mark_revoked by blast

lemma bt_inv_mark_revoked [simp]: "bt_inv (mark_revoked P m) \<longleftrightarrow> bt_inv m"
  unfolding mark_revoked_def by (rule bt_inv_map_val)

lemma map_of_merge:
  "map_of (snd (merge_revocations L io path f m)) k =
     map_option (\<lambda>s. if path \<and> k \<in> set (disk_revoked L io f) then s\<lparr>dv_revoked := True\<rparr> else s) (map_of m k)"
  by (auto simp: merge_revocations_def map_of_mark_revoked Let_def map_option_case split: option.splits)

lemma bt_inv_merge [simp]: "bt_inv (snd (merge_revocations L io path f m)) \<longleftrightarrow> bt_inv m"
  by (simp add: merge_revocations_def Let_def)

lemma map_of_filter_key: "map_of (filter (\<lambda>(k, _). k \<noteq> key) m) k = (if k = key then None else map_of m k)"
  by (induction m) auto

text \<open>A key is dead when it has no session, or a revoked one.\<close>

definition dead :: "ustring \<Rightarrow> session_map \<Rightarrow> bool" where
  "dead h m \<longleftrightarrow> (\<forall>s. map_of m h = Some s \<longrightarrow> dv_revoked s)"

definition dead_store :: "ustring \<Rightarrow> device_store \<times> 'f \<Rightarrow> bool" where
  "dead_store h S \<longleftrightarrow> bt_inv (st_sessions (fst S)) \<and> dead h (st_sessions (fst S))"

lemma dead_mark: "dead h m \<Longrightarrow> dead h (mark_revoked P m)"
  by (auto simp: dead_def map_of_mark_revoked split: if_splits)

lemma dead_merge: "dead h m \<Longrightarrow> dead h (snd (merge_revocations L io path f m))"
  by (auto simp: dead_def map_of_merge split: if_splits)

lemma dead_filter: "bt_inv m \<Longrightarrow> dead h m \<Longrightarrow> dead h (filter P m)"
  by (auto simp: dead_def map_of_eq_Some_iff [OF bt_inv_distinct] bt_inv_filter)

text \<open>What a process does with its store; other processes may replace the file at any time.\<close>

datatype 'f device_op =
    OpEnroll "ustring + u8 list" odt ustring ustring ustring
  | OpValidate odt ustring
  | OpRevoke ustring
  | OpRevokeAll
  | OpCleanup odt
  | OpSave
  | OpOther 'f

fun device_apply :: "device_libs \<Rightarrow> 'f device_io \<Rightarrow> 'f device_op \<Rightarrow> device_store \<times> 'f \<Rightarrow> device_store \<times> 'f" where
  "device_apply L io (OpEnroll random now device_id name pk) S = snd (dev_enroll L io random now device_id name pk S)"
| "device_apply L io (OpValidate now token) S = snd (dev_validate L io now token S)"
| "device_apply L io (OpRevoke device_id) S = snd (dev_revoke L io device_id S)"
| "device_apply L io OpRevokeAll S = snd (dev_revoke_all L io S)"
| "device_apply L io (OpCleanup now) S = snd (dev_cleanup_expired L io now S)"
| "device_apply L io OpSave S = snd (dev_save L io S)"
| "device_apply L io (OpOther f) S = (fst S, f)"

fun enrolls_key :: "device_libs \<Rightarrow> ustring \<Rightarrow> 'f device_op \<Rightarrow> bool" where
  "enrolls_key L h (OpEnroll random now device_id name pk) \<longleftrightarrow>
     (\<exists>t. generate_token random = Inr t \<and> hash_token L t = h)"
| "enrolls_key L h _ \<longleftrightarrow> False"

lemma dead_keep_and_save:
  "bt_inv m \<Longrightarrow> dead h m \<Longrightarrow> dead_store h (snd (keep_and_save L io c m S))"
  by (cases S) (auto simp: keep_and_save_def dead_store_def Let_def split: prod.splits)

lemma dead_enroll_with_token:
  assumes "dead_store h S" "hash_token L token \<noteq> h"
  shows "dead_store h (snd (enroll_with_token L io d n pk token c S))"
proof (cases S)
  case (Pair st f)
  then show ?thesis using assms
    by (auto simp: enroll_with_token_def dead_store_def dead_def Let_def bt_lookup_insert bt_inv_insert bt_inv_filter
        map_of_filter_key split: sum.splits option.splits prod.splits if_splits)
qed

lemma dead_enroll:
  assumes "dead_store h S" "\<not> enrolls_key L h (OpEnroll random now d n pk)"
  shows "dead_store h (snd (dev_enroll L io random now d n pk S))"
proof (cases "generate_token random")
  case (Inl e)
  then show ?thesis using assms(1) by (cases S) (simp add: dev_enroll_def)
next
  case (Inr t)
  define R where "R = enroll_with_token L io d n pk t (to_rfc3339_nano (from_offset_datetime now)) S"
  have "dead_store h (snd R)"
    unfolding R_def using assms Inr by (intro dead_enroll_with_token) auto
  moreover have "snd (dev_enroll L io random now d n pk S) = snd R"
    using Inr by (cases S) (auto simp: dev_enroll_def R_def split: prod.splits sum.splits)
  ultimately show ?thesis by simp
qed

lemma dead_apply:
  assumes "dead_store h S" "\<not> enrolls_key L h op"
  shows "dead_store h (device_apply L io op S)"
proof (cases S)
  case (Pair st f)
  have inv: "bt_inv (st_sessions st)" "dead h (st_sessions st)" using assms(1) by (simp_all add: dead_store_def Pair)
  let ?m = "snd (merge_revocations L io (st_path st) f (st_sessions st))"
  have m: "bt_inv ?m" "dead h ?m" using inv by (simp_all add: dead_merge)
  show ?thesis
  proof (cases op)
    case (OpEnroll random now d n pk)
    then show ?thesis using dead_enroll [OF assms(1)] assms(2) by simp
  next
    case (OpValidate now token)
    then show ?thesis using m by (simp add: dev_validate_def Pair dead_store_def Let_def inv)
  next
    case (OpRevoke d)
    show ?thesis using assms(1) dead_keep_and_save [of "mark_revoked _ ?m" h L io _ "(st, f)"] m
      by (simp add: OpRevoke dev_revoke_def Pair dead_mark split_beta Let_def)
  next
    case OpRevokeAll
    show ?thesis using assms(1) dead_keep_and_save [of "mark_revoked _ ?m" h L io _ "(st, f)"] m
      by (simp add: OpRevokeAll dev_revoke_all_def Pair dead_mark split_beta Let_def)
  next
    case (OpCleanup now)
    show ?thesis using assms(1) dead_keep_and_save [of "filter _ ?m" h L io _ "(st, f)"] m
      by (simp add: OpCleanup dev_cleanup_expired_def Pair dead_filter bt_inv_filter split_beta Let_def)
  next
    case OpSave
    then show ?thesis using assms(1) by (simp add: dev_save_def Pair dead_store_def split_beta Let_def)
  next
    case (OpOther f')
    then show ?thesis using assms(1) by (simp add: Pair dead_store_def)
  qed
qed

lemma dead_run:
  "dead_store h S \<Longrightarrow> \<forall>op \<in> set ops. \<not> enrolls_key L h op \<Longrightarrow> dead_store h (fold (device_apply L io) ops S)"
proof (induction ops arbitrary: S)
  case (Cons op ops)
  have "dead_store h (device_apply L io op S)" using Cons.prems by (intro dead_apply) simp_all
  then show ?case using Cons by simp
qed simp

lemma validate_dead:
  assumes "dead_store (hash_token L token) S"
  shows "fst (dev_validate L io now token S) \<noteq> Inr (Some d)"
proof (cases S)
  case (Pair st f)
  have "dead (hash_token L token) (snd (merge_revocations L io (st_path st) f (st_sessions st)))"
    using assms by (auto simp: dead_store_def Pair intro: dead_merge)
  then show ?thesis by (auto simp: dev_validate_def Pair Let_def dead_def split: option.splits sum.splits)
qed

text \<open>
  C21. Once a store has a session revoked in memory, its token is never accepted again: whatever the
  process does with the store, and whatever other processes write to the file in between, validation
  fails until a new enrolment generates the same token.
\<close>

theorem revoked_token_stays_refused:
  assumes "bt_inv (st_sessions st)" "map_of (st_sessions st) (hash_token L token) = Some s" "dv_revoked s"
    and "\<forall>op \<in> set ops. \<not> enrolls_key L (hash_token L token) op"
  shows "fst (dev_validate L io now token (fold (device_apply L io) ops (st, f))) \<noteq> Inr (Some d)"
proof -
  have "dead_store (hash_token L token) (st, f)" using assms(1-3) by (simp add: dead_store_def dead_def)
  from dead_run [OF this assms(4)] show ?thesis by (rule validate_dead)
qed

section \<open>What validation accepts\<close>

lemma dev_validate_iff:
  "fst (dev_validate L io now token (st, f)) = Inr (Some d) \<longleftrightarrow>
     \<not> st_poisoned st \<and>
     (\<exists>s x. map_of (st_sessions st) (hash_token L token) = Some s \<and> \<not> dv_revoked s \<and>
        \<not> (st_path st \<and> hash_token L token \<in> set (disk_revoked L io f)) \<and>
        dl_parse L (dv_expires_at s) = Inr x \<and>
        tl_unix_nanos (dl_time L) now \<le> tl_unix_nanos (dl_time L) x \<and> dv_device_id s = d)"
  by (auto simp: dev_validate_def Let_def map_of_merge split: option.splits sum.splits if_splits)

lemma revoke_refuses:
  assumes "bt_inv (st_sessions st)" "\<not> st_poisoned st"
  shows "fst (dev_validate L io now token (snd (dev_revoke L io d (st, f)))) \<noteq> Inr (Some d)"
proof -
  obtain st' f' where S: "snd (dev_revoke L io d (st, f)) = (st', f')" by (cases "snd (dev_revoke L io d (st, f))")
  have "st_sessions (fst (snd (keep_and_save L io c m (st, f)))) = m" for c m
    by (simp add: keep_and_save_def Let_def split_beta)
  moreover have "st_sessions st' = st_sessions (fst (snd (dev_revoke L io d (st, f))))" by (simp add: S)
  ultimately have "st_sessions st' = mark_revoked (\<lambda>_ s. dv_device_id s = d) (snd (merge_revocations L io (st_path st) f (st_sessions st)))"
    using assms(2) by (simp add: dev_revoke_def Let_def split_beta)
  then have "dv_revoked s" if "map_of (st_sessions st') h = Some s" "dv_device_id s = d" for h s
    by (rule mark_revoked_lookup [OF _ that(1)]) (use that(2) in \<open>auto split: if_splits\<close>)
  then show ?thesis unfolding S dev_validate_iff by metis
qed

section \<open>Enrolment and revocations of other processes\<close>

text \<open>The file holds the map \<open>m\<close>: what was rendered is what is read and decoded.\<close>

definition file_holds :: "device_libs \<Rightarrow> 'f device_io \<Rightarrow> session_map \<Rightarrow> 'f \<Rightarrow> bool" where
  "file_holds L io m f \<longleftrightarrow>
     (\<exists>s. marshal_sessions L m = Inr s \<and> di_read io f = Inr (Some (as_bytes s)) \<and>
        dl_decode L (as_bytes s) = Inr (map (\<lambda>(k, v). (k, Some v)) m))"

lemma disk_revoked_file_holds:
  "file_holds L io m f \<Longrightarrow> set (disk_revoked L io f) = {k. \<exists>s. (k, s) \<in> set m \<and> dv_revoked s}"
proof -
  have "set (map fst (filter (\<lambda>(_, v). case v of Some e \<Rightarrow> dv_revoked e | None \<Rightarrow> False) (map (\<lambda>(k, v). (k, Some v)) m))) =
      {k. \<exists>s. (k, s) \<in> set m \<and> dv_revoked s}"
    by (induction m) auto
  moreover assume "file_holds L io m f"
  ultimately show ?thesis unfolding file_holds_def disk_revoked_def by (elim exE conjE) (simp del: set_map set_filter)
qed

lemma dev_enroll_Inr:
  assumes "dev_enroll L io random t0 d n pk (st, f) = (Inr t, st', f')"
  shows "\<exists>s. st' = st\<lparr>st_sessions := bt_insert (hash_token L t) s (st_sessions st)\<rparr> \<and> \<not> dv_revoked s"
  using assms
  by (auto simp: dev_enroll_def enroll_with_token_def Let_def split: sum.splits prod.splits option.splits if_splits)


section \<open>Witnesses\<close>

lemma days_agree:
  assumes "1 \<le> m" "m \<le> 12"
  shows "int (pairing_days_in_month y m) = days_in_month (int y) (int m)"
proof -
  have "m = 1 \<or> m = 2 \<or> m = 3 \<or> m = 4 \<or> m = 5 \<or> m = 6 \<or> m = 7 \<or> m = 8 \<or> m = 9 \<or> m = 10 \<or> m = 11 \<or> m = 12"
    using assms by arith
  moreover have "leap_year (int y) \<longleftrightarrow> y mod 4 = 0 \<and> (y mod 100 \<noteq> 0 \<or> y mod 400 = 0)"
  proof -
    have "int y mod 4 = int (y mod 4)" "int y mod 100 = int (y mod 100)" "int y mod 400 = int (y mod 400)"
      using zmod_int [of y 4] zmod_int [of y 100] zmod_int [of y 400] by simp_all
    then show ?thesis unfolding leap_year_def by (simp only: of_nat_eq_0_iff)
  qed
  ultimately show ?thesis by (elim disjE) (simp_all add: pairing_days_in_month_def days_in_month_def)
qed

lemma utc_go_time_ok:
  assumes "odt_wf utc_calendar v" "od_offset v = 0" "0 \<le> od_year v"
  shows "go_time_ok (from_offset_datetime v)"
    "parse_go_rfc3339 utc_calendar (to_rfc3339_nano (from_offset_datetime v)) = Some v"
proof -
  have y: "od_year v \<le> 9999" "int (od_day v) \<le> days_in_month (od_year v) (int (od_month v))" "1 \<le> od_month v" "od_month v \<le> 12"
    using assms(1) by (auto simp: odt_wf_def utc_calendar_def)
  have "od_day v \<le> pairing_days_in_month (nat (od_year v)) (od_month v)"
    using days_agree [OF y(3,4), of "nat (od_year v)"] y(2) assms(3) by simp
  then show "go_time_ok (from_offset_datetime v)"
    using assms y by (simp add: go_time_ok_def from_offset_datetime_def odt_wf_def)
  show "parse_go_rfc3339 utc_calendar (to_rfc3339_nano (from_offset_datetime v)) = Some v"
    using parse_go_rfc3339_printed [OF assms y(1)] assms(2)
    by (simp add: to_rfc3339_nano_def from_offset_datetime_def offset_text_def)
qed

text \<open>Timestamps the encoder accepts.\<close>

definition renders :: "ustring \<Rightarrow> bool" where
  "renders v \<longleftrightarrow> (\<exists>t. go_time_ok t \<and> gt_offset_seconds t = 0 \<and> v = to_rfc3339_nano t)"

lemma timestamp_literal_renders: "renders v \<Longrightarrow> \<exists>s. timestamp_literal L v = Inr s"
  by (auto simp: renders_def timestamp_literal_def dev_go_time_def go_time_printed to_go_json_def check_marshalable_def go_time_ok_def)

lemma map_res_Inr: "\<forall>x \<in> set xs. \<exists>y. f x = Inr y \<Longrightarrow> \<exists>ys. map_res f xs = Inr ys"
  by (induction xs) auto

lemma marshal_sessions_renders:
  assumes "\<forall>(k, s) \<in> set m. renders (dv_created_at s) \<and> renders (dv_expires_at s)"
  shows "\<exists>t. marshal_sessions L m = Inr t"
proof -
  have "\<exists>y. session_entry L x = Inr y" if "x \<in> set m" for x
  proof (cases x)
    case (Pair k s)
    then have "renders (dv_created_at s)" "renders (dv_expires_at s)" using assms that by auto
    then obtain c e where "timestamp_literal L (dv_created_at s) = Inr c" "timestamp_literal L (dv_expires_at s) = Inr e"
      using timestamp_literal_renders by metis
    then show ?thesis by (simp add: Pair session_entry_def session_fields_def)
  qed
  then obtain ys where "map_res (session_entry L) m = Inr ys" using map_res_Inr by metis
  then show ?thesis by (simp add: marshal_sessions_def)
qed

text \<open>A device enrolled at the epoch, and a file system that holds one document.\<close>

definition epoch :: odt where
  "epoch = \<lparr>od_year = 1970, od_month = 1, od_day = 1, od_hour = 0, od_minute = 0, od_second = 0, od_nano = 0, od_offset = 0\<rparr>"

definition epoch_end :: odt where
  "epoch_end = \<lparr>od_year = 1970, od_month = 4, od_day = 1, od_hour = 0, od_minute = 0, od_second = 0, od_nano = 0, od_offset = 0\<rparr>"

lemma epoch_wf: "odt_wf utc_calendar epoch" "odt_wf utc_calendar epoch_end"
  by (simp_all add: epoch_def epoch_end_def odt_wf_def utc_calendar_def days_in_month_def)

lemma epoch_nanos: "utc_nanos epoch = 0" "utc_nanos epoch_end = 7776000000000000"
  by (simp_all add: epoch_def epoch_end_def utc_nanos_def days_from_civil_def Let_def)

lemma epoch_add: "tl_checked_add utc_calendar epoch (DEFAULT_SESSION_TTL_SECONDS * 1000000000) = Some epoch_end"
proof -
  have "civil_from_days 90 = (1970, 4, 1)" by code_simp
  then have "utc_of_nanos 7776000000000000 = epoch_end" by (simp add: utc_of_nanos_def epoch_end_def)
  then show ?thesis by (simp add: utc_calendar_def epoch_nanos stamp_range_def DEFAULT_SESSION_TTL_SECONDS_def)
qed

abbreviation stamp_of :: "odt \<Rightarrow> ustring" where "stamp_of v \<equiv> to_rfc3339_nano (from_offset_datetime v)"

lemma epoch_stamps:
  "renders (stamp_of epoch)" "renders (stamp_of epoch_end)"
  "parse_go_rfc3339 utc_calendar (stamp_of epoch) = Some epoch" "parse_go_rfc3339 utc_calendar (stamp_of epoch_end) = Some epoch_end"
proof -
  have st: "renders (stamp_of v)" if "odt_wf utc_calendar v" "od_offset v = 0" "0 \<le> od_year v" for v
    using utc_go_time_ok(1) [OF that] that(2) unfolding renders_def by (intro exI [of _ "from_offset_datetime v"]) (simp add: from_offset_datetime_def)
  have e: "od_offset epoch = 0" "0 \<le> od_year epoch" "od_offset epoch_end = 0" "0 \<le> od_year epoch_end"
    by (simp_all add: epoch_def epoch_end_def)
  show "renders (stamp_of epoch)" "renders (stamp_of epoch_end)" using st epoch_wf e by blast+
  show "parse_go_rfc3339 utc_calendar (stamp_of epoch) = Some epoch" "parse_go_rfc3339 utc_calendar (stamp_of epoch_end) = Some epoch_end"
    using utc_go_time_ok(2) epoch_wf e by blast+
qed

definition demo_session :: "ustring \<Rightarrow> bool \<Rightarrow> device_session" where
  "demo_session d r = \<lparr>dv_prefix = [], dv_device_id = d, dv_name = [], dv_public_key = [],
     dv_created_at = stamp_of epoch, dv_expires_at = stamp_of epoch_end, dv_revoked = r\<rparr>"

definition new_session :: device_session where
  "new_session = (demo_session (lit ''d2'') False)\<lparr>dv_prefix := lit ''0000''\<rparr>"

definition new_key :: ustring where "new_key = concat (replicate 32 [51, 48])"

text \<open>The document \<open>[1]\<close> says that the token \<open>a\<close> is revoked; any other one is the map after the enrolment.\<close>

definition demo_device_libs :: device_libs where
  "demo_device_libs = \<lparr>dl_decode = (\<lambda>b. Inr (if b = [1] then [([54, 49], Some (demo_session (lit ''d1'') True))]
       else map (\<lambda>(k, v). (k, Some v)) (bt_insert new_key new_session [([54, 49], demo_session (lit ''d1'') False)]))),
     dl_sha256 = map of_nat, dl_parse = (\<lambda>v. case parse_go_rfc3339 utc_calendar v of None \<Rightarrow> Inl [] | Some x \<Rightarrow> Inr x),
     dl_time = utc_calendar, dl_error_text = (\<lambda>_. [])\<rparr>"

definition demo_device_io :: "nat list device_io" where
  "demo_device_io = \<lparr>di_read = (\<lambda>f. Inr (Some f)), di_create_dir = (\<lambda>f. (Inr (), f)), di_write = (\<lambda>_ b. (Inr (), b))\<rparr>"

definition demo_device_store :: "bool \<Rightarrow> device_store" where
  "demo_device_store r = \<lparr>st_path = True, st_sessions = [([54, 49], demo_session (lit ''d1'') r)], st_poisoned = False\<rparr>"

lemma demo_hash: "hash_token demo_device_libs [97] = [54, 49]" "hash_token demo_device_libs (replicate 32 48) = new_key"
  by (simp_all add: hash_token_def demo_device_libs_def as_bytes_def utf8_bytes_def go_hex_def new_key_def map_replicate_const
      concat_replicate_trivial)

lemma demo_token: "generate_token (Inr (replicate 20 0)) = Inr (replicate 32 48)"
  by (simp add: generate_token_def token_values_def TOKEN_ALPHABET_def numeral_eq_Suc)

lemma demo_parse:
  "dl_parse demo_device_libs (stamp_of epoch) = Inr epoch" "dl_parse demo_device_libs (stamp_of epoch_end) = Inr epoch_end"
  "dl_time demo_device_libs = utc_calendar"
  by (simp_all add: demo_device_libs_def epoch_stamps)

theorem revoked_token_stays_refused_witness:
  "fst (dev_validate demo_device_libs demo_device_io epoch [97]
     (fold (device_apply demo_device_libs demo_device_io) [OpOther [2], OpSave] (demo_device_store True, [1]))) \<noteq> Inr (Some (lit ''d1''))"
  using revoked_token_stays_refused [where st = "demo_device_store True" and L = demo_device_libs and token = "[97]"
      and s = "demo_session (lit ''d1'') True" and ops = "[OpOther [2], OpSave]" and io = demo_device_io and f = "[1]"
      and d = "lit ''d1''" and now = epoch]
  by (simp add: demo_device_store_def demo_hash demo_session_def bt_inv_def)

lemma demo_marshal: "\<exists>t. marshal_sessions demo_device_libs (bt_insert new_key new_session [([54, 49], demo_session (lit ''d1'') False)]) = Inr t"
  by (rule marshal_sessions_renders) (auto simp: new_session_def demo_session_def epoch_stamps split: if_splits)

lemma demo_enroll:
  assumes "marshal_sessions demo_device_libs (bt_insert new_key new_session [([54, 49], demo_session (lit ''d1'') False)]) = Inr t"
  shows "dev_enroll demo_device_libs demo_device_io (Inr (replicate 20 0)) epoch (lit ''d2'') [] [] (demo_device_store False, [1]) =
    (Inr (replicate 32 48),
     (demo_device_store False)\<lparr>st_sessions := bt_insert new_key new_session [([54, 49], demo_session (lit ''d1'') False)]\<rparr>, as_bytes t)"
proof -
  have "\<lparr>dv_prefix = take 4 (replicate 32 48), dv_device_id = lit ''d2'', dv_name = [], dv_public_key = [],
      dv_created_at = stamp_of epoch, dv_expires_at = stamp_of epoch_end, dv_revoked = False\<rparr> = new_session"
    by (simp add: new_session_def demo_session_def numeral_eq_Suc)
  then show ?thesis
    unfolding dev_enroll_def enroll_with_token_def save_locked_def Let_def
    using assms by (simp only: demo_token demo_parse demo_hash epoch_add demo_device_store_def demo_device_io_def
        device_store.simps device_io.simps prod.case sum.case option.case if_False simp_thms)
qed


end
