(* ===== verification/Approval.thy ===== *)
theory Approval
  imports Device_Sessions "HOL-Library.Product_Lexorder"
begin

text \<open>
  \<^verbatim>\<open>symvault-mcp/src/approval.rs\<close>: the in-process queue of approval requests, and the two HTTP interfaces
  through which the local command line and an enrolled device list and decide them.

  The queue is the mutex-protected map with the mutex's poison flag; every call holds the lock for one
  function here, except \<open>wait\<close>, whose iterations are separated by the condition variable. Each reading of
  the clock is an argument. The RFC 3339 printer and parser of the \<^verbatim>\<open>time\<close> crate, the JSON encoder and
  HMAC-SHA256 are the fields of \<open>approval_libs\<close>.
\<close>

section \<open>State\<close>

record approval_request =
  ar_agent_name :: ustring
  ar_path :: ustring
  ar_write :: bool
  ar_reason :: ustring
  ar_created_at :: ustring
  ar_expires_at :: ustring

record approval_entry =
  ae_request :: approval_request
  ae_id :: ustring
  ae_status :: ustring
  ae_decided_at :: ustring
  ae_decided_by :: "ustring option"

record approval_outcome =
  ao_id :: ustring
  ao_status :: ustring
  ao_decided_at :: ustring
  ao_decided_by :: "ustring option"

record approval_queue =
  aq_entries :: "(ustring \<times> approval_entry) list"
  aq_poisoned :: bool

datatype approval_error = ApprovalMsg ustring | ApprovalPanic

record approval_libs =
  al_format :: "odt \<Rightarrow> ustring + ustring"
  al_parse :: "ustring \<Rightarrow> odt option"
  al_time :: time_lib
  al_error_json :: "ustring \<Rightarrow> nat list"
  al_requests_json :: "approval_entry list \<Rightarrow> nat list"
  al_outcome_json :: "approval_outcome \<Rightarrow> nat list"
  al_hmac_sha256 :: "nat list \<Rightarrow> nat list \<Rightarrow> nat list"

definition DEFAULT_TTL :: int where "DEFAULT_TTL = 300 * 1000000000"
definition PROOF_WINDOW :: int where "PROOF_WINDOW = 30 * 1000000000"
definition LOCAL_APPROVALS :: ustring where "LOCAL_APPROVALS = lit ''/api/v1/local/approvals''"
definition LOCAL_APPROVAL_ACTION :: ustring where "LOCAL_APPROVAL_ACTION = lit ''/api/v1/local/approvals/''"
definition DEVICE_APPROVALS :: ustring where "DEVICE_APPROVALS = lit ''/api/v1/approvals''"
definition DEVICE_APPROVAL_ACTION :: ustring where "DEVICE_APPROVAL_ACTION = lit ''/api/v1/approvals/''"
definition DEVICE_UNAUTHORIZED :: ustring where "DEVICE_UNAUTHORIZED = lit ''unauthorized: valid device token required''"

definition st_pending :: ustring where "st_pending = lit ''pending''"
definition st_expired :: ustring where "st_expired = lit ''expired''"
definition st_approved :: ustring where "st_approved = lit ''approved''"
definition st_denied :: ustring where "st_denied = lit ''denied''"

definition poisoned_text :: ustring where "poisoned_text = lit ''approval queue lock poisoned''"

section \<open>The queue\<close>

definition approval_hex :: "nat list \<Rightarrow> ustring" where
  "approval_hex b = concat (map (\<lambda>x. [go_hex (x div 16), go_hex (x mod 16)]) b)"

definition approval_timestamp :: "approval_libs \<Rightarrow> odt \<Rightarrow> approval_error + ustring" where
  "approval_timestamp A v =
     (case al_format A v of Inr s \<Rightarrow> Inr s | Inl e \<Rightarrow> Inl (ApprovalMsg (lit ''format approval timestamp: '' @ e)))"

definition expire_entry :: "approval_libs \<Rightarrow> odt \<Rightarrow> approval_entry \<Rightarrow> approval_entry" where
  "expire_entry A now e =
     (if ae_status e = st_pending \<and>
         (case al_parse A (ar_expires_at (ae_request e)) of
            None \<Rightarrow> False
          | Some x \<Rightarrow> tl_unix_nanos (al_time A) x < tl_unix_nanos (al_time A) now)
      then e\<lparr>ae_status := st_expired, ae_decided_at := ar_expires_at (ae_request e)\<rparr> else e)"

definition expire :: "approval_libs \<Rightarrow> odt \<Rightarrow> (ustring \<times> approval_entry) list \<Rightarrow> (ustring \<times> approval_entry) list" where
  "expire A now es = map (\<lambda>(k, e). (k, expire_entry A now e)) es"

definition new_entry :: "ustring \<Rightarrow> ustring \<Rightarrow> ustring \<Rightarrow> bool \<Rightarrow> ustring \<Rightarrow> ustring \<Rightarrow> ustring \<Rightarrow> approval_entry" where
  "new_entry apr agent path write reason created_at expires_at =
     \<lparr>ae_request = \<lparr>ar_agent_name = agent, ar_path = path, ar_write = write, ar_reason = reason,
        ar_created_at = created_at, ar_expires_at = expires_at\<rparr>,
      ae_id = apr, ae_status = st_pending, ae_decided_at = lit ''0001-01-01T00:00:00Z'', ae_decided_by = None\<rparr>"

definition enqueue_with_ttl ::
  "approval_libs \<Rightarrow> ustring + nat list \<Rightarrow> odt \<Rightarrow> ustring \<Rightarrow> ustring \<Rightarrow> bool \<Rightarrow> ustring \<Rightarrow> int \<Rightarrow>
   approval_queue \<Rightarrow> (approval_error + ustring) \<times> approval_queue" where
  "enqueue_with_ttl A random now agent path write reason ttl0 q =
     (let ttl = (if ttl0 = 0 then DEFAULT_TTL else ttl0)
      in case random of
           Inl e \<Rightarrow> (Inl (ApprovalMsg (lit ''generate approval id: '' @ e)), q)
         | Inr bytes \<Rightarrow>
             (case tl_checked_add (al_time A) now ttl of
                None \<Rightarrow> (Inl ApprovalPanic, q)
              | Some expires \<Rightarrow>
                  (case res_bind (approval_timestamp A now) (\<lambda>c. res_bind (approval_timestamp A expires) (\<lambda>e. Inr (c, e))) of
                     Inl err \<Rightarrow> (Inl err, q)
                   | Inr (created_at, expires_at) \<Rightarrow>
                       if aq_poisoned q then (Inl (ApprovalMsg poisoned_text), q)
                       else
                         let apr = lit ''apr-'' @ approval_hex bytes
                         in (Inr apr, q\<lparr>aq_entries := bt_insert apr
                               (new_entry apr agent path write reason created_at expires_at) (aq_entries q)\<rparr>))))"

definition enqueue ::
  "approval_libs \<Rightarrow> ustring + nat list \<Rightarrow> odt \<Rightarrow> ustring \<Rightarrow> ustring \<Rightarrow> bool \<Rightarrow> ustring \<Rightarrow>
   approval_queue \<Rightarrow> (approval_error + ustring) \<times> approval_queue" where
  "enqueue A random now agent path write reason = enqueue_with_ttl A random now agent path write reason DEFAULT_TTL"

text \<open>The listing is ordered by creation, the latest first and texts that do not parse last, then by id.\<close>

definition pending_key :: "approval_libs \<Rightarrow> approval_entry \<Rightarrow> nat \<times> int \<times> ustring" where
  "pending_key A e =
     (case al_parse A (ar_created_at (ae_request e)) of
        Some x \<Rightarrow> (0, - tl_unix_nanos (al_time A) x, ae_id e)
      | None \<Rightarrow> (1, 0, ae_id e))"

definition pending_list ::
  "approval_libs \<Rightarrow> odt \<Rightarrow> approval_queue \<Rightarrow> (approval_error + approval_entry list) \<times> approval_queue" where
  "pending_list A now q =
     (if aq_poisoned q then (Inl (ApprovalMsg poisoned_text), q)
      else
        let es = expire A now (aq_entries q)
        in (Inr (sort_key (pending_key A) (filter (\<lambda>e. ae_status e = st_pending) (map snd es))), q\<lparr>aq_entries := es\<rparr>))"

definition decide ::
  "approval_libs \<Rightarrow> odt \<Rightarrow> odt \<Rightarrow> ustring \<Rightarrow> ustring \<Rightarrow> ustring \<Rightarrow>
   approval_queue \<Rightarrow> ((nat \<times> ustring) + approval_outcome) \<times> approval_queue" where
  "decide A now now' i status decided_by q =
     (if aq_poisoned q then (Inl (500, poisoned_text), q)
      else
        let es = expire A now (aq_entries q); q' = q\<lparr>aq_entries := es\<rparr>
        in (case map_of es i of
              None \<Rightarrow> (Inl (404, lit ''approval request not found''), q')
            | Some entry \<Rightarrow>
                if ae_status entry \<noteq> st_pending
                then (Inl (409, lit ''approval request '' @ i @ lit '' already '' @ ae_status entry), q')
                else (case approval_timestamp A now' of
                        Inl _ \<Rightarrow> (Inl (500, lit ''format approval decision time''), q')
                      | Inr decided_at \<Rightarrow>
                          (Inr \<lparr>ao_id = i, ao_status = status, ao_decided_at = decided_at, ao_decided_by = Some decided_by\<rparr>,
                           q\<lparr>aq_entries := bt_insert i
                               (entry\<lparr>ae_status := status, ae_decided_at := decided_at, ae_decided_by := Some decided_by\<rparr>) es\<rparr>))))"

definition message_of :: "((nat \<times> ustring) + approval_outcome) \<times> approval_queue \<Rightarrow> (ustring + approval_outcome) \<times> approval_queue" where
  "message_of = (\<lambda>(r, q). (case r of Inl (_, m) \<Rightarrow> Inl m | Inr out \<Rightarrow> Inr out, q))"

definition approve where "approve A now now' i by q = message_of (decide A now now' i st_approved by q)"
definition deny where "deny A now now' i by q = message_of (decide A now now' i st_denied by q)"

text \<open>One iteration of \<open>wait\<close>: the answer, or the expiry to wait for.\<close>

definition wait_check ::
  "approval_libs \<Rightarrow> ustring \<Rightarrow> odt \<Rightarrow> approval_queue \<Rightarrow> (ustring + (approval_outcome + odt)) \<times> approval_queue" where
  "wait_check A i now q =
     (let es = expire A now (aq_entries q); q' = q\<lparr>aq_entries := es\<rparr>
      in (case map_of es i of
            None \<Rightarrow> Inl (lit ''approval request not found'')
          | Some entry \<Rightarrow>
              if ae_status entry \<noteq> st_pending
              then Inr (Inl \<lparr>ao_id = ae_id entry, ao_status = ae_status entry, ao_decided_at = ae_decided_at entry,
                             ao_decided_by = ae_decided_by entry\<rparr>)
              else (case al_parse A (ar_expires_at (ae_request entry)) of
                      None \<Rightarrow> Inl (lit ''parse approval request expiry'')
                    | Some x \<Rightarrow> Inr (Inr x)), q'))"

text \<open>
  The loop: an iteration has two clock readings, and the queue it finds after the condition variable
  woke it. \<open>None\<close> means that the listed iterations did not end it.
\<close>

fun wait_loop ::
  "approval_libs \<Rightarrow> ustring \<Rightarrow> (odt \<times> odt \<times> approval_queue) list \<Rightarrow> approval_queue \<Rightarrow>
   ((ustring + approval_outcome) \<times> approval_queue) option" where
  "wait_loop A i [] q = None"
| "wait_loop A i ((now, now', found) # r) q =
     (case wait_check A i now q of
        (Inl m, q') \<Rightarrow> Some (Inl m, q')
      | (Inr (Inl out), q') \<Rightarrow> Some (Inr out, q')
      | (Inr (Inr x), q') \<Rightarrow>
          if tl_unix_nanos (al_time A) x \<le> tl_unix_nanos (al_time A) now' then wait_loop A i r q'
          else if aq_poisoned found then Some (Inl poisoned_text, found)
          else wait_loop A i r found)"

definition approval_wait ::
  "approval_libs \<Rightarrow> ustring \<Rightarrow> (odt \<times> odt \<times> approval_queue) list \<Rightarrow> approval_queue \<Rightarrow>
   ((ustring + approval_outcome) \<times> approval_queue) option" where
  "approval_wait A i steps q = (if aq_poisoned q then Some (Inl poisoned_text, q) else wait_loop A i steps q)"

text \<open>Enqueue and wait; \<open>found\<close> is the queue at the time \<open>wait\<close> takes the lock.\<close>

definition request_and_wait ::
  "approval_libs \<Rightarrow> ustring + nat list \<Rightarrow> odt \<Rightarrow> ustring \<Rightarrow> ustring \<Rightarrow> bool \<Rightarrow> ustring \<Rightarrow>
   (approval_queue \<Rightarrow> approval_queue) \<Rightarrow> (odt \<times> odt \<times> approval_queue) list \<Rightarrow> approval_queue \<Rightarrow>
   ((approval_error + approval_outcome) \<times> approval_queue) option" where
  "request_and_wait A random now agent path write reason found steps q =
     (case enqueue A random now agent path write reason q of
        (Inl e, q') \<Rightarrow> Some (Inl e, q')
      | (Inr i, q') \<Rightarrow>
          map_option (\<lambda>(r, p). (case r of Inl m \<Rightarrow> Inl (ApprovalMsg m) | Inr out \<Rightarrow> Inr out, p))
            (approval_wait A i steps (found q')))"

section \<open>Proof of possession\<close>

definition nibble :: "nat \<Rightarrow> nat option" where
  "nibble v =
     (if 48 \<le> v \<and> v \<le> 57 then Some (v - 48) else if 97 \<le> v \<and> v \<le> 102 then Some (v - 97 + 10) else None)"

fun unhex_bytes :: "nat list \<Rightarrow> nat list option" where
  "unhex_bytes (a # b # r) =
     (case (nibble a, nibble b) of
        (Some x, Some y) \<Rightarrow> map_option (Cons (x * 16 + y)) (unhex_bytes r)
      | _ \<Rightarrow> None)"
| "unhex_bytes _ = Some []"

definition unhex :: "ustring \<Rightarrow> nat list option" where
  "unhex v = unhex_bytes (as_bytes v)"

definition signed_text :: "odt \<Rightarrow> ustring" where
  "signed_text v =
     pad_int 4 (od_year v) @ ch_minus # pad 2 (od_month v) @ ch_minus # pad 2 (od_day v) @ 84 #
     pad 2 (od_hour v) @ ch_colon # pad 2 (od_minute v) @ ch_colon # pad 2 (od_second v) @ [90]"

definition verify_proof :: "approval_libs \<Rightarrow> odt \<Rightarrow> nat list \<Rightarrow> ustring \<Rightarrow> ustring \<Rightarrow> bool" where
  "verify_proof A now secret timestamp_header proof_header =
     (if secret = [] \<or> str_len proof_header \<noteq> 64 then False
      else (case map_option (tl_to_utc (al_time A)) (parse_go_rfc3339 (al_time A) timestamp_header) of
              None \<Rightarrow> False
            | Some parsed \<Rightarrow>
                if PROOF_WINDOW < \<bar>tl_unix_nanos (al_time A) now - tl_unix_nanos (al_time A) parsed\<bar> then False
                else (case unhex proof_header of
                        None \<Rightarrow> False
                      | Some prf \<Rightarrow> prf = al_hmac_sha256 A secret (as_bytes (signed_text parsed)))))"

section \<open>Requests\<close>

record approval_response =
  rs_status :: nat
  rs_content_type :: ustring
  rs_body :: "nat list"

definition response_json :: "nat \<Rightarrow> nat list \<Rightarrow> approval_response" where
  "response_json status body = \<lparr>rs_status = status, rs_content_type = lit ''application/json'', rs_body = body\<rparr>"

definition response_not_found :: approval_response where
  "response_not_found = \<lparr>rs_status = 404, rs_content_type = lit ''text/plain; charset=utf-8'', rs_body = lit ''404 page not found'' @ [10]\<rparr>"

definition strip_query :: "ustring \<Rightarrow> ustring" where
  "strip_query path = (case split_once ch_question path of Some (p, _) \<Rightarrow> p | None \<Rightarrow> path)"

definition is_local_route :: "ustring \<Rightarrow> bool" where
  "is_local_route path \<longleftrightarrow>
     (let p = strip_query path in p = LOCAL_APPROVALS \<or> starts_with LOCAL_APPROVAL_ACTION p)"

definition is_device_route :: "ustring \<Rightarrow> bool" where
  "is_device_route path \<longleftrightarrow>
     (let p = strip_query path in p = DEVICE_APPROVALS \<or> starts_with DEVICE_APPROVAL_ACTION p)"

definition strip_or :: "ustring \<Rightarrow> ustring \<Rightarrow> ustring" where
  "strip_or suffix s = (case strip_suffix suffix s of Some t \<Rightarrow> t | None \<Rightarrow> s)"

definition decision_response ::
  "approval_libs \<Rightarrow> ((nat \<times> ustring) + approval_outcome) \<times> approval_queue \<Rightarrow> approval_response \<times> approval_queue" where
  "decision_response A = (\<lambda>(r, q).
     (case r of Inr out \<Rightarrow> response_json 200 (al_outcome_json A out) | Inl (s, m) \<Rightarrow> response_json s (al_error_json A m), q))"

definition listing_response ::
  "approval_libs \<Rightarrow> (approval_error + approval_entry list) \<times> approval_queue \<Rightarrow> approval_response \<times> approval_queue" where
  "listing_response A = (\<lambda>(r, q).
     (case r of Inr l \<Rightarrow> response_json 200 (al_requests_json A l)
      | Inl _ \<Rightarrow> response_json 500 (al_error_json A (lit ''approval queue unavailable'')), q))"

definition local_decision :: "approval_libs \<Rightarrow> odt \<Rightarrow> odt \<Rightarrow> ustring \<Rightarrow> approval_queue \<Rightarrow> approval_response \<times> approval_queue" where
  "local_decision A now now' path q =
     (let action = (case strip_prefix LOCAL_APPROVAL_ACTION path of Some a \<Rightarrow> a | None \<Rightarrow> []);
          go = (\<lambda>i decision. let i = strip_or [ch_slash] i
                  in if i = [] then (response_json 404 (al_error_json A (lit ''approval request not found'')), q)
                     else decision_response A (decide A now now' i decision (lit ''local-cli'') q))
      in case strip_suffix (lit ''/approve'') action of
           Some i \<Rightarrow> go i st_approved
         | None \<Rightarrow>
             (case strip_suffix (lit ''/deny'') action of
                Some i \<Rightarrow> go i st_denied
              | None \<Rightarrow> (response_json 404 (al_error_json A (lit ''unknown approval action'')), q)))"

definition handle_local_request ::
  "approval_libs \<Rightarrow> odt \<Rightarrow> odt \<Rightarrow> odt \<Rightarrow> nat list \<Rightarrow> bool \<Rightarrow> ustring \<Rightarrow> ustring \<Rightarrow> ustring \<Rightarrow> ustring \<Rightarrow>
   approval_queue \<Rightarrow> (approval_response option) \<times> approval_queue" where
  "handle_local_request A t0 t1 t2 secret loopback method path0 timestamp_header proof_header q =
     (let path = strip_query path0
      in if path \<noteq> LOCAL_APPROVALS \<and> \<not> starts_with LOCAL_APPROVAL_ACTION path then (None, q)
         else if \<not> (method = lit ''GET'' \<and> path = LOCAL_APPROVALS) \<and> \<not> (method = lit ''POST'' \<and> path \<noteq> LOCAL_APPROVALS)
         then (Some response_not_found, q)
         else if \<not> loopback
         then (Some (response_json 403 (al_error_json A (lit ''local approval API requires a loopback connection''))), q)
         else if \<not> verify_proof A t0 secret timestamp_header proof_header
         then (Some (response_json 401 (al_error_json A (lit ''missing or invalid proof of vault-directory ownership''))), q)
         else (let (r, q') = (if path = LOCAL_APPROVALS then listing_response A (pending_list A t1 q)
                              else local_decision A t1 t2 path q)
               in (Some r, q')))"

definition device_from_authorization ::
  "device_libs \<Rightarrow> 'f device_io \<Rightarrow> odt \<Rightarrow> ustring \<Rightarrow> device_store \<times> 'f \<Rightarrow> ustring option \<times> device_store \<times> 'f" where
  "device_from_authorization L io now authorization S =
     (case strip_prefix (lit ''Bearer '') authorization of
        None \<Rightarrow> (None, S)
      | Some token \<Rightarrow>
          if token = [] then (None, S)
          else (let (r, S') = dev_validate L io now token S
                in (case r of Inr (Some d) \<Rightarrow> if d = [] then None else Some d | _ \<Rightarrow> None, S')))"

definition device_decision ::
  "approval_libs \<Rightarrow> odt \<Rightarrow> odt \<Rightarrow> ustring \<Rightarrow> ustring \<Rightarrow> approval_queue \<Rightarrow> approval_response \<times> approval_queue" where
  "device_decision A now now' device_id path q =
     (let i = strip_or [ch_slash] (case strip_prefix DEVICE_APPROVAL_ACTION path of Some a \<Rightarrow> a | None \<Rightarrow> [])
      in if i = [] then (response_json 400 (al_error_json A (lit ''missing approval request id'')), q)
         else (case strip_suffix (lit ''/approve'') i of
                 Some base \<Rightarrow> decision_response A (decide A now now' base st_approved device_id q)
               | None \<Rightarrow>
                   (case strip_suffix (lit ''/deny'') i of
                      Some base \<Rightarrow> decision_response A (decide A now now' base st_denied device_id q)
                    | None \<Rightarrow> (response_json 404 (al_error_json A (lit ''unknown approval action'')), q))))"

definition handle_device_request ::
  "approval_libs \<Rightarrow> device_libs \<Rightarrow> 'f device_io \<Rightarrow> odt \<Rightarrow> odt \<Rightarrow> odt \<Rightarrow> ustring \<Rightarrow> ustring \<Rightarrow> ustring \<Rightarrow>
   approval_queue \<Rightarrow> device_store \<times> 'f \<Rightarrow> (approval_response option) \<times> approval_queue \<times> device_store \<times> 'f" where
  "handle_device_request A L io t0 t1 t2 method path0 authorization q S =
     (let path = strip_query path0;
          list = (method = lit ''GET'' \<and> path = DEVICE_APPROVALS);
          deciding = (method = lit ''POST'' \<and> starts_with DEVICE_APPROVAL_ACTION path)
      in if \<not> list \<and> \<not> deciding then (None, q, S)
         else (case device_from_authorization L io t0 authorization S of
                 (None, S') \<Rightarrow> (Some (response_json 401 (al_error_json A DEVICE_UNAUTHORIZED)), q, S')
               | (Some device_id, S') \<Rightarrow>
                   (let (r, q') = (if list then listing_response A (pending_list A t1 q)
                                   else device_decision A t1 t2 device_id path q)
                    in (Some r, q', S'))))"

section \<open>Entries over time\<close>

lemma statuses [simp]:
  "st_expired \<noteq> st_pending" "st_approved \<noteq> st_pending" "st_denied \<noteq> st_pending" "st_approved \<noteq> st_expired" "st_denied \<noteq> st_expired"
  by (simp_all add: st_expired_def st_pending_def st_approved_def st_denied_def)

lemmas statuses_sym [simp] = statuses [symmetric]

lemma map_of_expire: "map_of (expire A now es) i = map_option (expire_entry A now) (map_of es i)"
  unfolding expire_def by (induction es) auto

lemma bt_inv_expire [simp]: "bt_inv (expire A now es) \<longleftrightarrow> bt_inv es"
  unfolding expire_def by (rule bt_inv_map_val)

lemma expire_entry_simps [simp]:
  "ae_request (expire_entry A now e) = ae_request e" "ae_id (expire_entry A now e) = ae_id e"
  "ae_status e \<noteq> st_pending \<Longrightarrow> expire_entry A now e = e"
  by (simp_all add: expire_entry_def)

text \<open>An entry keeps its request, and everything once it is no longer pending.\<close>

definition entry_follows :: "approval_entry \<Rightarrow> approval_entry \<Rightarrow> bool" where
  "entry_follows e e' \<longleftrightarrow> ae_request e' = ae_request e \<and> ae_id e' = ae_id e \<and> (ae_status e \<noteq> st_pending \<longrightarrow> e' = e)"

lemma entry_follows_refl [simp]: "entry_follows e e"
  by (simp add: entry_follows_def)

lemma entry_follows_trans: "entry_follows e f \<Longrightarrow> entry_follows f g \<Longrightarrow> entry_follows e g"
  by (auto simp: entry_follows_def)

lemma entry_follows_expire [simp]: "entry_follows e (expire_entry A now e)"
  by (simp add: entry_follows_def expire_entry_def)

definition queue_follows :: "approval_queue \<Rightarrow> approval_queue \<Rightarrow> bool" where
  "queue_follows q q' \<longleftrightarrow> (\<forall>i e. map_of (aq_entries q) i = Some e \<longrightarrow> (\<exists>e'. map_of (aq_entries q') i = Some e' \<and> entry_follows e e'))"

inductive approval_step :: "approval_libs \<Rightarrow> approval_queue \<Rightarrow> approval_queue \<Rightarrow> bool" for A where
  enq: "\<forall>i. fst (enqueue_with_ttl A rnd now agent path w reason ttl q) = Inr i \<longrightarrow> map_of (aq_entries q) i = None \<Longrightarrow>
    approval_step A q (snd (enqueue_with_ttl A rnd now agent path w reason ttl q))"
| lst: "approval_step A q (snd (pending_list A now q))"
| dec: "status = st_approved \<or> status = st_denied \<Longrightarrow> approval_step A q (snd (decide A now now' i status by q))"
| wai: "approval_step A q (snd (wait_check A i now q))"

inductive_cases approval_stepE: "approval_step A q q'"

lemma enqueue_shape:
  "enqueue_with_ttl A rnd now agent path w reason ttl q = (r, q') \<Longrightarrow>
     q' = q \<and> (\<forall>i. r \<noteq> Inr i) \<or>
     (\<exists>i c x. r = Inr i \<and> q' = q\<lparr>aq_entries := bt_insert i (new_entry i agent path w reason c x) (aq_entries q)\<rparr>)"
  by (auto simp: enqueue_with_ttl_def Let_def split: sum.splits option.splits if_splits) blast+

lemma decide_shape:
  "(\<exists>m. decide A now now' i status by q = (Inl m, q)) \<and> aq_poisoned q \<or>
   (\<exists>m. decide A now now' i status by q = (Inl m, q\<lparr>aq_entries := expire A now (aq_entries q)\<rparr>)) \<or>
   (\<exists>e t. \<not> aq_poisoned q \<and> map_of (aq_entries q) i = Some e \<and> ae_status e = st_pending \<and> expire_entry A now e = e \<and>
      decide A now now' i status by q =
        (Inr \<lparr>ao_id = i, ao_status = status, ao_decided_at = t, ao_decided_by = Some by\<rparr>,
         q\<lparr>aq_entries := bt_insert i (e\<lparr>ae_status := status, ae_decided_at := t, ae_decided_by := Some by\<rparr>)
             (expire A now (aq_entries q))\<rparr>))"
proof (cases "aq_poisoned q")
  case False
  show ?thesis
  proof (cases "map_of (expire A now (aq_entries q)) i")
    case None
    with False show ?thesis by (simp add: decide_def Let_def)
  next
    case (Some e')
    then obtain e where e: "map_of (aq_entries q) i = Some e" "e' = expire_entry A now e" by (auto simp: map_of_expire)
    have p: "ae_status e' = st_pending \<Longrightarrow> ae_status e = st_pending \<and> e' = e"
      unfolding e(2) by (auto simp: expire_entry_def split: if_splits)
    show ?thesis
    proof (cases "ae_status e' = st_pending")
      case True
      then have "map_of (expire A now (aq_entries q)) i = Some e" "ae_status e = st_pending" and eq: "expire_entry A now e = e"
        using p [OF True] Some e(2) by (simp_all only:)
      then have "decide A now now' i status by q =
          (case approval_timestamp A now' of
             Inl _ \<Rightarrow> (Inl (500, lit ''format approval decision time''), q\<lparr>aq_entries := expire A now (aq_entries q)\<rparr>)
           | Inr t \<Rightarrow> (Inr \<lparr>ao_id = i, ao_status = status, ao_decided_at = t, ao_decided_by = Some by\<rparr>,
               q\<lparr>aq_entries := bt_insert i (e\<lparr>ae_status := status, ae_decided_at := t, ae_decided_by := Some by\<rparr>)
                 (expire A now (aq_entries q))\<rparr>))"
        using False unfolding decide_def Let_def by simp
      with False e(1) eq \<open>ae_status e = st_pending\<close> show ?thesis
        by (cases "approval_timestamp A now'"; simp only: sum.case; blast)
    next
      case ne: False
      with False Some show ?thesis by (simp add: decide_def Let_def)
    qed
  qed
qed (simp add: decide_def)

lemma queue_follows_expire [simp]: "queue_follows q (q\<lparr>aq_entries := expire A now (aq_entries q)\<rparr>)"
  by (simp add: queue_follows_def map_of_expire)

lemma queue_follows_refl [simp]: "queue_follows q q"
  by (simp add: queue_follows_def)

lemma queue_follows_trans: "queue_follows p q \<Longrightarrow> queue_follows q r \<Longrightarrow> queue_follows p r"
  unfolding queue_follows_def by (meson entry_follows_trans)

lemma queue_follows_insert:
  assumes "bt_inv es" "\<And>i e. map_of (aq_entries q) i = Some e \<Longrightarrow> \<exists>e'. map_of es i = Some e' \<and> entry_follows e e'"
    and "\<And>e. map_of (aq_entries q) k = Some e \<Longrightarrow> entry_follows e v"
  shows "queue_follows q (q\<lparr>aq_entries := bt_insert k v es\<rparr>)"
  using assms by (auto simp: queue_follows_def bt_lookup_insert)

lemma step_follows:
  assumes "bt_inv (aq_entries q)" "approval_step A q q'"
  shows "bt_inv (aq_entries q') \<and> queue_follows q q'"
  using assms(2)
proof cases
  case (enq rnd now agent path w reason ttl)
  obtain r q2 where eq: "enqueue_with_ttl A rnd now agent path w reason ttl q = (r, q2)"
    by (cases "enqueue_with_ttl A rnd now agent path w reason ttl q")
  then show ?thesis using enqueue_shape [OF eq] enq assms(1)
    by (auto simp: bt_inv_insert intro!: queue_follows_insert)
next
  case (lst now)
  then show ?thesis using assms(1) by (simp add: pending_list_def Let_def)
next
  case (dec status now now' i "by")
  from decide_shape [of A now now' i status "by" q] show ?thesis
    using dec assms(1)
    by (elim disjE exE conjE) (auto simp: bt_inv_insert map_of_expire entry_follows_def intro!: queue_follows_insert)
next
  case (wai i now)
  then show ?thesis using assms(1) by (simp add: wait_check_def Let_def)
qed

lemma run_follows:
  assumes "(approval_step A)\<^sup>*\<^sup>* q q'" "bt_inv (aq_entries q)"
  shows "bt_inv (aq_entries q') \<and> queue_follows q q'"
  using assms
proof (induction rule: rtranclp_induct)
  case (step y z)
  then show ?case using step_follows [of y A z] queue_follows_trans by blast
qed simp

lemma decide_refused:
  assumes "map_of (aq_entries q) i = Some e" "ae_status e \<noteq> st_pending" "\<not> aq_poisoned q"
  shows "fst (decide A now now' i status by q) = Inl (409, lit ''approval request '' @ i @ lit '' already '' @ ae_status e)"
proof -
  have "expire_entry A now e = e" using assms(2) by (simp add: expire_entry_def)
  with assms show ?thesis by (simp add: decide_def Let_def map_of_expire)
qed


section \<open>Waiting\<close>

lemma wait_check_due:
  assumes "map_of (aq_entries q) i = Some e" "al_parse A (ar_expires_at (ae_request e)) = Some x"
    "tl_unix_nanos (al_time A) x < tl_unix_nanos (al_time A) now"
  shows "\<exists>out q'. wait_check A i now q = (Inr (Inl out), q')"
proof -
  have "ae_status (expire_entry A now e) \<noteq> st_pending" using assms(2,3) by (auto simp: expire_entry_def)
  with assms(1) show ?thesis by (simp add: wait_check_def Let_def map_of_expire)
qed

text \<open>
  A waiting call ends with an outcome or an error as soon as one iteration runs after the expiry,
  provided that the queues it finds still hold the request.
\<close>

lemma wait_loop_returns:
  assumes "\<exists>(now, now', found) \<in> set steps. tl_unix_nanos (al_time A) x < tl_unix_nanos (al_time A) now"
    and "\<forall>p \<in> insert q ((\<lambda>(_, _, found). found) ` set steps). \<exists>e. map_of (aq_entries p) i = Some e \<and>
      al_parse A (ar_expires_at (ae_request e)) = Some x"
  shows "\<exists>r. wait_loop A i steps q = Some r"
  using assms
proof (induction steps arbitrary: q)
  case (Cons s steps)
  obtain now now' found where s: "s = (now, now', found)" by (cases s)
  obtain e where e: "map_of (aq_entries q) i = Some e" "al_parse A (ar_expires_at (ae_request e)) = Some x"
    using Cons.prems(2) by auto
  show ?case
  proof (cases "tl_unix_nanos (al_time A) x < tl_unix_nanos (al_time A) now")
    case True
    then show ?thesis using wait_check_due [OF e True] by (auto simp: s)
  next
    case False
    obtain r q' where w: "wait_check A i now q = (r, q')" by (cases "wait_check A i now q")
    have q': "q' = q\<lparr>aq_entries := expire A now (aq_entries q)\<rparr>" using w by (simp add: wait_check_def Let_def)
    have "ae_request (expire_entry A now e) = ae_request e" by (simp add: expire_entry_def)
    then have "\<exists>e. map_of (aq_entries q') i = Some e \<and> al_parse A (ar_expires_at (ae_request e)) = Some x"
      using e by (simp add: q' map_of_expire)
    moreover have "\<exists>e. map_of (aq_entries found) i = Some e \<and> al_parse A (ar_expires_at (ae_request e)) = Some x"
      using Cons.prems(2) by (simp add: s)
    moreover have "\<exists>(now, now', found) \<in> set steps. tl_unix_nanos (al_time A) x < tl_unix_nanos (al_time A) now"
      using Cons.prems(1) False by (auto simp: s)
    moreover have "\<forall>p \<in> (\<lambda>(_, _, found). found) ` set steps. \<exists>e. map_of (aq_entries p) i = Some e \<and>
        al_parse A (ar_expires_at (ae_request e)) = Some x" using Cons.prems(2) by simp
    ultimately have "\<exists>r. wait_loop A i steps q' = Some r" "\<exists>r. wait_loop A i steps found = Some r"
      by (metis (no_types, lifting) Cons.IH insert_iff)+
    then show ?thesis by (auto simp: s w split: sum.splits)
  qed
qed simp

section \<open>Who decides\<close>

text \<open>A request that was pending is approved or denied in the later queue.\<close>

definition newly_decided :: "approval_queue \<Rightarrow> approval_queue \<Rightarrow> ustring \<Rightarrow> approval_entry \<Rightarrow> bool" where
  "newly_decided q q' i e' \<longleftrightarrow>
     (\<exists>e. map_of (aq_entries q) i = Some e \<and> ae_status e = st_pending) \<and> map_of (aq_entries q') i = Some e' \<and>
     (ae_status e' = st_approved \<or> ae_status e' = st_denied)"

lemma not_newly_expire: "\<not> newly_decided q (q\<lparr>aq_entries := expire A now (aq_entries q)\<rparr>) i e'"
  by (auto simp: newly_decided_def map_of_expire expire_entry_def)

lemma not_newly_same: "\<not> newly_decided q q i e'"
  by (auto simp: newly_decided_def)

lemma newly_decide:
  assumes "bt_inv (aq_entries q)" "newly_decided q (snd (decide A now now' k status by q)) i e'"
  shows "i = k \<and> ae_decided_by e' = Some by"
  using decide_shape [of A now now' k status "by" q]
proof (elim disjE exE conjE)
  fix e t assume "decide A now now' k status by q =
        (Inr \<lparr>ao_id = k, ao_status = status, ao_decided_at = t, ao_decided_by = Some by\<rparr>,
         q\<lparr>aq_entries := bt_insert k (e\<lparr>ae_status := status, ae_decided_at := t, ae_decided_by := Some by\<rparr>)
             (expire A now (aq_entries q))\<rparr>)"
  with assms show ?thesis
    by (auto simp: newly_decided_def bt_lookup_insert map_of_expire expire_entry_def split: if_splits)
qed (use assms in \<open>simp_all add: not_newly_same not_newly_expire\<close>)

lemma snd_listing: "snd (listing_response A r) = snd r" and snd_decision: "snd (decision_response A r') = snd r'"
  by (simp_all add: listing_response_def decision_response_def split_beta)

lemma not_newly_pending: "\<not> newly_decided q (snd (pending_list A now q)) i e'"
  by (simp add: pending_list_def Let_def not_newly_same not_newly_expire)

lemma newly_local:
  assumes "bt_inv (aq_entries q)" "newly_decided q (snd (local_decision A now now' path q)) i e'"
  shows "ae_decided_by e' = Some (lit ''local-cli'')"
proof -
  have "newly_decided q (snd (if strip_or [ch_slash] k = [] then (r, q) else decision_response A (decide A now now' (strip_or [ch_slash] k) status (lit ''local-cli'') q))) i e' \<Longrightarrow>
      ae_decided_by e' = Some (lit ''local-cli'')" for k r status
    using newly_decide [OF assms(1)] by (auto simp: snd_decision not_newly_same split: if_splits)
  with assms(2) show ?thesis
    unfolding local_decision_def Let_def by (auto simp: not_newly_same simp del: lit_simps split: option.splits)
qed

lemma newly_device:
  assumes "bt_inv (aq_entries q)" "newly_decided q (snd (device_decision A now now' d path q)) i e'"
  shows "ae_decided_by e' = Some d"
  using assms(2) newly_decide [OF assms(1)]
  unfolding device_decision_def Let_def by (auto simp: snd_decision not_newly_same simp del: lit_simps split: option.splits if_splits)

lemma handle_local_newly:
  assumes "bt_inv (aq_entries q)"
    "newly_decided q (snd (handle_local_request A t0 t1 t2 secret loopback method path ts prf q)) i e'"
  shows "loopback \<and> verify_proof A t0 secret ts prf \<and> ae_decided_by e' = Some (lit ''local-cli'')"
  using assms(2) newly_local [OF assms(1)]
  unfolding handle_local_request_def Let_def
  by (auto simp: not_newly_same not_newly_pending snd_listing split_beta simp del: lit_simps split: if_splits)

lemma handle_device_newly:
  assumes "bt_inv (aq_entries q)"
    "newly_decided q (fst (snd (handle_device_request A L io t0 t1 t2 method path auth q S))) i e'"
  shows "\<exists>token d. auth = lit ''Bearer '' @ token \<and> fst (dev_validate L io t0 token S) = Inr (Some d) \<and> d \<noteq> [] \<and>
    ae_decided_by e' = Some d"
proof -
  obtain a S' where a: "device_from_authorization L io t0 auth S = (a, S')" by (cases "device_from_authorization L io t0 auth S")
  obtain d where d: "a = Some d"
    using assms(2) unfolding handle_device_request_def Let_def a
    by (cases a) (auto simp: not_newly_same simp del: lit_simps split: if_splits)
  obtain token where t: "strip_prefix (lit ''Bearer '') auth = Some token" "fst (dev_validate L io t0 token S) = Inr (Some d)" "d \<noteq> []"
    using a d unfolding device_from_authorization_def
    by (auto simp del: lit_simps simp: split_beta split: option.splits sum.splits if_splits)
  have "ae_decided_by e' = Some d"
    using assms(2) newly_device [OF assms(1)] unfolding handle_device_request_def Let_def a d
    by (auto simp: not_newly_same not_newly_pending snd_listing split_beta simp del: lit_simps split: if_splits)
  moreover have "auth = lit ''Bearer '' @ token" using t(1) by (simp only: strip_prefix_Some_iff)
  ultimately show ?thesis using t by blast
qed

section \<open>Witness\<close>

definition demo_approval :: approval_libs where
  "demo_approval = \<lparr>al_format = (\<lambda>v. Inr (stamp_of v)), al_parse = parse_go_rfc3339 utc_calendar, al_time = utc_calendar,
     al_error_json = as_bytes, al_requests_json = (\<lambda>l. concat (map (as_bytes \<circ> ae_id) l)), al_outcome_json = (\<lambda>r. as_bytes (ao_id r)),
     al_hmac_sha256 = (\<lambda>k m. take 32 (k @ m))\<rparr>"

definition demo_entry :: approval_entry where
  "demo_entry = new_entry [49] [97] [112] True [] (stamp_of epoch) (stamp_of epoch_end)"

definition demo_queue :: approval_queue where
  "demo_queue = \<lparr>aq_entries = [([49], demo_entry)], aq_poisoned = False\<rparr>"

lemma demo_decide:
  "decide demo_approval epoch epoch [49] st_approved [100] demo_queue =
    (Inr \<lparr>ao_id = [49], ao_status = st_approved, ao_decided_at = stamp_of epoch, ao_decided_by = Some [100]\<rparr>,
     demo_queue\<lparr>aq_entries := [([49], demo_entry\<lparr>ae_status := st_approved, ae_decided_at := stamp_of epoch, ae_decided_by := Some [100]\<rparr>)]\<rparr>)"
  by (simp add: decide_def demo_queue_def expire_def expire_entry_def demo_entry_def new_entry_def demo_approval_def
      epoch_stamps epoch_nanos approval_timestamp_def)


end
