(* ===== verification/Audit_Log.thy ===== *)
theory Audit_Log
  imports Session Ordered_Map Byte_Text "HOL-Library.AList"
begin

text \<open>
  \<^verbatim>\<open>symvault-store/src/audit.rs\<close>: the keyed audit chain, its keys, its log files and their export.

  The directory that holds the logs and key files is an association list from file names to
  contents and modification times. Every call into the operating system names a site; an argument
  of each operation, the record \<open>io_env\<close>, says which sites fail, how many bytes a failing write has
  written, what the clock and the random source give and in which order a directory is listed.
  The backup gate of another module is such a site too. HMAC-SHA256, SHA-256 and the JSON encoding
  of an entry are the record \<open>audit_libs\<close>. Where the source panics the result is \<open>Inl ()\<close> or \<open>IoPanic\<close>.
\<close>

section \<open>Entries, keys and environment\<close>

record log_entry =
  en_timestamp :: ustring
  en_agent :: ustring
  en_action :: ustring
  en_path :: ustring
  en_field :: ustring
  en_transport :: ustring
  en_reason :: ustring
  en_share_id :: ustring
  en_from_agent :: ustring
  en_to_agent :: ustring
  en_share_action :: ustring
  en_dur_ms :: int
  en_token_id :: ustring
  en_request_id :: ustring
  en_session_id :: ustring
  en_kid :: ustring
  en_hmac :: ustring
  en_argv_hash :: ustring
  en_ok :: bool

record verify_result =
  vr_valid :: bool
  vr_total :: nat
  vr_verified :: nat
  vr_legacy :: nat
  vr_tampered :: nat
  vr_unverifiable :: nat
  vr_first_bad_idx :: int

datatype io_kind = InvalidInput | InvalidData | FileNotFound | AlreadyExists | OtherKind

datatype io_error = IoError io_kind ustring | IoPanic ustring

type_synonym audit_key = "nat list"

record audit_libs =
  al_hmac_sha256 :: "nat list \<Rightarrow> nat list \<Rightarrow> nat list"
  al_sha256 :: "nat list \<Rightarrow> nat list"
  al_to_json :: "log_entry \<Rightarrow> nat list option"
  al_of_json :: "ustring \<Rightarrow> log_entry option"

record afile =
  af_data :: "nat list"
  af_mtime :: int

type_synonym adir = "(ustring \<times> afile) list"

datatype io_site =
    CreateDir | OpenLog | ReadLog | StatAge | StatSize | StatLen | Gate | SyncAll | RenameLog | ReopenLog
  | ReadDir | StatItem | WriteEntry | WriteNewline | SyncData | RemoveFile
  | ReadKey | CreateKey | WriteKey | SyncKey | KeyMode | RenameKey | RestoreKey | ArchiveKey | ReadArchive
  | ReadExport

datatype clock_site = ClockAge | ClockRotate | ClockRetain | ClockWrite

record io_env =
  io_fault :: "io_site \<Rightarrow> ustring option"
  io_torn :: nat
  io_now :: "clock_site \<Rightarrow> int"
  io_random :: "ustring + nat list"
  io_order :: "adir \<Rightarrow> adir"

definition HMAC_KEY_BYTES :: nat where "HMAC_KEY_BYTES = 32"
definition KEY_FILE :: ustring where "KEY_FILE = lit ''audit-hmac-key''"
definition LOG_PREFIX :: ustring where "LOG_PREFIX = lit ''audit-''"
definition LOG_SUFFIX :: ustring where "LOG_SUFFIX = lit ''.log''"
definition ROTATED_MARKER :: ustring where "ROTATED_MARKER = lit ''.rotated.''"

definition io_other :: "ustring \<Rightarrow> io_error" where
  "io_other m = IoError OtherKind m"

definition io_try :: "io_env \<Rightarrow> io_site \<Rightarrow> io_error + unit" where
  "io_try E site = (case io_fault E site of None \<Rightarrow> Inr () | Some m \<Rightarrow> Inl (io_other m))"

definition fs_read :: "io_env \<Rightarrow> io_site \<Rightarrow> ustring \<Rightarrow> adir \<Rightarrow> io_error + nat list" where
  "fs_read E site name d =
     (case map_of d name of
        None \<Rightarrow> Inl (IoError FileNotFound (lit ''entity not found''))
      | Some f \<Rightarrow> res_bind (io_try E site) (\<lambda>_. Inr (af_data f)))"

definition fs_rename :: "ustring \<Rightarrow> ustring \<Rightarrow> adir \<Rightarrow> adir" where
  "fs_rename a b d = (case map_of d a of None \<Rightarrow> d | Some f \<Rightarrow> AList.update b f (AList.delete a d))"

definition fs_write :: "int \<Rightarrow> ustring \<Rightarrow> nat list \<Rightarrow> adir \<Rightarrow> adir" where
  "fs_write now name b d = AList.update name \<lparr>af_data = b, af_mtime = now\<rparr> d"

section \<open>Keys and the chain\<close>

definition audit_key_new :: "nat list \<Rightarrow> io_error + audit_key" where
  "audit_key_new b =
     (if length b \<noteq> HMAC_KEY_BYTES
      then Inl (IoError InvalidInput (lit ''HMAC key must be exactly 32 bytes'')) else Inr b)"

definition key_fingerprint :: "audit_libs \<Rightarrow> nat list \<Rightarrow> ustring" where
  "key_fingerprint L key = encode_hex (take 4 (al_sha256 L key))"

definition canonical_json :: "audit_libs \<Rightarrow> log_entry \<Rightarrow> nat list" where
  "canonical_json L e = (case al_to_json L (e\<lparr>en_hmac := []\<rparr>) of None \<Rightarrow> [] | Some b \<Rightarrow> b)"

definition compute_hmac :: "audit_libs \<Rightarrow> nat list \<Rightarrow> nat list \<Rightarrow> log_entry \<Rightarrow> ustring" where
  "compute_hmac L key prev e = encode_hex (al_hmac_sha256 L key (prev @ canonical_json L e))"

text \<open>
  \<open>BufRead::lines\<close>: a terminated line loses its newline and one carriage return before it, an
  unterminated last line is kept as it is. The iteration stops at a line that is not UTF-8.
\<close>

definition strip_cr :: "nat list \<Rightarrow> nat list" where
  "strip_cr l = (if l \<noteq> [] \<and> last l = 13 then butlast l else l)"

definition byte_lines :: "nat list \<Rightarrow> nat list list" where
  "byte_lines data =
     (let ls = split_on 10 data
      in map strip_cr (butlast ls) @ (if last ls = [] then [] else [last ls]))"

definition entry_of_line :: "audit_libs \<Rightarrow> ustring \<Rightarrow> log_entry option" where
  "entry_of_line L l = (let t = trim l in if t = [] then None else al_of_json L t)"

fun entries_of_lines :: "audit_libs \<Rightarrow> nat list list \<Rightarrow> log_entry list" where
  "entries_of_lines L [] = []"
| "entries_of_lines L (l # ls) =
     (case utf8_decode l of
        None \<Rightarrow> []
      | Some t \<Rightarrow> (case entry_of_line L t of None \<Rightarrow> [] | Some e \<Rightarrow> [e]) @ entries_of_lines L ls)"

definition parse_entries :: "audit_libs \<Rightarrow> nat list \<Rightarrow> log_entry list" where
  "parse_entries L data = entries_of_lines L (byte_lines data)"

text \<open>
  \<open>hex_decode\<close> slices the text two bytes at a time; a slice that ends inside a character panics.
  \<open>u8::from_str_radix\<close> accepts a leading plus sign.
\<close>

definition radix16 :: "uchar \<Rightarrow> uchar \<Rightarrow> nat option" where
  "radix16 c d =
     (if c = ch_plus then hex_value d
      else (case (hex_value c, hex_value d) of (Some h, Some l) \<Rightarrow> Some (h * 16 + l) | _ \<Rightarrow> None))"

fun hex_pairs :: "ustring \<Rightarrow> unit + nat list option" where
  "hex_pairs [] = Inr (Some [])"
| "hex_pairs (c # s) =
     (if utf8_width c = 2 then Inr None
      else if utf8_width c \<noteq> 1 then Inl ()
      else (case s of
              [] \<Rightarrow> Inl ()
            | d # r \<Rightarrow>
                if utf8_width d \<noteq> 1 then Inl ()
                else (case radix16 c d of
                        None \<Rightarrow> Inr None
                      | Some b \<Rightarrow> res_bind (hex_pairs r) (\<lambda>v. Inr (map_option (Cons b) v)))))"

definition hex_decode :: "ustring \<Rightarrow> unit + nat list option" where
  "hex_decode v = (if odd (str_len v) then Inr None else hex_pairs v)"

definition decode_computed :: "ustring \<Rightarrow> unit + nat list" where
  "decode_computed t = (case hex_decode t of Inr (Some b) \<Rightarrow> Inr b | _ \<Rightarrow> Inl ())"

type_synonym key_map = "(ustring \<times> audit_key) list"

definition trial_order :: "key_map \<Rightarrow> ustring \<Rightarrow> ustring list" where
  "trial_order keys current_kid =
     (if map_of keys current_kid \<noteq> None then [current_kid] else []) @
     filter (\<lambda>kid. kid \<noteq> current_kid) (map fst keys)"

section \<open>Verification\<close>

definition status_tampered :: ustring where "status_tampered = lit ''tampered''"
definition status_legacy :: ustring where "status_legacy = lit ''legacy''"
definition status_verified :: ustring where "status_verified = lit ''verified''"
definition status_unverifiable :: ustring where "status_unverifiable = lit ''unverifiable''"

definition mac_matches :: "nat list \<Rightarrow> nat list \<Rightarrow> bool" where
  "mac_matches expected stored \<longleftrightarrow>
     length expected = length stored \<and> byte_difference expected stored = 0"

fun try_keys ::
  "audit_libs \<Rightarrow> key_map \<Rightarrow> nat list \<Rightarrow> log_entry \<Rightarrow> nat list \<Rightarrow> ustring list \<Rightarrow> unit + bool \<times> bool" where
  "try_keys L keys prev e stored [] = Inr (False, False)"
| "try_keys L keys prev e stored (kid # kids) =
     (case map_of keys kid of
        None \<Rightarrow> Inl ()
      | Some key \<Rightarrow>
          res_bind (decode_computed (compute_hmac L key prev e)) (\<lambda>expected.
            if mac_matches expected stored then Inr (True, True)
            else try_keys L keys prev e stored kids))"

definition match_entry ::
  "audit_libs \<Rightarrow> key_map \<Rightarrow> ustring list \<Rightarrow> nat list \<Rightarrow> log_entry \<Rightarrow> nat list \<Rightarrow> unit + bool \<times> bool" where
  "match_entry L keys order prev e stored =
     (if en_kid e \<noteq> [] then
        (case map_of keys (en_kid e) of
           None \<Rightarrow> Inr (False, False)
         | Some key \<Rightarrow>
             res_bind (decode_computed (compute_hmac L key prev e))
               (\<lambda>expected. Inr (mac_matches expected stored, True)))
      else try_keys L keys prev e stored order)"

record verify_state =
  vs_result :: verify_result
  vs_statuses :: "ustring list"
  vs_previous :: "nat list"
  vs_started :: bool

definition mark_tampered :: "nat \<Rightarrow> verify_state \<Rightarrow> verify_state" where
  "mark_tampered index s =
     (let r = vs_result s
      in s\<lparr>vs_result := r\<lparr>vr_tampered := vr_tampered r + 1, vr_valid := False,
             vr_first_bad_idx := (if vr_first_bad_idx r < 0 then int index else vr_first_bad_idx r)\<rparr>,
           vs_statuses := vs_statuses s @ [status_tampered]\<rparr>)"

definition verify_step ::
  "audit_libs \<Rightarrow> key_map \<Rightarrow> ustring list \<Rightarrow> nat \<Rightarrow> log_entry \<Rightarrow> verify_state \<Rightarrow> unit + verify_state" where
  "verify_step L keys order index e s =
     (if en_hmac e = [] then
        Inr (if vs_started s then mark_tampered index s
             else s\<lparr>vs_result := (vs_result s)\<lparr>vr_legacy := vr_legacy (vs_result s) + 1\<rparr>,
                    vs_statuses := vs_statuses s @ [status_legacy], vs_previous := []\<rparr>)
      else res_bind (hex_decode (en_hmac e)) (\<lambda>decoded.
        case decoded of
          None \<Rightarrow> Inr (mark_tampered index s)
        | Some stored \<Rightarrow>
            res_bind (match_entry L keys order (vs_previous s) e stored) (\<lambda>(matched, known).
              let s' = (if matched then
                          s\<lparr>vs_result := (vs_result s)\<lparr>vr_verified := vr_verified (vs_result s) + 1\<rparr>,
                            vs_statuses := vs_statuses s @ [status_verified]\<rparr>
                        else if known then mark_tampered index s
                        else s\<lparr>vs_result := (vs_result s)\<lparr>vr_unverifiable := vr_unverifiable (vs_result s) + 1\<rparr>,
                               vs_statuses := vs_statuses s @ [status_unverifiable]\<rparr>)
              in Inr (s'\<lparr>vs_previous := stored, vs_started := True\<rparr>))))"

fun verify_loop ::
  "audit_libs \<Rightarrow> key_map \<Rightarrow> ustring list \<Rightarrow> nat \<Rightarrow> log_entry list \<Rightarrow> verify_state \<Rightarrow> unit + verify_state" where
  "verify_loop L keys order index [] s = Inr s"
| "verify_loop L keys order index (e # es) s =
     res_bind (verify_step L keys order index e s) (verify_loop L keys order (Suc index) es)"

definition verify_start :: "nat \<Rightarrow> verify_state" where
  "verify_start n =
     \<lparr>vs_result = \<lparr>vr_valid = True, vr_total = n, vr_verified = 0, vr_legacy = 0, vr_tampered = 0,
                    vr_unverifiable = 0, vr_first_bad_idx = - 1\<rparr>,
      vs_statuses = [], vs_previous = [], vs_started = False\<rparr>"

definition verify_entries ::
  "audit_libs \<Rightarrow> log_entry list \<Rightarrow> key_map \<Rightarrow> ustring \<Rightarrow> unit + verify_result \<times> ustring list" where
  "verify_entries L entries keys current_kid =
     res_bind (verify_loop L keys (trial_order keys current_kid) 0 entries (verify_start (length entries)))
       (\<lambda>s. Inr (vs_result s, vs_statuses s))"

definition verify_jsonl ::
  "audit_libs \<Rightarrow> nat list \<Rightarrow> key_map \<Rightarrow> ustring \<Rightarrow> unit + verify_result" where
  "verify_jsonl L data keys current_kid =
     res_bind (verify_entries L (parse_entries L data) keys current_kid) (\<lambda>r. Inr (fst r))"

section \<open>Decoding what was encoded\<close>

text \<open>The documented shape of the two digests.\<close>

definition macs_ok :: "audit_libs \<Rightarrow> bool" where
  "macs_ok L \<longleftrightarrow> (\<forall>k m. length (al_hmac_sha256 L k m) = 32 \<and> (\<forall>b \<in> set (al_hmac_sha256 L k m). b < 256))"

lemma utf8_width_ascii [simp]: "c < 128 \<Longrightarrow> utf8_width c = 1"
  by (simp add: utf8_width_def)

lemma str_len_ascii: "\<forall>c \<in> set s. c < 128 \<Longrightarrow> str_len s = length s"
  by (induction s) (simp_all add: str_len_def)

lemma radix16_hex [simp]: "b < 256 \<Longrightarrow> radix16 (hex_digit (b div 16)) (hex_digit (b mod 16)) = Some b"
proof -
  assume "b < 256"
  then have "b div 16 < 16" "b mod 16 < 16" by auto
  moreover from this have "hex_digit (b div 16) \<noteq> ch_plus" by (simp add: hex_digit_cases)
  ultimately show ?thesis by (simp add: radix16_def)
qed

lemma hex_pairs_encode: "\<forall>b \<in> set bs. b < 256 \<Longrightarrow> hex_pairs (encode_hex bs) = Inr (Some bs)"
proof (induction bs)
  case (Cons b bs)
  then have "b div 16 < 16" by auto
  with Cons show ?case by (simp add: hex_digit_ascii)
qed simp

lemma length_encode_hex [simp]: "length (encode_hex bs) = 2 * length bs"
  by (induction bs) simp_all

lemma hex_decode_encode [simp]: "\<forall>b \<in> set bs. b < 256 \<Longrightarrow> hex_decode (encode_hex bs) = Inr (Some bs)"
  using encode_hex_ascii [of bs] by (simp add: hex_decode_def hex_pairs_encode str_len_ascii)

lemma radix16_bound: "radix16 c d = Some b \<Longrightarrow> b < 256"
  by (auto simp: radix16_def dest!: hex_value_bound split: if_splits option.splits)

lemma hex_pairs_bound: "hex_pairs s = Inr (Some bs) \<Longrightarrow> b \<in> set bs \<Longrightarrow> b < 256"
proof (induction s arbitrary: bs rule: hex_pairs.induct)
  case (2 c s)
  from "2.prems"(1) obtain d r where s: "s = d # r" by (cases s) (auto split: if_splits)
  with "2.prems" obtain b0 bs' where b0: "radix16 c d = Some b0" "hex_pairs r = Inr (Some bs')" "bs = b0 # bs'"
    and w: "utf8_width c = 1" "utf8_width d = 1"
    by (auto simp: res_bind_Inr_iff split: if_splits option.splits)
  with "2.prems"(2) show ?case using "2.IH" [of d r b0 bs'] radix16_bound [OF b0(1)] s by auto
qed simp

lemma hex_decode_bound: "hex_decode s = Inr (Some bs) \<Longrightarrow> \<forall>b \<in> set bs. b < 256"
  by (auto simp: hex_decode_def split: if_splits intro: hex_pairs_bound)

lemma decode_computed_hmac [simp]:
  "macs_ok L \<Longrightarrow> decode_computed (compute_hmac L k p e) = Inr (al_hmac_sha256 L k (p @ canonical_json L e))"
  by (simp add: decode_computed_def compute_hmac_def macs_ok_def)

lemma mac_matches_iff:
  "\<forall>b \<in> set xs. b < 256 \<Longrightarrow> \<forall>b \<in> set ys. b < 256 \<Longrightarrow> mac_matches xs ys \<longleftrightarrow> xs = ys"
  using byte_difference_zero [of xs ys] by (auto simp: mac_matches_def)

text \<open>A key of the map produced the code of this entry after the bytes \<open>p\<close>.\<close>

definition signed_by :: "audit_libs \<Rightarrow> key_map \<Rightarrow> nat list \<Rightarrow> log_entry \<Rightarrow> nat list \<Rightarrow> bool" where
  "signed_by L keys p e m \<longleftrightarrow> (\<exists>k \<in> snd ` set keys. m = al_hmac_sha256 L k (p @ canonical_json L e))"

lemma try_keys_ok:
  assumes "macs_ok L" "\<forall>b \<in> set m. b < 256" "\<forall>kid \<in> set order. map_of keys kid \<noteq> None"
  shows "\<exists>b. try_keys L keys p e m order = Inr (b, b) \<and> (b \<longrightarrow> signed_by L keys p e m)"
  using assms(3)
proof (induction order)
  case (Cons kid kids)
  then obtain k where k: "map_of keys kid = Some k" by auto
  then have "k \<in> snd ` set keys" by (force dest: map_of_SomeD)
  moreover have "mac_matches (al_hmac_sha256 L k (p @ canonical_json L e)) m \<longleftrightarrow>
      al_hmac_sha256 L k (p @ canonical_json L e) = m"
    using assms(1,2) by (intro mac_matches_iff) (auto simp: macs_ok_def)
  ultimately show ?case using Cons assms(1) k by (auto simp: signed_by_def)
qed auto

lemma trial_order_known: "kid \<in> set (trial_order keys c) \<Longrightarrow> map_of keys kid \<noteq> None"
  by (auto simp: trial_order_def map_of_eq_None_iff split: if_splits)

lemma match_entry_ok:
  assumes "macs_ok L" "\<forall>b \<in> set m. b < 256"
  shows "\<exists>matched known. match_entry L keys (trial_order keys c) p e m = Inr (matched, known) \<and>
    (matched \<longrightarrow> signed_by L keys p e m)"
proof (cases "en_kid e = []")
  case True
  then show ?thesis
    using try_keys_ok [OF assms, of "trial_order keys c" keys p e] trial_order_known
    by (auto simp: match_entry_def)
next
  case False
  show ?thesis
  proof (cases "map_of keys (en_kid e)")
    case (Some k)
    then have "k \<in> snd ` set keys" by (force dest: map_of_SomeD)
    moreover have "mac_matches (al_hmac_sha256 L k (p @ canonical_json L e)) m \<longleftrightarrow>
        al_hmac_sha256 L k (p @ canonical_json L e) = m"
      using assms by (intro mac_matches_iff) (auto simp: macs_ok_def)
    ultimately show ?thesis using False Some assms(1) by (auto simp: match_entry_def signed_by_def)
  qed (use False in \<open>auto simp: match_entry_def\<close>)
qed

section \<open>What a verified log means\<close>

lemma statuses_distinct [simp]:
  "status_verified \<noteq> status_tampered" "status_verified \<noteq> status_legacy" "status_verified \<noteq> status_unverifiable"
  "status_tampered \<noteq> status_legacy" "status_tampered \<noteq> status_unverifiable" "status_tampered \<noteq> status_verified"
  "status_legacy \<noteq> status_verified" "status_unverifiable \<noteq> status_verified"
  by (simp_all add: status_verified_def status_tampered_def status_legacy_def status_unverifiable_def)

fun signed_chain :: "audit_libs \<Rightarrow> key_map \<Rightarrow> nat list \<Rightarrow> log_entry list \<Rightarrow> bool" where
  "signed_chain L keys p [] \<longleftrightarrow> True"
| "signed_chain L keys p (e # es) \<longleftrightarrow>
     (\<exists>m. hex_decode (en_hmac e) = Inr (Some m) \<and> signed_by L keys p e m \<and> signed_chain L keys m es)"

lemma verify_step_cases:
  assumes "macs_ok L" "verify_step L keys (trial_order keys c) i e s = Inr s'"
  shows "\<exists>st. vs_statuses s' = vs_statuses s @ [st] \<and>
    (st = status_verified \<longrightarrow>
      hex_decode (en_hmac e) = Inr (Some (vs_previous s')) \<and> signed_by L keys (vs_previous s) e (vs_previous s'))"
proof (cases "hex_decode (en_hmac e)")
  case (Inr v)
  show ?thesis
  proof (cases v)
    case (Some m)
    have "\<forall>b \<in> set m. b < 256" using Inr Some by (auto dest: hex_decode_bound)
    from match_entry_ok [OF assms(1) this, of keys c "vs_previous s" e] obtain matched known where
      me: "match_entry L keys (trial_order keys c) (vs_previous s) e m = Inr (matched, known)"
        "matched \<longrightarrow> signed_by L keys (vs_previous s) e m" by blast
    show ?thesis
      using assms(2) me Inr Some
      by (cases "en_hmac e = []") (auto simp: verify_step_def mark_tampered_def Let_def)
  qed (use assms Inr in \<open>auto simp: verify_step_def mark_tampered_def Let_def split: if_splits\<close>)
qed (use assms in \<open>auto simp: verify_step_def mark_tampered_def Let_def split: if_splits\<close>)

lemma verify_loop_statuses:
  assumes "macs_ok L" "verify_loop L keys (trial_order keys c) i es s = Inr s'"
  shows "\<exists>sts. vs_statuses s' = vs_statuses s @ sts \<and> length sts = length es \<and>
    (list_all ((=) status_verified) sts \<longrightarrow> signed_chain L keys (vs_previous s) es)"
  using assms(2)
proof (induction es arbitrary: i s)
  case (Cons e es)
  then obtain s1 where s1: "verify_step L keys (trial_order keys c) i e s = Inr s1"
      "verify_loop L keys (trial_order keys c) (Suc i) es s1 = Inr s'"
    by (auto simp: res_bind_Inr_iff)
  from verify_step_cases [OF assms(1) s1(1)] obtain st where st:
      "vs_statuses s1 = vs_statuses s @ [st]"
      "st = status_verified \<longrightarrow> hex_decode (en_hmac e) = Inr (Some (vs_previous s1)) \<and>
        signed_by L keys (vs_previous s) e (vs_previous s1)" by blast
  from Cons.IH [OF s1(2)] obtain sts where sts:
      "vs_statuses s' = vs_statuses s1 @ sts" "length sts = length es"
      "list_all ((=) status_verified) sts \<longrightarrow> signed_chain L keys (vs_previous s1) es" by blast
  show ?case by (rule exI [of _ "st # sts"]) (use st sts in auto)
qed simp

lemma verify_entries_verified:
  assumes "macs_ok L" "verify_entries L es keys c = Inr (r, sts)" "list_all ((=) status_verified) sts"
  shows "signed_chain L keys [] es"
  using verify_loop_statuses [OF assms(1)] assms(2,3)
  by (fastforce simp: verify_entries_def res_bind_Inr_iff verify_start_def)

text \<open>What each code of a log covers: the code before it and the canonical form of its entry.\<close>

fun mac_inputs :: "audit_libs \<Rightarrow> nat list \<Rightarrow> log_entry list \<Rightarrow> (nat list \<times> nat list) list" where
  "mac_inputs L p [] = []"
| "mac_inputs L p (e # es) =
     (p, canonical_json L e) #
     mac_inputs L (case hex_decode (en_hmac e) of Inr (Some m) \<Rightarrow> m | _ \<Rightarrow> []) es"

fun final_mac :: "nat list \<Rightarrow> log_entry list \<Rightarrow> nat list" where
  "final_mac p [] = p"
| "final_mac p (e # es) = final_mac (case hex_decode (en_hmac e) of Inr (Some m) \<Rightarrow> m | _ \<Rightarrow> []) es"

lemma final_mac_snoc:
  "final_mac p (es @ [e]) = (case hex_decode (en_hmac e) of Inr (Some m) \<Rightarrow> m | _ \<Rightarrow> [])"
  by (induction es arbitrary: p) simp_all

lemma mac_inputs_snoc: "mac_inputs L p (es @ [e]) = mac_inputs L p es @ [(final_mac p es, canonical_json L e)]"
  by (induction es arbitrary: p) simp_all

lemma signed_chain_snoc:
  "signed_chain L keys p (es @ [e]) \<longleftrightarrow>
     signed_chain L keys p es \<and>
     (\<exists>m. hex_decode (en_hmac e) = Inr (Some m) \<and> signed_by L keys (final_mac p es) e m)"
  by (induction es arbitrary: p) auto

definition mac_collision :: "audit_libs \<Rightarrow> key_map \<Rightarrow> log_entry list \<Rightarrow> log_entry list \<Rightarrow> bool" where
  "mac_collision L keys es es' \<longleftrightarrow>
     (\<exists>x \<in> set (mac_inputs L [] es). \<exists>y \<in> set (mac_inputs L [] es').
        \<exists>k \<in> snd ` set keys. \<exists>k' \<in> snd ` set keys.
          x \<noteq> y \<and> al_hmac_sha256 L k (fst x @ snd x) = al_hmac_sha256 L k' (fst y @ snd y))"

lemma mac_collision_mono:
  "mac_collision L keys es es' \<Longrightarrow> mac_collision L keys (es @ [e]) (es' @ [e'])"
  unfolding mac_collision_def mac_inputs_snoc set_append by blast

lemma signed_chain_final:
  assumes "macs_ok L" "signed_chain L keys [] es"
  shows "final_mac [] es = [] \<longleftrightarrow> es = []"
proof (cases es rule: rev_cases)
  case (snoc xs e)
  with assms(2) obtain m where m: "hex_decode (en_hmac e) = Inr (Some m)" "signed_by L keys (final_mac [] xs) e m"
    by (auto simp: signed_chain_snoc)
  from m(2) assms(1) have "length m = 32" by (auto simp: signed_by_def macs_ok_def)
  then have "m \<noteq> []" by auto
  with m(1) snoc show ?thesis by (simp add: final_mac_snoc)
qed simp

text \<open>The newest code commits to the whole log before it.\<close>

lemma signed_chain_binding:
  assumes "macs_ok L" "signed_chain L keys [] es" "signed_chain L keys [] es'" "final_mac [] es = final_mac [] es'"
  shows "map (canonical_json L) es = map (canonical_json L) es' \<or> mac_collision L keys es es'"
  using assms(2-4)
proof (induction es arbitrary: es' rule: rev_induct)
  case Nil
  then show ?case using signed_chain_final [OF assms(1), of keys es'] by simp
next
  case (snoc e es)
  show ?case
  proof (cases es' rule: rev_cases)
    case Nil
    with snoc.prems signed_chain_final [OF assms(1), of keys "es @ [e]"] show ?thesis by simp
  next
    case [simp]: (snoc xs' e')
    from snoc.prems(1,2) obtain m m' where m: "hex_decode (en_hmac e) = Inr (Some m)" "signed_by L keys (final_mac [] es) e m"
      "hex_decode (en_hmac e') = Inr (Some m')" "signed_by L keys (final_mac [] xs') e' m'"
      and ch: "signed_chain L keys [] es" "signed_chain L keys [] xs'"
      by (auto simp: signed_chain_snoc)
    from snoc.prems(3) m have "m = m'" by (simp add: final_mac_snoc)
    with m obtain k k' where k: "k \<in> snd ` set keys" "k' \<in> snd ` set keys"
      "al_hmac_sha256 L k (final_mac [] es @ canonical_json L e) = al_hmac_sha256 L k' (final_mac [] xs' @ canonical_json L e')"
      by (auto simp: signed_by_def)
    show ?thesis
    proof (cases "(final_mac [] es, canonical_json L e) = (final_mac [] xs', canonical_json L e')")
      case True
      with snoc.IH [OF ch] mac_collision_mono [of L keys es xs' e e'] show ?thesis by auto
    next
      case False
      then have "mac_collision L keys (es @ [e]) (xs' @ [e'])"
        unfolding mac_collision_def mac_inputs_snoc
        by (intro bexI [of _ k'] bexI [of _ k] bexI [of _ "(final_mac [] xs', canonical_json L e')"]
            bexI [of _ "(final_mac [] es, canonical_json L e)"]) (use k in auto)
      then show ?thesis by simp
    qed
  qed
qed


section \<open>What the logger writes\<close>

fun written_chain :: "audit_libs \<Rightarrow> audit_key \<Rightarrow> nat list \<Rightarrow> log_entry list \<Rightarrow> bool" where
  "written_chain L key p [] \<longleftrightarrow> True"
| "written_chain L key p (e # es) \<longleftrightarrow>
     en_kid e = key_fingerprint L key \<and> en_hmac e = compute_hmac L key p e \<and>
     written_chain L key (al_hmac_sha256 L key (p @ canonical_json L e)) es"

definition digest_ok :: "audit_libs \<Rightarrow> bool" where
  "digest_ok L \<longleftrightarrow> (\<forall>m. length (al_sha256 L m) = 32 \<and> (\<forall>b \<in> set (al_sha256 L m). b < 256))"

lemma fingerprint_not_Nil: "digest_ok L \<Longrightarrow> key_fingerprint L key \<noteq> []"
proof -
  assume "digest_ok L"
  then have "length (al_sha256 L key) = 32" by (simp add: digest_ok_def)
  then show ?thesis by (cases "al_sha256 L key") (auto simp: key_fingerprint_def)
qed

lemma hmac_text_not_Nil: "macs_ok L \<Longrightarrow> compute_hmac L key p e \<noteq> []"
proof -
  assume "macs_ok L"
  then have "length (al_hmac_sha256 L key (p @ canonical_json L e)) = 32" by (simp add: macs_ok_def)
  then show ?thesis by (auto simp: compute_hmac_def)
qed

lemma hex_decode_hmac:
  "macs_ok L \<Longrightarrow> hex_decode (compute_hmac L key p e) = Inr (Some (al_hmac_sha256 L key (p @ canonical_json L e)))"
  by (simp add: compute_hmac_def macs_ok_def)

lemma mac_matches_hmac:
  "macs_ok L \<Longrightarrow> mac_matches (al_hmac_sha256 L k m) (al_hmac_sha256 L k' m') \<longleftrightarrow>
     al_hmac_sha256 L k m = al_hmac_sha256 L k' m'"
  by (rule mac_matches_iff) (auto simp: macs_ok_def)

lemmas verify_written = hmac_text_not_Nil fingerprint_not_Nil hex_decode_hmac mac_matches_hmac

text \<open>An entry the logger wrote after \<open>p\<close>, met by the verifier after the bytes it holds.\<close>

lemma verify_step_written:
  assumes "macs_ok L" "digest_ok L" "map_of keys (key_fingerprint L key) = Some key"
    and "en_kid e = key_fingerprint L key" "en_hmac e = compute_hmac L key p e"
  shows "verify_step L keys order i e s =
    Inr ((if al_hmac_sha256 L key (vs_previous s @ canonical_json L e) = al_hmac_sha256 L key (p @ canonical_json L e)
          then s\<lparr>vs_result := (vs_result s)\<lparr>vr_verified := vr_verified (vs_result s) + 1\<rparr>,
                 vs_statuses := vs_statuses s @ [status_verified]\<rparr>
          else mark_tampered i s)
         \<lparr>vs_previous := al_hmac_sha256 L key (p @ canonical_json L e), vs_started := True\<rparr>)"
  using assms by (simp add: verify_step_def match_entry_def verify_written Let_def)

lemma verify_loop_written:
  assumes "macs_ok L" "digest_ok L" "map_of keys (key_fingerprint L key) = Some key"
  shows "written_chain L key (vs_previous s) es \<Longrightarrow>
    \<exists>p started. verify_loop L keys order i es s =
      Inr (s\<lparr>vs_result := (vs_result s)\<lparr>vr_verified := vr_verified (vs_result s) + length es\<rparr>,
             vs_statuses := vs_statuses s @ replicate (length es) status_verified,
             vs_previous := p, vs_started := started\<rparr>)"
proof (induction es arbitrary: i s)
  case Nil
  show ?case by (rule exI [of _ "vs_previous s"], rule exI [of _ "vs_started s"]) simp
next
  case (Cons e es)
  define s1 where "s1 = s\<lparr>vs_result := (vs_result s)\<lparr>vr_verified := vr_verified (vs_result s) + 1\<rparr>,
      vs_statuses := vs_statuses s @ [status_verified],
      vs_previous := al_hmac_sha256 L key (vs_previous s @ canonical_json L e), vs_started := True\<rparr>"
  from Cons.prems have "verify_step L keys order i e s = Inr s1"
    using verify_step_written [OF assms, of e "vs_previous s" order i s] by (simp add: s1_def)
  moreover from Cons.prems have "written_chain L key (vs_previous s1) es" by (simp add: s1_def)
  from Cons.IH [OF this, of "Suc i"] obtain p started where "verify_loop L keys order (Suc i) es s1 =
      Inr (s1\<lparr>vs_result := (vs_result s1)\<lparr>vr_verified := vr_verified (vs_result s1) + length es\<rparr>,
             vs_statuses := vs_statuses s1 @ replicate (length es) status_verified,
             vs_previous := p, vs_started := started\<rparr>)" by blast
  ultimately show ?case
    by (intro exI [of _ p] exI [of _ started]) (simp add: s1_def)
qed

definition all_verified :: "nat \<Rightarrow> verify_result" where
  "all_verified n = \<lparr>vr_valid = True, vr_total = n, vr_verified = n, vr_legacy = 0, vr_tampered = 0,
     vr_unverifiable = 0, vr_first_bad_idx = - 1\<rparr>"

lemma written_chain_verifies:
  assumes "macs_ok L" "digest_ok L" "map_of keys (key_fingerprint L key) = Some key" "written_chain L key [] es"
  shows "verify_entries L es keys c = Inr (all_verified (length es), replicate (length es) status_verified)"
  using verify_loop_written [OF assms(1-3), of "verify_start (length es)" es "trial_order keys c" 0] assms(4)
  by (auto simp: verify_entries_def verify_start_def all_verified_def)

text \<open>
  A log that starts in the middle of a chain, as the files do that are left after retention has
  removed the oldest one, is reported as tampered although nothing in it was changed: the first
  entry is marked, all others are verified, and the result is not valid. The only escape is that
  HMAC does not tell the first entry with its predecessor's code from the entry alone.
\<close>

theorem retained_suffix_reported_tampered:
  assumes "macs_ok L" "digest_ok L" "map_of keys (key_fingerprint L key) = Some key"
    and "written_chain L key p (e # es)"
    and "al_hmac_sha256 L key (canonical_json L e) \<noteq> al_hmac_sha256 L key (p @ canonical_json L e)"
  shows "verify_entries L (e # es) keys c =
    Inr (\<lparr>vr_valid = False, vr_total = Suc (length es), vr_verified = length es, vr_legacy = 0, vr_tampered = 1,
           vr_unverifiable = 0, vr_first_bad_idx = 0\<rparr>,
         status_tampered # replicate (length es) status_verified)"
proof -
  define s1 where "s1 = (mark_tampered 0 (verify_start (Suc (length es))))
      \<lparr>vs_previous := al_hmac_sha256 L key (p @ canonical_json L e), vs_started := True\<rparr>"
  have "verify_step L keys (trial_order keys c) 0 e (verify_start (Suc (length es))) = Inr s1"
    using verify_step_written [OF assms(1-3), of e p] assms(4,5) by (simp add: s1_def verify_start_def)
  moreover have "written_chain L key (vs_previous s1) es" using assms(4) by (simp add: s1_def)
  from verify_loop_written [OF assms(1-3) this, of "trial_order keys c" 1] obtain q started where
    "verify_loop L keys (trial_order keys c) 1 es s1 =
      Inr (s1\<lparr>vs_result := (vs_result s1)\<lparr>vr_verified := vr_verified (vs_result s1) + length es\<rparr>,
             vs_statuses := vs_statuses s1 @ replicate (length es) status_verified,
             vs_previous := q, vs_started := started\<rparr>)" by blast
  ultimately show ?thesis
    by (simp add: verify_entries_def s1_def mark_tampered_def verify_start_def Let_def)
qed

section \<open>Panics of the verifier\<close>

lemma hex_pairs_ascii: "\<forall>c \<in> set s. c < 128 \<Longrightarrow> even (length s) \<Longrightarrow> \<exists>v. hex_pairs s = Inr v"
proof (induction s rule: hex_pairs.induct)
  case (2 c s)
  then obtain d r where s: "s = d # r" by (cases s) auto
  show ?case
  proof (cases "radix16 c d")
    case (Some b)
    have "\<exists>v. hex_pairs r = Inr v" using 2 s Some by simp
    with s Some "2.prems" show ?thesis by auto
  qed (use s "2.prems" in simp)
qed simp

lemma hex_decode_ascii: "\<forall>c \<in> set s. c < 128 \<Longrightarrow> \<exists>v. hex_decode s = Inr v"
  using hex_pairs_ascii [of s] by (auto simp: hex_decode_def str_len_ascii)

lemma verify_step_returns:
  assumes "macs_ok L" "\<exists>v. hex_decode (en_hmac e) = Inr v"
  shows "\<exists>s'. verify_step L keys (trial_order keys c) i e s = Inr s'"
proof (cases "hex_decode (en_hmac e)")
  case (Inr v)
  show ?thesis
  proof (cases v)
    case (Some m)
    have "\<forall>b \<in> set m. b < 256" using Inr Some by (auto dest: hex_decode_bound)
    from match_entry_ok [OF assms(1) this, of keys c "vs_previous s" e] Inr Some show ?thesis
      by (auto simp: verify_step_def)
  qed (use Inr in \<open>simp add: verify_step_def\<close>)
qed (use assms(2) in simp)

lemma verify_loop_returns:
  assumes "macs_ok L"
  shows "list_all (\<lambda>e. \<exists>v. hex_decode (en_hmac e) = Inr v) es \<Longrightarrow>
    \<exists>s'. verify_loop L keys (trial_order keys c) i es s = Inr s'"
proof (induction es arbitrary: i s)
  case (Cons e es)
  then obtain s1 where "verify_step L keys (trial_order keys c) i e s = Inr s1"
    using verify_step_returns [OF assms, of e keys c i s] by auto
  with Cons show ?case by auto
qed simp

lemma verify_loop_panics:
  assumes "macs_ok L"
  shows "e \<in> set es \<Longrightarrow> hex_decode (en_hmac e) = Inl () \<Longrightarrow>
    verify_loop L keys (trial_order keys c) i es s = Inl ()"
proof (induction es arbitrary: i s)
  case (Cons x es)
  have nn: "en_hmac e \<noteq> []" using Cons.prems(2) by (auto simp: hex_decode_def str_len_def)
  show ?case
  proof (cases "verify_step L keys (trial_order keys c) i x s")
    case (Inr s1)
    moreover have "x \<noteq> e" using Inr Cons.prems(2) nn by (auto simp: verify_step_def)
    ultimately show ?thesis using Cons by simp
  qed simp
qed simp

text \<open>
  Verification of a log panics exactly when the code field of some entry makes the hexadecimal
  decoder cut a character: fields of ASCII characters are always handled, whatever they hold, and
  one field such as an ASCII character followed by a two-byte character, of even length, is enough.
\<close>

theorem verify_panics_iff:
  assumes "macs_ok L"
  shows "(verify_entries L es keys c = Inl () \<longleftrightarrow> (\<exists>e \<in> set es. hex_decode (en_hmac e) = Inl ())) \<and>
    (\<forall>e. (\<forall>x \<in> set (en_hmac e). x < 128) \<longrightarrow> hex_decode (en_hmac e) \<noteq> Inl ()) \<and>
    (\<forall>e a b r. en_hmac e = a # b # r \<and> a < 128 \<and> 128 \<le> b \<and> even (str_len (en_hmac e)) \<longrightarrow>
      hex_decode (en_hmac e) = Inl ())"
proof (intro conjI allI impI)
  have ret: "\<exists>v. hex_decode (en_hmac e) = Inr v" if "hex_decode (en_hmac e) \<noteq> Inl ()" for e
    using that by (cases "hex_decode (en_hmac e)") auto
  show "verify_entries L es keys c = Inl () \<longleftrightarrow> (\<exists>e \<in> set es. hex_decode (en_hmac e) = Inl ())"
  proof (cases "\<exists>e \<in> set es. hex_decode (en_hmac e) = Inl ()")
    case True
    then show ?thesis using verify_loop_panics [OF assms] by (auto simp: verify_entries_def)
  next
    case False
    then have "list_all (\<lambda>e. \<exists>v. hex_decode (en_hmac e) = Inr v) es" unfolding list_all_iff using ret by blast
    from verify_loop_returns [OF assms this] obtain s' where
      "verify_loop L keys (trial_order keys c) 0 es (verify_start (length es)) = Inr s'" by blast
    with False show ?thesis by (simp add: verify_entries_def)
  qed
  show "hex_decode (en_hmac e) \<noteq> Inl ()" if "\<forall>x \<in> set (en_hmac e). x < 128" for e
    using hex_decode_ascii [OF that] by auto
  show "hex_decode (en_hmac e) = Inl ()"
    if h: "en_hmac e = a # b # r \<and> a < 128 \<and> 128 \<le> b \<and> even (str_len (en_hmac e))" for e a b r
  proof -
    from h have "utf8_width a = 1" "utf8_width b \<noteq> 1" by (simp_all add: utf8_width_def)
    then have "hex_pairs (a # b # r) = Inl ()" by simp
    with h show ?thesis unfolding hex_decode_def by (metis (full_types))
  qed
qed

end
