(* ===== verification/Audit_Files.thy ===== *)
theory Audit_Files
  imports Audit_Log "HOL-Library.Product_Lexorder" "HOL-Library.Sublist" "HOL-Library.Multiset"
begin

text \<open>
  \<^verbatim>\<open>symvault-store/src/audit.rs\<close>, the part that touches files: the HMAC key in the keyring and its
  rotation, the file-based key store, the logger with its rotation and retention, and the export of
  a directory of logs. The directory model and the failure sites are those of \<open>Audit_Log\<close>.
\<close>

section \<open>The key in the keyring\<close>

definition keyring_address :: "ustring option \<Rightarrow> io_error + ustring" where
  "keyring_address directory =
     (case directory of
        None \<Rightarrow> Inl (IoError InvalidInput (lit ''audit path is not valid UTF-8''))
      | Some t \<Rightarrow>
          if 124 \<in> set t
          then Inl (IoError InvalidInput (lit ''audit keyring path contains a reserved separator''))
          else Inr (lit ''symaira|audit-hmac-key:'' @ t))"

definition bad_key_encoding :: io_error where
  "bad_key_encoding = IoError InvalidData (lit ''invalid audit key encoding'')"

fun decode_key_pairs :: "nat list \<Rightarrow> io_error + nat list" where
  "decode_key_pairs (a # b # r) =
     (case (hex_value a, hex_value b) of
        (Some h, Some l) \<Rightarrow> res_bind (decode_key_pairs r) (\<lambda>v. Inr ((h * 16 + l) # v))
      | _ \<Rightarrow> Inl bad_key_encoding)"
| "decode_key_pairs _ = Inr []"

definition decode_hex_key :: "nat list \<Rightarrow> io_error + nat list" where
  "decode_hex_key encoded = (if odd (length encoded) then Inl bad_key_encoding else decode_key_pairs encoded)"

definition random_key :: "io_env \<Rightarrow> io_error + nat list" where
  "random_key E = (case io_random E of Inl m \<Rightarrow> Inl (io_other m) | Inr b \<Rightarrow> Inr b)"

definition remove_legacy :: "io_env \<Rightarrow> adir \<Rightarrow> adir" where
  "remove_legacy E d =
     (if io_fault E Gate = None \<and> io_fault E RemoveFile = None then AList.delete KEY_FILE d else d)"

definition load_or_create_key_with_keyring ::
  "io_env \<Rightarrow> 's keyring \<Rightarrow> bool \<Rightarrow> ustring option \<Rightarrow> 's \<Rightarrow> adir \<Rightarrow> (io_error + audit_key) \<times> 's \<times> adir" where
  "load_or_create_key_with_keyring E K is_dir directory s d =
     (if \<not> is_dir then (Inl (IoError FileNotFound (lit ''vault directory does not exist'')), s, d)
      else (case keyring_address directory of
        Inl e \<Rightarrow> (Inl e, s, d)
      | Inr address \<Rightarrow>
          (case kr_get K s address of
             Inr encoded \<Rightarrow> (res_bind (decode_hex_key encoded) audit_key_new, s, d)
           | Inl _ \<Rightarrow>
               (case (case fs_read E ReadKey KEY_FILE d of
                        Inr b \<Rightarrow> Inr (b, True)
                      | Inl (IoError FileNotFound m) \<Rightarrow> res_bind (random_key E) (\<lambda>b. Inr (b, False))
                      | Inl e \<Rightarrow> Inl e) of
                  Inl e \<Rightarrow> (Inl e, s, d)
                | Inr (b, migrate) \<Rightarrow>
                    (case audit_key_new b of
                       Inl e \<Rightarrow> (Inl e, s, d)
                     | Inr key \<Rightarrow>
                         (case kr_set K s address (encode_hex b) of
                            (saved, s') \<Rightarrow>
                              if migrate
                              then (Inr key, s', if saved = Inr () then remove_legacy E d else d)
                              else if saved = Inr () then (Inr key, s', d)
                              else (Inl (io_other (lit ''could not store audit key'')), s', d)))))))"

definition session_error_text :: "session_error \<Rightarrow> ustring" where
  "session_error_text e =
     (case e of
        Keyring m \<Rightarrow> lit ''keyring unavailable: '' @ m
      | NotFound \<Rightarrow> lit ''session not found''
      | Expired m \<Rightarrow> lit ''session is expired: '' @ m
      | Malformed m \<Rightarrow> lit ''session payload is malformed: '' @ m
      | LegacyPlaintext \<Rightarrow> lit ''session uses legacy plaintext format''
      | Crypto m \<Rightarrow> lit ''session cryptography failed: '' @ m
      | WrapKeyMissing \<Rightarrow> lit ''wrap key not found''
      | WrapKeyInvalid m \<Rightarrow> lit ''wrap key is unusable: '' @ m)"

fun io_error_text :: "io_error \<Rightarrow> ustring" where
  "io_error_text (IoError k m) = m"
| "io_error_text (IoPanic m) = m"

text \<open>\<open>fs::write\<close> truncates before it writes; a failing write leaves a prefix.\<close>

definition write_hex_key_file :: "io_env \<Rightarrow> ustring \<Rightarrow> nat list \<Rightarrow> adir \<Rightarrow> (io_error + unit) \<times> adir" where
  "write_hex_key_file E name hex d =
     (case io_try E CreateKey of
        Inl e \<Rightarrow> (Inl e, d)
      | Inr _ \<Rightarrow>
          (case io_try E ArchiveKey of
             Inl e \<Rightarrow> (Inl e, fs_write (io_now E ClockWrite) name (take (io_torn E) hex) d)
           | Inr _ \<Rightarrow> (io_try E KeyMode, fs_write (io_now E ClockWrite) name hex d)))"

definition archive_name :: "audit_libs \<Rightarrow> audit_key \<Rightarrow> ustring" where
  "archive_name L key = KEY_FILE @ ROTATED_MARKER @ key_fingerprint L key"

text \<open>The key to archive, and whether it came from the legacy file.\<close>

definition old_audit_key ::
  "io_env \<Rightarrow> 's keyring \<Rightarrow> ustring \<Rightarrow> 's \<Rightarrow> adir \<Rightarrow> io_error + (nat list \<times> bool) option" where
  "old_audit_key E K address s d =
     (case kr_get K s address of
        Inr encoded \<Rightarrow> res_bind (decode_hex_key encoded) (\<lambda>b. Inr (Some (b, False)))
      | Inl NotFound \<Rightarrow>
          if map_of d KEY_FILE \<noteq> None
          then res_bind (fs_read E ReadKey KEY_FILE d) (\<lambda>raw.
                 res_bind (if length raw = HMAC_KEY_BYTES then Inr raw else decode_hex_key raw)
                   (\<lambda>b. Inr (Some (b, True))))
          else Inr None
      | Inl e \<Rightarrow> Inl (io_other (lit ''load existing key for rotation: '' @ session_error_text e)))"

definition store_rotated_key ::
  "io_env \<Rightarrow> 's keyring \<Rightarrow> ustring \<Rightarrow> ustring option \<Rightarrow> bool \<Rightarrow> 's \<Rightarrow> adir \<Rightarrow>
   (io_error + audit_key \<times> ustring option) \<times> 's \<times> adir" where
  "store_rotated_key E K address archive legacy s d =
     (case random_key E of
        Inl e \<Rightarrow> (Inl e, s, d)
      | Inr new_bytes \<Rightarrow>
          (case kr_set K s address (encode_hex new_bytes) of
             (Inl e, s') \<Rightarrow>
               (Inl (io_other (lit ''store new HMAC key in keyring: '' @ session_error_text e)), s',
                (case archive of
                   Some a \<Rightarrow> if io_fault E RemoveFile = None then AList.delete a d else d
                 | None \<Rightarrow> d))
           | (Inr _, s') \<Rightarrow>
               (res_bind (audit_key_new new_bytes) (\<lambda>key. Inr (key, archive)), s',
                if legacy then remove_legacy E d else d)))"

definition rotate_key_with_keyring ::
  "audit_libs \<Rightarrow> io_env \<Rightarrow> 's keyring \<Rightarrow> ustring option \<Rightarrow> 's \<Rightarrow> adir \<Rightarrow>
   (io_error + audit_key \<times> ustring option) \<times> 's \<times> adir" where
  "rotate_key_with_keyring L E K directory s d =
     (case res_bind (keyring_address directory) (\<lambda>address.
             res_bind (old_audit_key E K address s d) (\<lambda>old. Inr (address, old))) of
        Inl e \<Rightarrow> (Inl e, s, d)
      | Inr (address, None) \<Rightarrow> store_rotated_key E K address None False s d
      | Inr (address, Some (old_bytes, legacy)) \<Rightarrow>
          (case audit_key_new old_bytes of
             Inl e \<Rightarrow> (Inl e, s, d)
           | Inr old_key \<Rightarrow>
               (let name = archive_name L old_key
                in case write_hex_key_file E name (encode_hex old_bytes) d of
                     (Inl e, d') \<Rightarrow> (Inl (io_other (lit ''archive old HMAC key: '' @ io_error_text e)), s, d')
                   | (Inr _, d') \<Rightarrow> store_rotated_key E K address (Some name) legacy s d')))"

section \<open>The key store in files\<close>

definition write_private :: "io_env \<Rightarrow> ustring \<Rightarrow> nat list \<Rightarrow> adir \<Rightarrow> (io_error + unit) \<times> adir" where
  "write_private E name b d =
     (let written = (\<lambda>x. fs_write (io_now E ClockWrite) name x d)
      in if map_of d name \<noteq> None then (Inl (IoError AlreadyExists (lit ''file exists'')), d)
         else (case io_try E CreateKey of
           Inl e \<Rightarrow> (Inl e, d)
         | Inr _ \<Rightarrow>
             (case io_try E WriteKey of
                Inl e \<Rightarrow> (Inl e, written (take (io_torn E) b))
              | Inr _ \<Rightarrow> (res_bind (io_try E SyncKey) (\<lambda>_. io_try E KeyMode), written b))))"

definition ks_load_or_create :: "io_env \<Rightarrow> adir \<Rightarrow> (io_error + audit_key) \<times> adir" where
  "ks_load_or_create E d =
     (case fs_read E ReadKey KEY_FILE d of
        Inr b \<Rightarrow> (audit_key_new b, d)
      | Inl (IoError FileNotFound m) \<Rightarrow>
          (case res_bind (random_key E) (\<lambda>b. res_bind (io_try E CreateDir) (\<lambda>_. Inr b)) of
             Inl e \<Rightarrow> (Inl e, d)
           | Inr b \<Rightarrow>
               (case write_private E KEY_FILE b d of
                  (Inl e, d') \<Rightarrow> (Inl e, d')
                | (Inr _, d') \<Rightarrow> (audit_key_new b, d')))
      | Inl e \<Rightarrow> (Inl e, d))"

definition ks_install ::
  "io_env \<Rightarrow> ustring option \<Rightarrow> adir \<Rightarrow> (io_error + audit_key \<times> ustring option) \<times> adir" where
  "ks_install E archive d =
     (case random_key E of
        Inl e \<Rightarrow> (Inl e, d)
      | Inr b \<Rightarrow>
          (case write_private E KEY_FILE b d of
             (Inl e, d') \<Rightarrow>
               (Inl e, (case archive of
                          Some a \<Rightarrow> if io_fault E RestoreKey = None then fs_rename a KEY_FILE d' else d'
                        | None \<Rightarrow> d'))
           | (Inr _, d') \<Rightarrow> (res_bind (audit_key_new b) (\<lambda>key. Inr (key, archive)), d')))"

definition ks_rotate :: "audit_libs \<Rightarrow> io_env \<Rightarrow> adir \<Rightarrow> (io_error + audit_key \<times> ustring option) \<times> adir" where
  "ks_rotate L E d =
     (case (case fs_read E ReadKey KEY_FILE d of
              Inr b \<Rightarrow> res_bind (audit_key_new b) (\<lambda>k. Inr (Some k))
            | Inl (IoError FileNotFound m) \<Rightarrow> Inr None
            | Inl e \<Rightarrow> Inl e) of
        Inl e \<Rightarrow> (Inl e, d)
      | Inr old \<Rightarrow>
          (case io_try E CreateDir of
             Inl e \<Rightarrow> (Inl e, d)
           | Inr _ \<Rightarrow>
               (case old of
                  None \<Rightarrow> ks_install E None d
                | Some key \<Rightarrow>
                    (case res_bind (io_try E Gate) (\<lambda>_. io_try E RenameKey) of
                       Inl e \<Rightarrow> (Inl e, d)
                     | Inr _ \<Rightarrow>
                         (let a = archive_name L key in ks_install E (Some a) (fs_rename KEY_FILE a d))))))"

fun archived_loop :: "audit_libs \<Rightarrow> io_env \<Rightarrow> adir \<Rightarrow> key_map \<Rightarrow> io_error + key_map" where
  "archived_loop L E [] m = Inr m"
| "archived_loop L E ((name, f) # items) m =
     (if \<not> starts_with (KEY_FILE @ ROTATED_MARKER) name then archived_loop L E items m
      else res_bind (io_try E ReadArchive) (\<lambda>_.
        archived_loop L E items
          (case audit_key_new (af_data f) of Inr key \<Rightarrow> bt_insert (key_fingerprint L key) key m | Inl _ \<Rightarrow> m)))"

definition ks_archived :: "audit_libs \<Rightarrow> io_env \<Rightarrow> bool \<Rightarrow> adir \<Rightarrow> io_error + key_map" where
  "ks_archived L E dir_exists d =
     (if \<not> dir_exists then Inr []
      else res_bind (io_try E ReadDir) (\<lambda>_. archived_loop L E (io_order E d) []))"

definition rotated_files :: "io_env \<Rightarrow> ustring \<Rightarrow> adir \<Rightarrow> io_error + adir" where
  "rotated_files E stem d =
     res_bind (io_try E ReadDir) (\<lambda>_.
       let files = filter (\<lambda>(name, f). starts_with stem name) (io_order E d)
       in if files \<noteq> [] \<and> io_fault E StatItem \<noteq> None then Inl (io_other (the (io_fault E StatItem)))
          else Inr (sort_key (\<lambda>(name, f). af_mtime f) files))"

definition too_old :: "io_env \<Rightarrow> int option \<Rightarrow> afile \<Rightarrow> bool" where
  "too_old E max_age f =
     (case max_age of None \<Rightarrow> False | Some age \<Rightarrow> age \<le> max 0 (io_now E ClockRetain - af_mtime f))"

definition remove_file :: "io_env \<Rightarrow> ustring \<Rightarrow> adir \<Rightarrow> adir" where
  "remove_file E name d = (if io_fault E RemoveFile = None then AList.delete name d else d)"

fun ks_retain :: "io_env \<Rightarrow> nat \<Rightarrow> int option \<Rightarrow> nat \<Rightarrow> bool \<Rightarrow> adir \<Rightarrow> adir \<Rightarrow> (io_error + unit) \<times> adir" where
  "ks_retain E delete_count max_age index gated [] d = (Inr (), d)"
| "ks_retain E delete_count max_age index gated ((name, f) # files) d =
     (if index < delete_count \<or> too_old E max_age f then
        (case (if gated then Inr () else io_try E Gate) of
           Inl e \<Rightarrow> (Inl e, d)
         | Inr _ \<Rightarrow> ks_retain E delete_count max_age (Suc index) True files (remove_file E name d))
      else ks_retain E delete_count max_age (Suc index) gated files d)"

definition ks_enforce_retention ::
  "io_env \<Rightarrow> bool \<Rightarrow> nat \<Rightarrow> int option \<Rightarrow> adir \<Rightarrow> (io_error + unit) \<times> adir" where
  "ks_enforce_retention E dir_exists max_backups max_age d =
     (if \<not> dir_exists then (Inr (), d)
      else (case rotated_files E (KEY_FILE @ ROTATED_MARKER) d of
        Inl e \<Rightarrow> (Inl e, d)
      | Inr files \<Rightarrow> ks_retain E (length files - max_backups) max_age 0 False files d))"

section \<open>The logger\<close>

record rotation_config =
  max_file_size :: nat
  max_backups :: nat
  max_age :: "int option"

definition default_rotation :: rotation_config where
  "default_rotation =
     \<lparr>max_file_size = 100 * 1024 * 1024, max_backups = 5, max_age = Some (30 * 86400 * 1000000000)\<rparr>"

record logger =
  lg_path :: ustring
  lg_key :: audit_key
  lg_kid :: ustring
  lg_previous :: "nat list"
  lg_file :: bool
  lg_rotation :: rotation_config

fun last_hmac_loop :: "audit_libs \<Rightarrow> nat list list \<Rightarrow> nat list \<Rightarrow> io_error + nat list" where
  "last_hmac_loop L [] acc = Inr acc"
| "last_hmac_loop L (l # ls) acc =
     (case utf8_decode l of
        None \<Rightarrow> Inl (IoError InvalidData (lit ''stream did not contain valid UTF-8''))
      | Some t \<Rightarrow>
          (case al_of_json L (trim t) of
             None \<Rightarrow> last_hmac_loop L ls acc
           | Some e \<Rightarrow>
               if en_hmac e = [] then last_hmac_loop L ls acc
               else (case hex_decode (en_hmac e) of
                       Inl _ \<Rightarrow> Inl (IoPanic (lit ''byte index is not a char boundary''))
                     | Inr v \<Rightarrow> last_hmac_loop L ls (case v of Some b \<Rightarrow> b | None \<Rightarrow> []))))"

definition last_hmac :: "audit_libs \<Rightarrow> io_env \<Rightarrow> ustring \<Rightarrow> adir \<Rightarrow> io_error + nat list" where
  "last_hmac L E name d =
     (case map_of d name of
        None \<Rightarrow> Inr []
      | Some f \<Rightarrow> res_bind (io_try E ReadLog) (\<lambda>_. last_hmac_loop L (byte_lines (af_data f)) []))"

definition touch :: "int \<Rightarrow> ustring \<Rightarrow> adir \<Rightarrow> adir" where
  "touch now name d = (if map_of d name = None then fs_write now name [] d else d)"

definition logger_open ::
  "audit_libs \<Rightarrow> io_env \<Rightarrow> ustring \<Rightarrow> audit_key \<Rightarrow> rotation_config \<Rightarrow> adir \<Rightarrow> (io_error + logger) \<times> adir" where
  "logger_open L E name key rotation d =
     (case res_bind (io_try E CreateDir) (\<lambda>_. res_bind (last_hmac L E name d) (\<lambda>p.
             res_bind (io_try E OpenLog) (\<lambda>_. Inr p))) of
        Inl e \<Rightarrow> (Inl e, d)
      | Inr p \<Rightarrow>
          (Inr \<lparr>lg_path = name, lg_key = key, lg_kid = key_fingerprint L key, lg_previous = p,
                lg_file = True, lg_rotation = rotation\<rparr>, touch (io_now E ClockWrite) name d))"

definition stamp_date :: "nat \<Rightarrow> int \<times> int \<times> int" where
  "stamp_date days = civil_from_days (int days)"

definition timestamp_stamp :: "int \<Rightarrow> ustring" where
  "timestamp_stamp when =
     (let seconds = nat (max 0 when) div 1000000000;
          remainder = seconds mod 86400
      in case stamp_date (seconds div 86400) of
           (year, month, day) \<Rightarrow>
             pad 4 (nat year) @ pad 2 (nat month) @ pad 2 (nat day) @ ch_minus #
             pad 2 (remainder div 3600) @ pad 2 (remainder mod 3600 div 60) @ pad 2 (remainder mod 60))"

fun log_retain :: "io_env \<Rightarrow> nat \<Rightarrow> int option \<Rightarrow> nat \<Rightarrow> adir \<Rightarrow> adir \<Rightarrow> adir" where
  "log_retain E delete_count age index [] d = d"
| "log_retain E delete_count age index ((name, f) # files) d =
     log_retain E delete_count age (Suc index) files
       (if index < delete_count \<or> too_old E age f then remove_file E name d else d)"

definition enforce_log_retention :: "io_env \<Rightarrow> logger \<Rightarrow> adir \<Rightarrow> (io_error + unit) \<times> adir" where
  "enforce_log_retention E lg d =
     (case rotated_files E (lg_path lg @ ROTATED_MARKER) d of
        Inl e \<Rightarrow> (Inl e, d)
      | Inr files \<Rightarrow>
          (Inr (), log_retain E (length files - max_backups (lg_rotation lg)) (max_age (lg_rotation lg)) 0 files d))"

definition log_size :: "ustring \<Rightarrow> adir \<Rightarrow> nat" where
  "log_size name d = (case map_of d name of None \<Rightarrow> 0 | Some f \<Rightarrow> length (af_data f))"

definition logger_rotate_at ::
  "io_env \<Rightarrow> int \<Rightarrow> logger \<times> adir \<Rightarrow> (io_error + unit) \<times> logger \<times> adir" where
  "logger_rotate_at E when S =
     (case S of (lg, d) \<Rightarrow>
        if \<not> lg_file lg \<or> io_fault E StatLen \<noteq> None \<or> log_size (lg_path lg) d = 0 then (Inr (), lg, d)
        else (case io_try E Gate of
          Inl e \<Rightarrow> (Inl e, lg, d)
        | Inr _ \<Rightarrow>
            (case res_bind (io_try E SyncAll) (\<lambda>_. io_try E RenameLog) of
               Inl e \<Rightarrow> (Inl e, lg\<lparr>lg_file := False\<rparr>, d)
             | Inr _ \<Rightarrow>
                 (let d' = fs_rename (lg_path lg) (lg_path lg @ ROTATED_MARKER @ timestamp_stamp when) d
                  in case io_try E ReopenLog of
                       Inl e \<Rightarrow> (Inl e, lg\<lparr>lg_file := False\<rparr>, d')
                     | Inr _ \<Rightarrow>
                         (let d'' = touch (io_now E ClockWrite) (lg_path lg) d'
                          in case enforce_log_retention E lg d'' of (r, d3) \<Rightarrow> (r, lg\<lparr>lg_file := True\<rparr>, d3))))))"

definition rotation_due :: "io_env \<Rightarrow> logger \<Rightarrow> adir \<Rightarrow> bool" where
  "rotation_due E lg d \<longleftrightarrow>
     lg_file lg \<and>
     (case map_of d (lg_path lg) of
        None \<Rightarrow> False
      | Some f \<Rightarrow>
          (io_fault E StatSize = None \<and> max_file_size (lg_rotation lg) \<le> length (af_data f)) \<or>
          (io_fault E StatAge = None \<and>
           (case max_age (lg_rotation lg) of
              None \<Rightarrow> False | Some age \<Rightarrow> age \<le> max 0 (io_now E ClockAge - af_mtime f))))"

definition fs_append :: "int \<Rightarrow> ustring \<Rightarrow> nat list \<Rightarrow> adir \<Rightarrow> adir" where
  "fs_append now name b d =
     fs_write now name ((case map_of d name of None \<Rightarrow> [] | Some f \<Rightarrow> af_data f) @ b) d"

definition signed_entry :: "audit_libs \<Rightarrow> logger \<Rightarrow> log_entry \<Rightarrow> log_entry" where
  "signed_entry L lg e0 =
     (let e1 = (if en_timestamp e0 = [] then e0\<lparr>en_timestamp := lit ''1970-01-01T00:00:00Z''\<rparr> else e0);
          e2 = e1\<lparr>en_kid := lg_kid lg\<rparr>
      in e2\<lparr>en_hmac := compute_hmac L (lg_key lg) (lg_previous lg) e2\<rparr>)"

definition write_entry ::
  "audit_libs \<Rightarrow> io_env \<Rightarrow> log_entry \<Rightarrow> logger \<times> adir \<Rightarrow> (io_error + unit) \<times> logger \<times> adir" where
  "write_entry L E e0 S =
     (case S of (lg, d) \<Rightarrow>
        let e = signed_entry L lg e0; put = fs_append (io_now E ClockWrite) (lg_path lg)
        in case al_to_json L e of
             None \<Rightarrow> (Inl (io_other (lit ''serialization failed'')), lg, d)
           | Some b \<Rightarrow>
               if \<not> lg_file lg then (Inl (io_other (lit ''audit logger is closed'')), lg, d)
               else (case io_try E WriteEntry of
                 Inl err \<Rightarrow> (Inl err, lg, put (take (io_torn E) b) d)
               | Inr _ \<Rightarrow>
                   (case io_try E WriteNewline of
                      Inl err \<Rightarrow> (Inl err, lg, put b d)
                    | Inr _ \<Rightarrow>
                        (case io_try E SyncData of
                           Inl err \<Rightarrow> (Inl err, lg, put (b @ [10]) d)
                         | Inr _ \<Rightarrow>
                             (case decode_computed (en_hmac e) of
                                Inl _ \<Rightarrow> (Inl (IoPanic (lit ''computed HMAC is valid hex'')), lg, put (b @ [10]) d)
                              | Inr p \<Rightarrow> (Inr (), lg\<lparr>lg_previous := p\<rparr>, put (b @ [10]) d))))))"

definition logger_append ::
  "audit_libs \<Rightarrow> io_env \<Rightarrow> log_entry \<Rightarrow> logger \<times> adir \<Rightarrow> (io_error + unit) \<times> logger \<times> adir" where
  "logger_append L E e S =
     (if rotation_due E (fst S) (snd S)
      then (case logger_rotate_at E (io_now E ClockRotate) S of
              (Inl err, S') \<Rightarrow> (Inl err, S')
            | (Inr _, S') \<Rightarrow> write_entry L E e S')
      else write_entry L E e S)"

definition bad_agent_name :: "ustring \<Rightarrow> bool" where
  "bad_agent_name agent \<longleftrightarrow>
     ch_slash \<in> set agent \<or> ch_backslash \<in> set agent \<or> sublist (lit ''..'') agent \<or> agent = lit ''.''"

definition open_with_keyring ::
  "audit_libs \<Rightarrow> io_env \<Rightarrow> 's keyring \<Rightarrow> bool \<Rightarrow> ustring option \<Rightarrow> ustring \<Rightarrow> rotation_config \<Rightarrow> 's \<Rightarrow> adir \<Rightarrow>
   (io_error + logger) \<times> 's \<times> adir" where
  "open_with_keyring L E K is_dir directory agent rotation s d =
     (if bad_agent_name agent then (Inl (IoError InvalidInput (lit ''invalid audit agent name'')), s, d)
      else (case load_or_create_key_with_keyring E K is_dir directory s d of
        (Inl e, s', d') \<Rightarrow> (Inl e, s', d')
      | (Inr key, s', d') \<Rightarrow>
          (case logger_open L E (LOG_PREFIX @ agent @ LOG_SUFFIX) key rotation d' of
             (r, d'') \<Rightarrow> (r, s', d''))))"

section \<open>Export\<close>

record export_entry =
  xe_entry :: log_entry
  xe_verify_status :: ustring
  xe_redacted_path :: ustring
  xe_original_index :: nat
  xe_source_file :: ustring

record export_options =
  xo_action :: "ustring option"
  xo_failed_only :: bool
  xo_redact_paths :: bool
  xo_verify_hmac :: bool

record export_result =
  xr_entries :: "export_entry list"
  xr_total :: nat
  xr_verified :: nat
  xr_legacy :: nat
  xr_tampered :: nat

definition redact_path :: "audit_libs \<Rightarrow> ustring \<Rightarrow> ustring" where
  "redact_path L path =
     (if path = [] then [] else lit ''redacted:'' @ encode_hex (take 6 (al_sha256 L (as_bytes path))))"

definition export_paths :: "ustring \<Rightarrow> adir \<Rightarrow> adir" where
  "export_paths current d =
     sort_key (\<lambda>(name, f). (name = current, name))
       (filter (\<lambda>(name, f). name = current \<or> starts_with (current @ ROTATED_MARKER) name) d)"

definition export_sources :: "audit_libs \<Rightarrow> adir \<Rightarrow> (log_entry \<times> ustring) list" where
  "export_sources L files =
     concat (map (\<lambda>(name, f). map (\<lambda>e. (e, name)) (parse_entries L (af_data f))) files)"

definition export_row ::
  "audit_libs \<Rightarrow> export_options \<Rightarrow> nat \<times> (log_entry \<times> ustring) \<times> ustring \<Rightarrow> export_entry" where
  "export_row L opts = (\<lambda>(index, (e, source), status).
     if xo_redact_paths opts
     then \<lparr>xe_entry = e\<lparr>en_path := []\<rparr>, xe_verify_status = status, xe_redacted_path = redact_path L (en_path e),
           xe_original_index = index, xe_source_file = source\<rparr>
     else \<lparr>xe_entry = e, xe_verify_status = status, xe_redacted_path = [],
           xe_original_index = index, xe_source_file = source\<rparr>)"

definition export_excluded :: "export_options \<Rightarrow> log_entry \<Rightarrow> bool" where
  "export_excluded opts e \<longleftrightarrow>
     xo_failed_only opts \<and> en_ok e \<or> (case xo_action opts of None \<Rightarrow> False | Some a \<Rightarrow> a \<noteq> en_action e)"

definition count_status :: "ustring \<Rightarrow> export_entry list \<Rightarrow> nat" where
  "count_status st rows = length (filter (\<lambda>r. xe_verify_status r = st) rows)"

definition export_directory ::
  "audit_libs \<Rightarrow> io_env \<Rightarrow> ustring \<Rightarrow> export_options \<Rightarrow> key_map \<Rightarrow> ustring \<Rightarrow> adir \<Rightarrow> io_error + export_result" where
  "export_directory L E agent opts keys current_kid d =
     res_bind (io_try E ReadDir) (\<lambda>_.
       let files = export_paths (LOG_PREFIX @ agent @ LOG_SUFFIX) (io_order E d)
       in res_bind (if files = [] then Inr () else io_try E ReadExport) (\<lambda>_.
         let sources = export_sources L files; entries = map fst sources
         in res_bind (if xo_verify_hmac opts
                      then (case verify_entries L entries keys current_kid of
                              Inl _ \<Rightarrow> Inl (IoPanic (lit ''byte index is not a char boundary''))
                            | Inr (_, statuses) \<Rightarrow> Inr statuses)
                      else Inr (replicate (length entries) [])) (\<lambda>statuses.
           let rows = map (export_row L opts)
                 (filter (\<lambda>(index, (e, source), status). \<not> export_excluded opts e)
                   (zip [0..<length entries] (zip sources statuses)))
           in Inr \<lparr>xr_entries = rows, xr_total = length rows, xr_verified = count_status status_verified rows,
                   xr_legacy = count_status status_legacy rows, xr_tampered = count_status status_tampered rows\<rparr>)))"

section \<open>Key rotation loses no key\<close>

lemma decode_key_encode: "\<forall>b \<in> set bs. b < 256 \<Longrightarrow> decode_hex_key (encode_hex bs) = Inr bs"
proof -
  have "decode_key_pairs (encode_hex bs) = Inr bs" if "\<forall>b \<in> set bs. b < 256" for bs
    using that
  proof (induction bs)
    case (Cons b bs)
    then have "b div 16 < 16" by auto
    with Cons show ?case by simp
  qed simp
  then show "\<forall>b \<in> set bs. b < 256 \<Longrightarrow> decode_hex_key (encode_hex bs) = Inr bs"
    by (simp add: decode_hex_key_def)
qed

lemma map_of_fs_write [simp]:
  "map_of (fs_write now name b d) n = (if n = name then Some \<lparr>af_data = b, af_mtime = now\<rparr> else map_of d n)"
  by (simp add: fs_write_def update_conv')

lemma map_of_delete [simp]: "map_of (AList.delete k d) n = (if n = k then None else map_of d n)"
  by (simp add: AList.delete_conv')

lemma archive_name_not_key: "archive_name L key \<noteq> KEY_FILE"
  by (auto simp: archive_name_def ROTATED_MARKER_def)

lemma map_of_remove_legacy [simp]: "n \<noteq> KEY_FILE \<Longrightarrow> map_of (remove_legacy E d) n = map_of d n"
  by (simp add: remove_legacy_def)

context lawful_keyring
begin

lemma store_rotated_key_keeps:
  assumes "store_rotated_key E K address archive legacy s d = (r, s', d')"
  shows "kr_get K s' address = kr_get K s address \<or>
    (\<forall>n. n \<noteq> KEY_FILE \<longrightarrow> map_of d' n = map_of d n)"
proof (cases "random_key E")
  case (Inr b)
  show ?thesis
  proof (cases "kr_set K s address (encode_hex b)")
    case (Pair w s1)
    show ?thesis
    proof (cases w)
      case (Inl e)
      with Pair Inr assms set_err [of s address "encode_hex b" e s1] show ?thesis
        by (auto simp: store_rotated_key_def)
    next
      case (Inr u)
      with Pair \<open>random_key E = _\<close> assms show ?thesis by (auto simp: store_rotated_key_def split: if_splits)
    qed
  qed
qed (use assms in \<open>auto simp: store_rotated_key_def\<close>)

lemma rotate_key_keeps:
  assumes "keyring_address directory = Inr address" "kr_get K s address = Inr (encode_hex old)"
    and "length old = 32" "\<forall>b \<in> set old. b < 256"
    and "rotate_key_with_keyring L E K directory s d = (r, s', d')"
  shows "kr_get K s' address = Inr (encode_hex old) \<or>
    (\<exists>f. map_of d' (archive_name L old) = Some f \<and> decode_hex_key (af_data f) = Inr old)"
proof -
  define name where "name = archive_name L old"
  have old: "old_audit_key E K address s d = Inr (Some (old, False))"
    using assms(2,4) by (simp add: old_audit_key_def decode_key_encode)
  have key: "audit_key_new old = Inr old" using assms(3) by (simp add: audit_key_new_def HMAC_KEY_BYTES_def)
  obtain w d1 where w: "write_hex_key_file E name (encode_hex old) d = (w, d1)" by fastforce
  show ?thesis
  proof (cases w)
    case (Inl e)
    with assms(1,2,5) old key w show ?thesis by (simp add: rotate_key_with_keyring_def name_def [symmetric] Let_def)
  next
    case (Inr u)
    with w have "map_of d1 name = Some \<lparr>af_data = encode_hex old, af_mtime = io_now E ClockWrite\<rparr>"
      by (auto simp: write_hex_key_file_def io_try_def split: option.splits)
    moreover from Inr assms(1,5) old key w
    have "store_rotated_key E K address (Some name) False s d1 = (r, s', d')"
      by (simp add: rotate_key_with_keyring_def name_def [symmetric] Let_def)
    from store_rotated_key_keeps [OF this]
    have "kr_get K s' address = kr_get K s address \<or> map_of d' name = map_of d1 name"
      using archive_name_not_key [of L old] by (auto simp: name_def)
    ultimately show ?thesis using assms(2,4) by (auto simp: name_def decode_key_encode)
  qed
qed

end

text \<open>
  C27. Rotating the HMAC key never loses the old one: whichever calls into the keyring, the file
  system and the random source fail, afterwards the keyring still holds the old key, or the archive
  file named after its fingerprint decodes to it.
\<close>

theorem rotate_key_keeps_old_key:
  assumes "lawful_keyring K"
    and "keyring_address directory = Inr address" "kr_get K s address = Inr (encode_hex old)"
    and "length old = 32" "\<forall>b \<in> set old. b < 256"
    and "rotate_key_with_keyring L E K directory s d = (r, s', d')"
  shows "kr_get K s' address = Inr (encode_hex old) \<or>
    (\<exists>f. map_of d' (archive_name L old) = Some f \<and> decode_hex_key (af_data f) = Inr old)"
  by (rule lawful_keyring.rotate_key_keeps [OF assms])

section \<open>Files of the logger\<close>

text \<open>
  The JSON encoder of the source prints an entry as one line of UTF-8 that the decoder reads back.
\<close>

definition line_of :: "audit_libs \<Rightarrow> log_entry \<Rightarrow> nat list" where
  "line_of L e = (case al_to_json L e of Some b \<Rightarrow> b | None \<Rightarrow> [])"

definition codec_ok :: "audit_libs \<Rightarrow> bool" where
  "codec_ok L \<longleftrightarrow>
     (\<forall>e. \<exists>b t. al_to_json L e = Some b \<and> 10 \<notin> set b \<and> 13 \<notin> set b \<and> utf8_decode b = Some t \<and>
        t \<noteq> [] \<and> trim t = t \<and> al_of_json L t = Some e)"

definition log_data :: "audit_libs \<Rightarrow> log_entry list \<Rightarrow> nat list" where
  "log_data L es = concat (map (\<lambda>e. line_of L e @ [10]) es)"

lemma byte_lines_Cons: "10 \<notin> set b \<Longrightarrow> 13 \<notin> set b \<Longrightarrow> byte_lines (b @ 10 # r) = b # byte_lines r"
proof -
  assume h: "10 \<notin> set b" "13 \<notin> set b"
  have "strip_cr b = b" using h(2) by (cases "b = []") (auto simp: strip_cr_def dest: last_in_set)
  then show ?thesis using h(1) by (simp add: byte_lines_def split_on_append_sep Let_def)
qed

lemma parse_log_data: "codec_ok L \<Longrightarrow> parse_entries L (log_data L es) = es"
proof (induction es)
  case Nil
  show ?case by (simp add: log_data_def parse_entries_def byte_lines_def)
next
  case (Cons e es)
  from Cons.prems obtain b t where b: "al_to_json L e = Some b" "10 \<notin> set b" "13 \<notin> set b"
    "utf8_decode b = Some t" "t \<noteq> []" "trim t = t" "al_of_json L t = Some e"
    unfolding codec_ok_def by blast
  have "log_data L (e # es) = b @ 10 # log_data L es" by (simp add: log_data_def line_of_def b(1))
  with b Cons show ?case
    by (simp add: parse_entries_def byte_lines_Cons entry_of_line_def)
qed

lemma log_data_snoc: "log_data L (es @ [e]) = log_data L es @ line_of L e @ [10]"
  by (simp add: log_data_def)

fun chain_end :: "audit_libs \<Rightarrow> audit_key \<Rightarrow> nat list \<Rightarrow> log_entry list \<Rightarrow> nat list" where
  "chain_end L key p [] = p"
| "chain_end L key p (e # es) = chain_end L key (al_hmac_sha256 L key (p @ canonical_json L e)) es"

lemma chain_end_append: "chain_end L key p (xs @ ys) = chain_end L key (chain_end L key p xs) ys"
  by (induction xs arbitrary: p) simp_all

lemma written_chain_append:
  "written_chain L key p (xs @ ys) \<longleftrightarrow> written_chain L key p xs \<and> written_chain L key (chain_end L key p xs) ys"
  by (induction xs arbitrary: p) auto

lemma canonical_ignores_hmac [simp]: "canonical_json L (e\<lparr>en_hmac := h\<rparr>) = canonical_json L e"
  by (simp add: canonical_json_def)

lemma signed_entry_written:
  assumes "lg_kid lg = key_fingerprint L (lg_key lg)"
  shows "written_chain L (lg_key lg) (lg_previous lg) [signed_entry L lg e]"
  using assms by (simp add: signed_entry_def Let_def compute_hmac_def)

text \<open>The names of rotated logs, their entries and the entries of the current log.\<close>

definition rotated_name :: "ustring \<Rightarrow> ustring \<Rightarrow> bool" where
  "rotated_name path n \<longleftrightarrow> starts_with (path @ ROTATED_MARKER) n"

lemma rotated_name_simps [simp]: "rotated_name path (path @ ROTATED_MARKER @ s)" "\<not> rotated_name path path"
proof -
  show "rotated_name path (path @ ROTATED_MARKER @ s)"
    by (simp add: rotated_name_def starts_with_def append_assoc [symmetric] del: append_assoc)
  have "ROTATED_MARKER \<noteq> []" by (simp add: ROTATED_MARKER_def)
  then show "\<not> rotated_name path path"
    by (auto simp: rotated_name_def starts_with_iff)
qed

definition log_files ::
  "audit_libs \<Rightarrow> ustring \<Rightarrow> adir \<Rightarrow> ustring list \<Rightarrow> log_entry list list \<Rightarrow> log_entry list \<Rightarrow> bool" where
  "log_files L path d names chunks cur \<longleftrightarrow>
     distinct (map fst d) \<and> sorted_wrt (<) names \<and>
     (\<forall>n. n \<in> set names \<longleftrightarrow> rotated_name path n \<and> map_of d n \<noteq> None) \<and>
     list_all2 (\<lambda>n c. \<exists>f. map_of d n = Some f \<and> af_data f = log_data L c) names chunks \<and>
     (\<exists>f. map_of d path = Some f \<and> af_data f = log_data L cur)"

definition clean_env :: "io_env \<Rightarrow> bool" where
  "clean_env E \<longleftrightarrow> io_fault E = (\<lambda>_. None) \<and> (\<forall>d. mset (io_order E d) = mset d)"

lemma clean_try [simp]: "clean_env E \<Longrightarrow> io_try E site = Inr ()"
  by (simp add: clean_env_def io_try_def)

lemma clean_fault [simp]: "clean_env E \<Longrightarrow> io_fault E site = None"
  by (simp add: clean_env_def)

lemma clean_order: "clean_env E \<Longrightarrow> set (io_order E d) = set d"
  unfolding clean_env_def by (metis set_mset_mset)

text \<open>Writing an entry adds it to the current log and moves the chain on.\<close>

lemma log_files_append:
  assumes "log_files L path d names chunks cur"
  shows "log_files L path (fs_append now path (line_of L e @ [10]) d) names chunks (cur @ [e])"
proof -
  from assms obtain f where f: "map_of d path = Some f" "af_data f = log_data L cur"
    by (auto simp: log_files_def)
  let ?d = "fs_append now path (line_of L e @ [10]) d"
  have m: "map_of ?d n = (if n = path then Some \<lparr>af_data = log_data L (cur @ [e]), af_mtime = now\<rparr> else map_of d n)" for n
    using f by (simp add: fs_append_def log_data_snoc)
  have "distinct (map fst ?d)" using assms by (simp add: log_files_def fs_append_def fs_write_def distinct_update)
  moreover have "path \<notin> set names" using assms by (auto simp: log_files_def)
  then have "list_all2 (\<lambda>n c. \<exists>f. map_of ?d n = Some f \<and> af_data f = log_data L c) names chunks"
    using assms unfolding log_files_def m by (auto elim!: list.rel_mono_strong)
  ultimately show ?thesis using assms unfolding log_files_def m by auto
qed

lemma write_entry_clean:
  assumes "clean_env E" "macs_ok L" "codec_ok L" "lg_file lg"
  shows "write_entry L E e (lg, d) =
    (Inr (), lg\<lparr>lg_previous := al_hmac_sha256 L (lg_key lg) (lg_previous lg @ canonical_json L (signed_entry L lg e))\<rparr>,
     fs_append (io_now E ClockWrite) (lg_path lg) (line_of L (signed_entry L lg e) @ [10]) d)"
proof -
  from assms(3) obtain b where b: "al_to_json L (signed_entry L lg e) = Some b" unfolding codec_ok_def by blast
  have "decode_computed (en_hmac (signed_entry L lg e)) =
      Inr (al_hmac_sha256 L (lg_key lg) (lg_previous lg @ canonical_json L (signed_entry L lg e)))"
    using assms(2) by (simp add: signed_entry_def Let_def)
  with b assms(1,4) show ?thesis by (simp add: write_entry_def Let_def line_of_def)
qed

text \<open>
  A rotation that keeps all files: the target name follows those of the earlier rotations, which the
  clock gives when it moves on by a second, and retention has nothing to remove.
\<close>

definition rotation_target :: "io_env \<Rightarrow> logger \<Rightarrow> ustring" where
  "rotation_target E lg = lg_path lg @ ROTATED_MARKER @ timestamp_stamp (io_now E ClockRotate)"

definition rotated_dir :: "io_env \<Rightarrow> logger \<Rightarrow> adir \<Rightarrow> adir" where
  "rotated_dir E lg d =
     touch (io_now E ClockWrite) (lg_path lg) (fs_rename (lg_path lg) (rotation_target E lg) d)"

definition keeps_all :: "io_env \<Rightarrow> logger \<Rightarrow> adir \<Rightarrow> bool" where
  "keeps_all E lg d \<longleftrightarrow>
     (\<forall>(n, f) \<in> set d. rotated_name (lg_path lg) n \<longrightarrow> n < rotation_target E lg) \<and>
     (let files = filter (\<lambda>(n, f). rotated_name (lg_path lg) n) (rotated_dir E lg d)
      in length files \<le> max_backups (lg_rotation lg) \<and>
         (\<forall>(n, f) \<in> set files. \<not> too_old E (max_age (lg_rotation lg)) f))"

lemma log_retain_none: "\<forall>(n, f) \<in> set files. \<not> too_old E age f \<Longrightarrow> log_retain E 0 age i files d = d"
  by (induction files arbitrary: i) auto

lemma rotated_files_clean:
  assumes "clean_env E"
  shows "\<exists>files. rotated_files E (path @ ROTATED_MARKER) d = Inr files \<and>
    mset files = mset (filter (\<lambda>(n, f). rotated_name path n) d)"
proof -
  have "mset (io_order E d) = mset d" using assms by (simp add: clean_env_def)
  then have "mset (filter (\<lambda>(n, f). rotated_name path n) (io_order E d)) = mset (filter (\<lambda>(n, f). rotated_name path n) d)"
    by (simp only: mset_filter)
  then show ?thesis using assms by (simp add: rotated_files_def rotated_name_def Let_def)
qed

lemma enforce_keeps_all:
  assumes "clean_env E" "keeps_all E lg d"
  shows "enforce_log_retention E lg (rotated_dir E lg d) = (Inr (), rotated_dir E lg d)"
proof -
  obtain files where f: "rotated_files E (lg_path lg @ ROTATED_MARKER) (rotated_dir E lg d) = Inr files"
      "mset files = mset (filter (\<lambda>(n, f). rotated_name (lg_path lg) n) (rotated_dir E lg d))"
    using rotated_files_clean [OF assms(1)] by blast
  then have "length files \<le> max_backups (lg_rotation lg)"
    "\<forall>(n, f) \<in> set files. \<not> too_old E (max_age (lg_rotation lg)) f"
    using assms(2) mset_eq_length [OF f(2)] mset_eq_setD [OF f(2)] by (auto simp: keeps_all_def Let_def)
  then show ?thesis using f(1) by (simp add: enforce_log_retention_def log_retain_none)
qed

lemma rotate_clean:
  assumes "clean_env E" "lg_file lg" "log_size (lg_path lg) d \<noteq> 0" "keeps_all E lg d"
  shows "logger_rotate_at E (io_now E ClockRotate) (lg, d) = (Inr (), lg, rotated_dir E lg d)"
  using assms enforce_keeps_all [OF assms(1,4)]
  by (simp add: logger_rotate_at_def rotated_dir_def rotation_target_def Let_def)

lemma map_of_rotated_dir:
  assumes "map_of d (lg_path lg) = Some f"
  shows "map_of (rotated_dir E lg d) n =
    (if n = lg_path lg then Some \<lparr>af_data = [], af_mtime = io_now E ClockWrite\<rparr>
     else if n = rotation_target E lg then Some f else map_of d n)"
proof -
  have "ROTATED_MARKER \<noteq> []" by (simp add: ROTATED_MARKER_def)
  then have "rotation_target E lg \<noteq> lg_path lg" by (simp add: rotation_target_def)
  then show ?thesis using assms by (simp add: rotated_dir_def fs_rename_def touch_def update_conv')
qed

lemma distinct_rotated_dir: "distinct (map fst d) \<Longrightarrow> distinct (map fst (rotated_dir E lg d))"
  by (auto simp: rotated_dir_def fs_rename_def touch_def fs_write_def distinct_update distinct_delete split: option.splits)

lemma log_files_rotate:
  assumes "log_files L (lg_path lg) d names chunks cur" "keeps_all E lg d"
  shows "log_files L (lg_path lg) (rotated_dir E lg d) (names @ [rotation_target E lg]) (chunks @ [cur]) []"
proof -
  let ?t = "rotation_target E lg" and ?d = "rotated_dir E lg d"
  from assms(1) obtain f where f: "map_of d (lg_path lg) = Some f" "af_data f = log_data L cur"
    by (auto simp: log_files_def)
  note m = map_of_rotated_dir [OF f(1)]
  have less: "n < ?t" if "n \<in> set names" for n
    using assms that unfolding log_files_def keeps_all_def by (fastforce dest: map_of_SomeD)
  have rot: "rotated_name (lg_path lg) ?t" by (simp add: rotation_target_def)
  have ne: "lg_path lg \<notin> set names" "?t \<notin> set names" using assms(1) less by (auto simp: log_files_def)
  have "list_all2 (\<lambda>n c. \<exists>f. map_of ?d n = Some f \<and> af_data f = log_data L c) names chunks"
    using assms(1) ne unfolding log_files_def m by (auto elim!: list.rel_mono_strong)
  moreover have "?t \<noteq> lg_path lg" using rot by auto
  then have "\<exists>g. map_of ?d ?t = Some g \<and> af_data g = log_data L cur" using f by (simp add: m)
  ultimately have "list_all2 (\<lambda>n c. \<exists>f. map_of ?d n = Some f \<and> af_data f = log_data L c) (names @ [?t]) (chunks @ [cur])"
    by (intro list_all2_appendI) auto
  moreover have "sorted_wrt (<) (names @ [?t])" using assms(1) less by (auto simp: log_files_def sorted_wrt_append)
  moreover have "n \<in> set (names @ [?t]) \<longleftrightarrow> rotated_name (lg_path lg) n \<and> map_of ?d n \<noteq> None" for n
    using assms(1) rot by (auto simp: log_files_def m)
  moreover have "distinct (map fst ?d)" using assms(1) by (simp add: log_files_def distinct_rotated_dir)
  ultimately show ?thesis by (auto simp: log_files_def m log_data_def)
qed

text \<open>A run of the logger: each append in a clean environment that loses no file.\<close>

inductive log_run :: "audit_libs \<Rightarrow> logger \<times> adir \<Rightarrow> log_entry list \<Rightarrow> logger \<times> adir \<Rightarrow> bool" for L S0 where
  log_run_start: "log_run L S0 [] S0"
| log_run_append: "log_run L S0 es S \<Longrightarrow> clean_env E \<Longrightarrow>
     (rotation_due E (fst S) (snd S) \<longrightarrow> log_size (lg_path (fst S)) (snd S) = 0 \<or> keeps_all E (fst S) (snd S)) \<Longrightarrow>
     logger_append L E e S = (r, S') \<Longrightarrow> log_run L S0 (es @ [e]) S'"

text \<open>What an entry says, apart from what the logger adds.\<close>

definition said :: "log_entry \<Rightarrow> log_entry" where
  "said e = e\<lparr>en_timestamp := (if en_timestamp e = [] then lit ''1970-01-01T00:00:00Z'' else en_timestamp e),
              en_kid := [], en_hmac := []\<rparr>"

definition log_inv :: "audit_libs \<Rightarrow> logger \<Rightarrow> log_entry list \<Rightarrow> logger \<times> adir \<Rightarrow> bool" where
  "log_inv L lg0 es S \<longleftrightarrow>
     (case S of (lg, d) \<Rightarrow>
        lg_file lg \<and> lg_path lg = lg_path lg0 \<and> lg_key lg = lg_key lg0 \<and> lg_kid lg = key_fingerprint L (lg_key lg0) \<and>
        (\<exists>names chunks cur hist. log_files L (lg_path lg) d names chunks cur \<and> hist = concat chunks @ cur \<and>
           map said hist = map said es \<and> written_chain L (lg_key lg) [] hist \<and>
           lg_previous lg = chain_end L (lg_key lg) [] hist))"

lemma said_signed: "said (signed_entry L lg e) = said e"
  by (simp add: said_def signed_entry_def Let_def)

lemma log_invI:
  assumes "lg_file lg" "lg_path lg = lg_path lg0" "lg_key lg = lg_key lg0" "lg_kid lg = key_fingerprint L (lg_key lg0)"
    and "log_files L (lg_path lg) d names chunks cur" "map said (concat chunks @ cur) = map said es"
    and "written_chain L (lg_key lg) [] (concat chunks @ cur)"
    and "lg_previous lg = chain_end L (lg_key lg) [] (concat chunks @ cur)"
  shows "log_inv L lg0 es (lg, d)"
  unfolding log_inv_def prod.case using assms by blast

lemma log_invE:
  assumes "log_inv L lg0 es (lg, d)"
  obtains names chunks cur where "lg_file lg" "lg_path lg = lg_path lg0" "lg_key lg = lg_key lg0"
    "lg_kid lg = key_fingerprint L (lg_key lg0)" "log_files L (lg_path lg) d names chunks cur"
    "map said (concat chunks @ cur) = map said es" "written_chain L (lg_key lg) [] (concat chunks @ cur)"
    "lg_previous lg = chain_end L (lg_key lg) [] (concat chunks @ cur)"
  using assms unfolding log_inv_def prod.case by blast

lemma log_inv_write:
  assumes "clean_env E" "macs_ok L" "codec_ok L" "log_inv L lg0 es (lg, d)"
  shows "\<exists>S'. write_entry L E e (lg, d) = (Inr (), S') \<and> log_inv L lg0 (es @ [e]) S'"
proof -
  from assms(4) obtain names chunks cur where i: "lg_file lg" "lg_path lg = lg_path lg0" "lg_key lg = lg_key lg0"
      "lg_kid lg = key_fingerprint L (lg_key lg0)" "log_files L (lg_path lg) d names chunks cur"
      "map said (concat chunks @ cur) = map said es" "written_chain L (lg_key lg) [] (concat chunks @ cur)"
      "lg_previous lg = chain_end L (lg_key lg) [] (concat chunks @ cur)"
    by (rule log_invE)
  define e' where "e' = signed_entry L lg e"
  define lg' where "lg' = lg\<lparr>lg_previous := al_hmac_sha256 L (lg_key lg) (lg_previous lg @ canonical_json L e')\<rparr>"
  let ?d = "fs_append (io_now E ClockWrite) (lg_path lg) (line_of L e' @ [10]) d"
  have w: "written_chain L (lg_key lg) (lg_previous lg) [e']"
    unfolding e'_def using i(3,4) by (intro signed_entry_written) simp
  have "log_inv L lg0 (es @ [e]) (lg', ?d)"
  proof (rule log_invI)
    show "log_files L (lg_path lg') ?d names chunks (cur @ [e'])"
      using log_files_append [OF i(5)] by (simp add: lg'_def)
    show "map said (concat chunks @ cur @ [e']) = map said (es @ [e])"
      using i(6) by (simp add: e'_def said_signed)
    have "written_chain L (lg_key lg) [] ((concat chunks @ cur) @ [e'])"
      using i(7) w unfolding i(8) by (simp only: written_chain_append simp_thms)
    then show "written_chain L (lg_key lg') [] (concat chunks @ cur @ [e'])" by (simp add: lg'_def)
    have "lg_previous lg' = chain_end L (lg_key lg) [] ((concat chunks @ cur) @ [e'])"
      unfolding chain_end_append [of _ _ _ "concat chunks @ cur"] i(8) [symmetric] by (simp add: lg'_def)
    then show "lg_previous lg' = chain_end L (lg_key lg') [] (concat chunks @ cur @ [e'])" by (simp add: lg'_def)
  qed (use i in \<open>simp_all add: lg'_def\<close>)
  then show ?thesis using write_entry_clean [OF assms(1-3) i(1), of e d] unfolding lg'_def e'_def by blast
qed

lemma log_inv_rotate:
  assumes "clean_env E" "log_inv L lg0 es (lg, d)" "log_size (lg_path lg) d = 0 \<or> keeps_all E lg d"
  shows "\<exists>d'. logger_rotate_at E (io_now E ClockRotate) (lg, d) = (Inr (), lg, d') \<and> log_inv L lg0 es (lg, d')"
proof (cases "log_size (lg_path lg) d = 0")
  case True
  then show ?thesis using assms(2) by (simp add: logger_rotate_at_def)
next
  case False
  with assms(3) have keeps: "keeps_all E lg d" by simp
  from assms(2) obtain names chunks cur where i: "lg_file lg" "lg_path lg = lg_path lg0" "lg_key lg = lg_key lg0"
      "lg_kid lg = key_fingerprint L (lg_key lg0)" "log_files L (lg_path lg) d names chunks cur"
      "map said (concat chunks @ cur) = map said es" "written_chain L (lg_key lg) [] (concat chunks @ cur)"
      "lg_previous lg = chain_end L (lg_key lg) [] (concat chunks @ cur)"
    by (rule log_invE)
  have "log_inv L lg0 es (lg, rotated_dir E lg d)"
    by (rule log_invI [OF i(1-4) log_files_rotate [OF i(5) keeps]]) (use i(6-8) in simp_all)
  then show ?thesis using rotate_clean [OF assms(1) i(1) False keeps] by blast
qed

lemma log_inv_append:
  assumes "clean_env E" "macs_ok L" "codec_ok L" "log_inv L lg0 es S"
    and "rotation_due E (fst S) (snd S) \<longrightarrow> log_size (lg_path (fst S)) (snd S) = 0 \<or> keeps_all E (fst S) (snd S)"
  shows "\<exists>S'. logger_append L E e S = (Inr (), S') \<and> log_inv L lg0 (es @ [e]) S'"
proof -
  obtain lg d where S: "S = (lg, d)" by fastforce
  show ?thesis
  proof (cases "rotation_due E lg d")
    case False
    then show ?thesis using log_inv_write [OF assms(1-3), of lg0 es lg d e] assms(4) S by (simp add: logger_append_def)
  next
    case True
    with assms(5) S obtain d' where "logger_rotate_at E (io_now E ClockRotate) (lg, d) = (Inr (), lg, d')"
        "log_inv L lg0 es (lg, d')"
      using log_inv_rotate [OF assms(1), of L lg0 es lg d] assms(4) by auto
    then show ?thesis using log_inv_write [OF assms(1-3), of lg0 es lg d' e] True S by (simp add: logger_append_def)
  qed
qed

lemma log_run_inv:
  assumes "macs_ok L" "codec_ok L" "log_run L S0 es S" "log_inv L lg0 [] S0"
  shows "log_inv L lg0 es S"
  using assms(3)
proof induction
  case (log_run_append es S E e r S')
  from log_inv_append [OF log_run_append(2) assms(1,2) log_run_append(5) log_run_append(3), of e] log_run_append(4)
  show ?case by auto
qed (rule assms(4))

section \<open>Export of what was logged\<close>

lemma export_paths_log_files:
  assumes "log_files L path d0 names chunks cur" "mset d = mset d0"
  shows "export_paths path d = map (\<lambda>n. (n, the (map_of d0 n))) (names @ [path])"
proof (rule map_sorted_distinct_set_unique [where f = "\<lambda>(n, f). (n = path, n)"])
  let ?key = "\<lambda>(n, f). (n = path, n)" and ?ys = "map (\<lambda>n. (n, the (map_of d0 n))) (names @ [path])"
  have dis: "distinct (map fst d0)" "sorted_wrt (<) names" "path \<notin> set names"
    using assms(1) by (auto simp: log_files_def)
  have "distinct (map fst d)"
    using dis(1) mset_eq_imp_distinct_iff [of "map fst d" "map fst d0"] assms(2) by simp
  then have dk: "distinct (map fst (export_paths path d))" unfolding export_paths_def
    by (simp add: distinct_map_filter distinct_map inj_on_def split: prod.splits)
  show "sorted (map ?key (export_paths path d))" by (simp add: export_paths_def)
  have "map snd (map ?key (export_paths path d)) = map fst (export_paths path d)" by auto
  with dk have "distinct (map snd (map ?key (export_paths path d)))" by (simp only:)
  then show "distinct (map ?key (export_paths path d))" by (simp only: distinct_map [of snd])
  show "sorted (map ?key ?ys)" "distinct (map ?key ?ys)"
    using dis by (auto simp: sorted_wrt_append sorted_map comp_def less_eq_prod_def distinct_map inj_on_def
        strict_sorted_iff intro: sorted_wrt_mono_rel)
  have mem: "(n, f) \<in> set d \<longleftrightarrow> map_of d0 n = Some f" for n f
    using mset_eq_setD [OF assms(2)] dis(1) by auto
  show "set (export_paths path d) = set ?ys"
    using assms(1) unfolding export_paths_def rotated_name_def [symmetric]
    by (auto simp: mem log_files_def image_iff)
  show "inj_on ?key (set (export_paths path d) \<union> set ?ys)"
    unfolding export_paths_def by (auto simp: inj_on_def mem)
qed

lemma export_sources_log_files:
  assumes "codec_ok L" "log_files L path d names chunks cur"
  shows "map fst (export_sources L (map (\<lambda>n. (n, the (map_of d n))) (names @ [path]))) = concat chunks @ cur"
proof -
  have "list_all2 (\<lambda>n c. parse_entries L (af_data (the (map_of d n))) = c) names chunks"
    using assms(2) parse_log_data [OF assms(1)] unfolding log_files_def by (auto elim!: list_all2_mono)
  then have "map (\<lambda>n. parse_entries L (af_data (the (map_of d n)))) names = chunks"
    by (induction rule: list_all2_induct) auto
  moreover have "parse_entries L (af_data (the (map_of d path))) = cur"
    using assms(2) parse_log_data [OF assms(1)] by (auto simp: log_files_def)
  ultimately show ?thesis by (simp add: export_sources_def map_concat comp_def)
qed

definition plain_export :: export_options where
  "plain_export = \<lparr>xo_action = None, xo_failed_only = False, xo_redact_paths = False, xo_verify_hmac = True\<rparr>"

lemma zip_rows:
  "length src = length sts \<Longrightarrow>
   map (\<lambda>r. xe_entry r) (map (export_row L plain_export) (zip [k..<k + length src] (zip src sts))) = map fst src \<and>
   map (\<lambda>r. xe_verify_status r) (map (export_row L plain_export) (zip [k..<k + length src] (zip src sts))) = sts"
proof (induction src sts arbitrary: k rule: list_induct2)
  case (Cons x xs y ys)
  have "[k..<k + length (x # xs)] = k # [Suc k..<Suc k + length xs]" by (subst upt_conv_Cons) simp_all
  with Cons.IH [of "Suc k"] show ?case by (cases x) (simp add: export_row_def plain_export_def)
qed simp

lemma count_status_map: "count_status st rows = length (filter ((=) st) (map xe_verify_status rows))"
  by (induction rows) (auto simp: count_status_def)

lemma export_of_chain:
  assumes "macs_ok L" "digest_ok L" "codec_ok L" "clean_env E" "log_files L (LOG_PREFIX @ agent @ LOG_SUFFIX) d names chunks cur"
    and "verify_entries L (concat chunks @ cur) keys c = Inr (v, sts)" "length sts = length (concat chunks @ cur)"
  shows "\<exists>R. export_directory L E agent plain_export keys c d = Inr R \<and> map xe_entry (xr_entries R) = concat chunks @ cur \<and>
    map xe_verify_status (xr_entries R) = sts \<and> xr_total R = length sts \<and>
    xr_verified R = length (filter ((=) status_verified) sts) \<and> xr_tampered R = length (filter ((=) status_tampered) sts)"
proof -
  define src where "src = export_sources L (map (\<lambda>n. (n, the (map_of d n))) (names @ [LOG_PREFIX @ agent @ LOG_SUFFIX]))"
  have m: "mset (io_order E d) = mset d" using assms(4) by (simp add: clean_env_def)
  have fst: "map fst src = concat chunks @ cur"
    unfolding src_def by (rule export_sources_log_files [OF assms(3,5)])
  then have len: "length src = length (concat chunks @ cur)" by (metis length_map)
  define rows where "rows = map (export_row L plain_export) (zip [0..<0 + length src] (zip src sts))"
  have rows: "map xe_entry rows = map fst src" "map xe_verify_status rows = sts"
    using zip_rows [of src sts L 0] assms(7) len unfolding rows_def by simp_all
  have "filter (\<lambda>(index, (e, source), status). \<not> export_excluded plain_export e) z = z" for z :: "(nat \<times> (log_entry \<times> ustring) \<times> ustring) list"
    by (rule filter_True) (auto simp: export_excluded_def plain_export_def)
  then have "export_directory L E agent plain_export keys c d =
      Inr \<lparr>xr_entries = rows, xr_total = length rows, xr_verified = count_status status_verified rows,
           xr_legacy = count_status status_legacy rows, xr_tampered = count_status status_tampered rows\<rparr>"
    using assms(4,6) fst len unfolding export_directory_def rows_def
      export_paths_log_files [OF assms(5) m] src_def [symmetric] Let_def
    by (simp add: plain_export_def)
  then show ?thesis using rows fst assms(7) by (simp add: count_status_map) (metis length_map)
qed

lemma open_log_inv:
  assumes "clean_env E" "distinct (map fst d)" "\<forall>n. map_of d n \<noteq> None \<longrightarrow> n \<noteq> path \<and> \<not> rotated_name path n"
    and "logger_open L E path key rotation d = (Inr lg, d')"
  shows "log_inv L lg [] (lg, d')" "lg_path lg = path" "lg_key lg = key"
proof -
  have absent: "map_of d path = None" using assms(3) by blast
  then have lg: "lg = \<lparr>lg_path = path, lg_key = key, lg_kid = key_fingerprint L key, lg_previous = [],
      lg_file = True, lg_rotation = rotation\<rparr>" "d' = fs_write (io_now E ClockWrite) path [] d"
    using assms(1,4) by (auto simp: logger_open_def last_hmac_def touch_def)
  have "map_of d n = None" if "rotated_name path n" for n using assms(3) that by blast
  then have "\<not> (rotated_name path n \<and> map_of d' n \<noteq> None)" for n by (auto simp: lg(2))
  then have "log_files L path d' [] [] []"
    using assms(2) by (simp add: lg(2) log_files_def log_data_def) (simp add: fs_write_def distinct_update)
  then show "log_inv L lg [] (lg, d')" by (intro log_invI [where names = "[]" and chunks = "[]" and cur = "[]"]) (simp_all add: lg(1))
  show "lg_path lg = path" "lg_key lg = key" by (simp_all add: lg(1))
qed


section \<open>Rotation by age and failing rotation\<close>

lemma log_retain_gone: "clean_env E \<Longrightarrow> map_of d n = None \<Longrightarrow> map_of (log_retain E k age i files d) n = None"
  by (induction E k age i files d rule: log_retain.induct) (auto simp: remove_file_def)

lemma log_retain_old:
  "clean_env E \<Longrightarrow> (n, f) \<in> set files \<Longrightarrow> too_old E age f \<Longrightarrow> map_of (log_retain E k age i files d) n = None"
proof (induction E k age i files d rule: log_retain.induct)
  case (2 E k age i name g files d)
  show ?case
  proof (cases "(n, f) = (name, g)")
    case True
    with 2 show ?thesis by (simp add: remove_file_def log_retain_gone)
  qed (use 2 in auto)
qed simp

lemma log_retain_other:
  "clean_env E \<Longrightarrow> n \<notin> fst ` set files \<Longrightarrow> map_of (log_retain E k age i files d) n = map_of d n"
  by (induction E k age i files d rule: log_retain.induct) (auto simp: remove_file_def)

text \<open>
  C28. Rotation by age removes the log it rotates and so breaks the chain: an append to a log that
  has not been written for the maximum age renames it and the retention pass that follows deletes the
  renamed file at once. The new log then holds one untouched entry that verification reports as
  tampered, unless HMAC does not tell it from the same entry without a predecessor.
\<close>

theorem age_rotation_reports_tampering:
  assumes "macs_ok L" "digest_ok L" "codec_ok L" "clean_env E" "map_of keys (lg_kid lg) = Some (lg_key lg)"
    and "lg_file lg" "lg_kid lg = key_fingerprint L (lg_key lg)" "distinct (map fst d)"
    and "map_of d (lg_path lg) = Some f" "af_data f \<noteq> []"
    and "max_age (lg_rotation lg) = Some age" "age \<le> io_now E ClockAge - af_mtime f" "io_now E ClockAge \<le> io_now E ClockRetain"
    and "al_hmac_sha256 L (lg_key lg) (canonical_json L (signed_entry L lg e)) \<noteq>
      al_hmac_sha256 L (lg_key lg) (lg_previous lg @ canonical_json L (signed_entry L lg e))"
  shows "\<exists>lg' d' g v. logger_append L E e (lg, d) = (Inr (), lg', d') \<and>
    map_of d' (rotation_target E lg) = None \<and>
    map_of d' (lg_path lg) = Some g \<and> parse_entries L (af_data g) = [signed_entry L lg e] \<and>
    verify_entries L [signed_entry L lg e] keys c = Inr (v, [status_tampered]) \<and> \<not> vr_valid v"
proof -
  let ?e = "signed_entry L lg e" and ?d1 = "rotated_dir E lg d"
  have due: "rotation_due E lg d" using assms(4,6,9,11,12) by (simp add: rotation_due_def le_max_iff_disj)
  obtain files where files: "rotated_files E (lg_path lg @ ROTATED_MARKER) ?d1 = Inr files"
      "mset files = mset (filter (\<lambda>(n, f). rotated_name (lg_path lg) n) ?d1)"
    using rotated_files_clean [OF assms(4)] by blast
  define d2 where "d2 = log_retain E (length files - max_backups (lg_rotation lg)) (Some age) 0 files ?d1"
  have rot: "logger_rotate_at E (io_now E ClockRotate) (lg, d) = (Inr (), lg, d2)"
    using assms(4,6,9-11) files(1) unfolding logger_rotate_at_def rotated_dir_def rotation_target_def
    by (simp add: log_size_def enforce_log_retention_def d2_def rotated_dir_def rotation_target_def Let_def)
  have ne: "rotation_target E lg \<noteq> lg_path lg" by (simp add: rotation_target_def ROTATED_MARKER_def)
  have "map_of ?d1 (rotation_target E lg) = Some f" using assms(9) ne by (simp add: map_of_rotated_dir)
  then have "(rotation_target E lg, f) \<in> set files"
    using mset_eq_setD [OF files(2)] by (auto dest: map_of_SomeD simp: rotation_target_def)
  moreover have "too_old E (Some age) f" using assms(12,13) by (simp add: too_old_def)
  ultimately have gone: "map_of d2 (rotation_target E lg) = None"
    unfolding d2_def by (rule log_retain_old [OF assms(4)])
  have "lg_path lg \<notin> fst ` set files" using mset_eq_setD [OF files(2)] by auto
  then have cur: "map_of d2 (lg_path lg) = Some \<lparr>af_data = [], af_mtime = io_now E ClockWrite\<rparr>"
    unfolding d2_def using log_retain_other [OF assms(4)] assms(9) by (simp add: map_of_rotated_dir)
  let ?d3 = "fs_append (io_now E ClockWrite) (lg_path lg) (line_of L ?e @ [10]) d2"
  have app: "logger_append L E e (lg, d) =
      (Inr (), lg\<lparr>lg_previous := al_hmac_sha256 L (lg_key lg) (lg_previous lg @ canonical_json L ?e)\<rparr>, ?d3)"
    using due rot write_entry_clean [OF assms(4,1,3,6), of e d2] by (simp add: logger_append_def)
  have "written_chain L (lg_key lg) (lg_previous lg) [?e]" by (rule signed_entry_written [OF assms(7)])
  from retained_suffix_reported_tampered [OF assms(1,2) _ this assms(14), of keys c]
  have "\<exists>v. verify_entries L [?e] keys c = Inr (v, [status_tampered]) \<and> \<not> vr_valid v" using assms(5,7) by auto
  moreover have "parse_entries L (line_of L ?e @ [10]) = [?e]"
    using parse_log_data [OF assms(3), of "[?e]"] by (simp add: log_data_def)
  moreover have "map_of ?d3 (lg_path lg) = Some \<lparr>af_data = line_of L ?e @ [10], af_mtime = io_now E ClockWrite\<rparr>"
    using cur by (simp add: fs_append_def)
  moreover have "map_of ?d3 (rotation_target E lg) = None" using gone ne by (simp add: fs_append_def)
  ultimately show ?thesis using app by (metis afile.select_convs(1))
qed

text \<open>
  A rotation whose rename fails closes the logger for good: the append that triggered it fails,
  nothing is written, and every later append fails as well, whatever the environment does.
\<close>

theorem failed_rotation_closes_logger:
  assumes "rotation_due E lg d" "io_fault E StatLen = None" "log_size (lg_path lg) d \<noteq> 0" "io_fault E Gate = None"
    and "io_fault E RenameLog = Some m"
    and "codec_ok L"
  shows "\<exists>err lg'. logger_append L E e (lg, d) = (Inl err, lg', d) \<and>
    (\<forall>E' e'. logger_append L E' e' (lg', d) = (Inl (io_other (lit ''audit logger is closed'')), lg', d))"
proof -
  have open_lg: "lg_file lg" using assms(1) by (simp add: rotation_due_def)
  define lg' where "lg' = lg\<lparr>lg_file := False\<rparr>"
  have "\<exists>err. logger_append L E e (lg, d) = (Inl err, lg', d)"
    using assms(1-5) open_lg
    by (cases "io_fault E SyncAll") (simp_all add: logger_append_def logger_rotate_at_def io_try_def lg'_def)
  moreover have "logger_append L E' e' (lg', d) = (Inl (io_other (lit ''audit logger is closed'')), lg', d)" for E' e'
  proof -
    from assms(6) obtain b where "al_to_json L (signed_entry L lg' e') = Some b" unfolding codec_ok_def by blast
    then show ?thesis
      by (simp add: logger_append_def rotation_due_def write_entry_def lg'_def Let_def del: lit_simps)
  qed
  ultimately show ?thesis by blast
qed

section \<open>A concrete instance\<close>

definition entry_frame :: "log_entry \<Rightarrow> nat list" where
  "entry_frame e = frames
     [en_timestamp e, en_agent e, en_action e, en_path e, en_field e, en_transport e, en_reason e, en_share_id e,
      en_from_agent e, en_to_agent e, en_share_action e, int_frame (en_dur_ms e), en_token_id e, en_request_id e,
      en_session_id e, en_kid e, en_hmac e, en_argv_hash e, bool_frame (en_ok e)]"

definition unentry_frame :: "nat list \<Rightarrow> log_entry option" where
  "unentry_frame b = map_option (\<lambda>v.
     \<lparr>en_timestamp = v ! 0, en_agent = v ! 1, en_action = v ! 2, en_path = v ! 3, en_field = v ! 4,
      en_transport = v ! 5, en_reason = v ! 6, en_share_id = v ! 7, en_from_agent = v ! 8, en_to_agent = v ! 9,
      en_share_action = v ! 10, en_dur_ms = unint_frame (v ! 11), en_token_id = v ! 12, en_request_id = v ! 13,
      en_session_id = v ! 14, en_kid = v ! 15, en_hmac = v ! 16, en_argv_hash = v ! 17, en_ok = (v ! 18 \<noteq> [])\<rparr>)
     (unframes b)"

lemma unentry_entry [simp]: "unentry_frame (entry_frame e) = Some e"
  by (simp add: entry_frame_def unentry_frame_def unframes_frames)

definition demo_audit_libs :: audit_libs where
  "demo_audit_libs =
     \<lparr>al_hmac_sha256 = (\<lambda>k m. length m mod 256 # sum_list m mod 256 # replicate 30 0),
      al_sha256 = (\<lambda>m. replicate 32 7),
      al_to_json = (\<lambda>e. Some (nums_text (entry_frame e))),
      al_of_json = (\<lambda>t. Option.bind (nums_of_text t) unentry_frame)\<rparr>"

lemma demo_audit_libs_ok: "macs_ok demo_audit_libs" "digest_ok demo_audit_libs" "codec_ok demo_audit_libs"
  by (auto simp: demo_audit_libs_def macs_ok_def digest_ok_def codec_ok_def nums_text_line)

definition demo_env :: "int \<Rightarrow> io_env" where
  "demo_env now = \<lparr>io_fault = (\<lambda>_. None), io_torn = 0, io_now = (\<lambda>_. now), io_random = Inr (replicate 32 1), io_order = (\<lambda>d. d)\<rparr>"

lemma demo_env_clean [simp]: "clean_env (demo_env now)"
  by (simp add: clean_env_def demo_env_def)

definition demo_log_entry :: "ustring \<Rightarrow> log_entry" where
  "demo_log_entry act = \<lparr>en_timestamp = [], en_agent = lit ''a'', en_action = act, en_path = [], en_field = [], en_transport = [],
     en_reason = [], en_share_id = [], en_from_agent = [], en_to_agent = [], en_share_action = [], en_dur_ms = 0,
     en_token_id = [], en_request_id = [], en_session_id = [], en_kid = [], en_hmac = [], en_argv_hash = [], en_ok = True\<rparr>"

definition demo_key :: audit_key where "demo_key = replicate 32 9"

definition demo_log :: ustring where "demo_log = LOG_PREFIX @ lit ''a'' @ LOG_SUFFIX"

definition demo_rotation_config :: "int option \<Rightarrow> rotation_config" where
  "demo_rotation_config age = \<lparr>max_file_size = 1, max_backups = 5, max_age = age\<rparr>"

definition demo_start :: "int option \<Rightarrow> logger \<times> adir" where
  "demo_start age =
     (\<lparr>lg_path = demo_log, lg_key = demo_key, lg_kid = key_fingerprint demo_audit_libs demo_key, lg_previous = [],
       lg_file = True, lg_rotation = demo_rotation_config age\<rparr>, [(demo_log, \<lparr>af_data = [], af_mtime = 0\<rparr>)])"

lemma demo_open:
  "logger_open demo_audit_libs (demo_env 0) demo_log demo_key (demo_rotation_config age) [] = (Inr (fst (demo_start age)), snd (demo_start age))"
  by (simp add: logger_open_def last_hmac_def touch_def fs_write_def demo_start_def demo_env_def io_try_def)

definition demo_second :: "logger \<times> adir" where
  "demo_second = snd (logger_append demo_audit_libs (demo_env 1) (demo_log_entry (lit ''get'')) (demo_start None))"

lemma demo_second_shape:
  "\<exists>lg f. demo_second = (lg, [(demo_log, f)]) \<and> lg_path lg = demo_log \<and> lg_rotation lg = demo_rotation_config None"
proof -
  have "\<not> rotation_due (demo_env 1) (fst (demo_start None)) (snd (demo_start None))"
    by (simp add: rotation_due_def demo_start_def demo_rotation_config_def)
  then show ?thesis
    using write_entry_clean [OF demo_env_clean [of 1] demo_audit_libs_ok(1,3), of "fst (demo_start None)" "demo_log_entry (lit ''get'')" "snd (demo_start None)"]
    by (simp add: demo_second_def logger_append_def fs_append_def fs_write_def demo_start_def)
qed

lemma demo_run:
  "log_run demo_audit_libs (demo_start None) [demo_log_entry (lit ''get''), demo_log_entry (lit ''set'')]
     (snd (logger_append demo_audit_libs (demo_env 2) (demo_log_entry (lit ''set'')) demo_second))"
proof -
  have one: "log_run demo_audit_libs (demo_start None) ([] @ [demo_log_entry (lit ''get'')]) demo_second"
    by (rule log_run_append [OF log_run_start demo_env_clean [of 1], where r = "fst (logger_append demo_audit_libs (demo_env 1) (demo_log_entry (lit ''get'')) (demo_start None))"])
      (simp_all add: rotation_due_def demo_start_def demo_rotation_config_def demo_second_def)
  obtain lg f where s: "demo_second = (lg, [(demo_log, f)])" "lg_path lg = demo_log" "lg_rotation lg = demo_rotation_config None"
    using demo_second_shape by blast
  have "rotation_target E lg \<noteq> demo_log" "demo_log \<noteq> rotation_target E lg" for E using s(2) by (simp_all add: rotation_target_def ROTATED_MARKER_def)
  then have "rotated_dir E lg [(demo_log, f)] = [(rotation_target E lg, f), (demo_log, \<lparr>af_data = [], af_mtime = io_now E ClockWrite\<rparr>)]" for E
    using s(2) by (simp add: rotated_dir_def fs_rename_def touch_def fs_write_def)
  then have "keeps_all (demo_env 2) lg [(demo_log, f)]"
    using s(2,3) by (simp add: keeps_all_def demo_rotation_config_def too_old_def)
  then have "log_run demo_audit_libs (demo_start None) (([] @ [demo_log_entry (lit ''get'')]) @ [demo_log_entry (lit ''set'')])
     (snd (logger_append demo_audit_libs (demo_env 2) (demo_log_entry (lit ''set'')) demo_second))"
    by (intro log_run_append [OF one demo_env_clean [of 2],
          where r = "fst (logger_append demo_audit_libs (demo_env 2) (demo_log_entry (lit ''set'')) demo_second)"]) (simp_all add: s(1))
  then show ?thesis by simp
qed


definition demo_idle :: "logger \<times> adir" where
  "demo_idle =
     (fst (demo_start (Some 10))\<lparr>lg_previous := replicate 32 5\<rparr>,
      [(demo_log, \<lparr>af_data = [123, 125, 10], af_mtime = 0\<rparr>)])"

lemma demo_hmac_differs:
  "p \<noteq> [] \<Longrightarrow> length p < 256 \<Longrightarrow>
   al_hmac_sha256 demo_audit_libs k m \<noteq> al_hmac_sha256 demo_audit_libs k (p @ m)"
proof
  assume p: "p \<noteq> []" "length p < 256"
  assume "al_hmac_sha256 demo_audit_libs k m = al_hmac_sha256 demo_audit_libs k (p @ m)"
  then have "int (length m) mod 256 = (int (length p) + int (length m)) mod 256"
    by (simp add: demo_audit_libs_def flip: of_nat_add) (metis of_nat_add of_nat_mod of_nat_numeral)
  then have "256 dvd int (length p)" by (simp add: mod_eq_dvd_iff)
  then show False using p by (auto dest!: zdvd_imp_le)
qed

theorem age_rotation_reports_tampering_witness:
  "\<exists>lg' d' g v. logger_append demo_audit_libs (demo_env 20) (demo_log_entry (lit ''get'')) demo_idle = (Inr (), lg', d') \<and>
    map_of d' (rotation_target (demo_env 20) (fst demo_idle)) = None \<and>
    map_of d' demo_log = Some g \<and>
    parse_entries demo_audit_libs (af_data g) = [signed_entry demo_audit_libs (fst demo_idle) (demo_log_entry (lit ''get''))] \<and>
    verify_entries demo_audit_libs [signed_entry demo_audit_libs (fst demo_idle) (demo_log_entry (lit ''get''))]
      [(key_fingerprint demo_audit_libs demo_key, demo_key)] [] = Inr (v, [status_tampered]) \<and> \<not> vr_valid v"
proof -
  have path: "lg_path (fst demo_idle) = demo_log" by (simp add: demo_idle_def demo_start_def)
  have "al_hmac_sha256 demo_audit_libs k m \<noteq> al_hmac_sha256 demo_audit_libs k (lg_previous (fst demo_idle) @ m)" for k m
    by (rule demo_hmac_differs) (simp_all add: demo_idle_def)
  from age_rotation_reports_tampering [OF demo_audit_libs_ok demo_env_clean, where lg = "fst demo_idle" and d = "snd demo_idle"
      and f = "\<lparr>af_data = [123, 125, 10], af_mtime = 0\<rparr>" and age = 10 and e = "demo_log_entry (lit ''get'')"
      and keys = "[(key_fingerprint demo_audit_libs demo_key, demo_key)]" and c = "[]" and now1 = 20, OF _ _ _ _ _ _ _ _ _ this]
  show ?thesis unfolding path by (simp add: demo_idle_def demo_start_def demo_env_def demo_rotation_config_def del: lit_simps)
qed

theorem failed_rotation_closes_logger_witness:
  "\<exists>err lg'. logger_append demo_audit_libs
      ((demo_env 20)\<lparr>io_fault := (\<lambda>s. if s = RenameLog then Some (lit ''busy'') else None)\<rparr>)
      (demo_log_entry (lit ''get'')) demo_idle = (Inl err, lg', snd demo_idle) \<and>
    (\<forall>E' e'. logger_append demo_audit_libs E' e' (lg', snd demo_idle) =
      (Inl (io_other (lit ''audit logger is closed'')), lg', snd demo_idle))"
  using failed_rotation_closes_logger [OF _ _ _ _ _ demo_audit_libs_ok(3), where lg = "fst demo_idle" and d = "snd demo_idle"
      and E = "(demo_env 20)\<lparr>io_fault := (\<lambda>s. if s = RenameLog then Some (lit ''busy'') else None)\<rparr>"
      and m = "lit ''busy''" and e = "demo_log_entry (lit ''get'')"]
  by (simp add: demo_idle_def demo_start_def demo_env_def demo_rotation_config_def rotation_due_def log_size_def del: lit_simps)

definition demo_ring :: memory_state where
  "demo_ring = \<lparr>kv_values = [lit ''symaira|audit-hmac-key:v'' \<mapsto> encode_hex demo_key], poisoned = False\<rparr>"

theorem rotate_key_keeps_old_key_witness:
  "(case rotate_key_with_keyring demo_audit_libs ((demo_env 0)\<lparr>io_random := Inl (lit ''no entropy'')\<rparr>) memory_keyring
       (Some (lit ''v'')) demo_ring [] of
      (r, s', d') \<Rightarrow>
        kr_get memory_keyring s' (lit ''symaira|audit-hmac-key:v'') = Inr (encode_hex demo_key) \<or>
        (\<exists>f. map_of d' (archive_name demo_audit_libs demo_key) = Some f \<and> decode_hex_key (af_data f) = Inr demo_key))"
proof -
  have "keyring_address (Some (lit ''v'')) = Inr (lit ''symaira|audit-hmac-key:v'')" by (simp add: keyring_address_def)
  moreover have "kr_get memory_keyring demo_ring (lit ''symaira|audit-hmac-key:v'') = Inr (encode_hex demo_key)"
    by (simp add: memory_keyring_def demo_ring_def)
  ultimately show ?thesis
    using rotate_key_keeps_old_key [OF mem.lawful_keyring_axioms, where old = demo_key and s = demo_ring
        and directory = "Some (lit ''v'')" and address = "lit ''symaira|audit-hmac-key:v''"]
    by (auto simp: demo_key_def simp del: lit_simps split: prod.splits)
qed


theorem retained_suffix_reported_tampered_witness:
  "verify_entries demo_audit_libs [signed_entry demo_audit_libs (fst demo_idle) (demo_log_entry (lit ''get''))]
      [(key_fingerprint demo_audit_libs demo_key, demo_key)] [] =
    Inr (\<lparr>vr_valid = False, vr_total = 1, vr_verified = 0, vr_legacy = 0, vr_tampered = 1,
           vr_unverifiable = 0, vr_first_bad_idx = 0\<rparr>, [status_tampered])"
proof -
  let ?e = "signed_entry demo_audit_libs (fst demo_idle) (demo_log_entry (lit ''get''))"
  have "written_chain demo_audit_libs demo_key (replicate 32 5) [?e]"
    using signed_entry_written [of "fst demo_idle" demo_audit_libs "demo_log_entry (lit ''get'')"]
    by (simp add: demo_idle_def demo_start_def del: lit_simps)
  from retained_suffix_reported_tampered [OF demo_audit_libs_ok(1,2) _ this demo_hmac_differs]
  show ?thesis by simp
qed

theorem verify_panics_iff_witness:
  "verify_entries demo_audit_libs [(demo_log_entry [])\<lparr>en_hmac := [97, 233, 98]\<rparr>] [] [] = Inl ()"
proof -
  have "hex_decode [97, 233, 98] = Inl ()" by (simp add: hex_decode_def str_len_def utf8_width_def)
  then show ?thesis
    using conjunct1 [OF verify_panics_iff [OF demo_audit_libs_ok(1),
        of "[(demo_log_entry [])\<lparr>en_hmac := [97, 233, 98]\<rparr>]" "[]" "[]"]] by simp
qed

end
