(* ===== verification/Sync_Merge.thy ===== *)
theory Sync_Merge
  imports Ordered_Map "HOL-Library.Multiset"
begin

text \<open>
  \<^verbatim>\<open>symvault-sync/src/reconcile.rs\<close> and \<^verbatim>\<open>symvault-sync/src/winner.rs\<close>: the three-way
  reconciliation of a tree of files and the choice between two versions of an entry.

  The maps of the reconciliation are sorted association lists. The RFC 3339 parser of the time crate
  and the canonical JSON encoder are arguments of the choice; an instant is a number, as the source
  compares date-times by instant.
\<close>

section \<open>Reconciliation\<close>

type_synonym tree = "(ustring \<times> nat list) list"

record reconcile_input =
  ri_base :: tree
  ri_local :: tree
  ri_remote :: tree

record conflict =
  cf_path :: ustring
  cf_local :: "nat list"
  cf_remote :: "nat list"
  cf_conflict_path :: ustring

record reconcile_output =
  ro_files :: tree
  ro_conflicts :: "conflict list"
  ro_changed :: "ustring list"

definition conflict_path_of :: "ustring \<Rightarrow> ustring" where
  "conflict_path_of path = path @ lit ''.conflict-remote''"

definition all_paths :: "reconcile_input \<Rightarrow> ustring list" where
  "all_paths inp = sort (remdups (map fst (ri_base inp) @ map fst (ri_local inp) @ map fst (ri_remote inp)))"

text \<open>The bytes a path gets, and whether both sides changed it to different bytes.\<close>

definition merge_sides :: "nat list option \<Rightarrow> nat list option \<Rightarrow> nat list option \<Rightarrow> nat list option \<times> bool" where
  "merge_sides l r b =
     (if l \<noteq> None \<and> r \<noteq> None \<and> l = r then (l, False)
      else if l = b then (r, False)
      else if r = b then (l, False)
      else (case (l, r) of
              (Some x, Some y) \<Rightarrow> (Some x, True)
            | (Some x, None) \<Rightarrow> (Some x, False)
            | (None, Some y) \<Rightarrow> (Some y, False)
            | (None, None) \<Rightarrow> (None, False)))"

definition reconcile_path :: "reconcile_input \<Rightarrow> ustring \<Rightarrow> reconcile_output \<Rightarrow> reconcile_output" where
  "reconcile_path inp path out =
     (let b = map_of (ri_base inp) path; l = map_of (ri_local inp) path; r = map_of (ri_remote inp) path;
          (chosen, conflicting) = merge_sides l r b;
          out1 = (if conflicting
                  then out\<lparr>ro_conflicts := ro_conflicts out @
                             [\<lparr>cf_path = path, cf_local = the l, cf_remote = the r, cf_conflict_path = conflict_path_of path\<rparr>],
                           ro_files := bt_insert (conflict_path_of path) (the r) (ro_files out),
                           ro_changed := ro_changed out @ [conflict_path_of path]\<rparr>
                  else out)
      in case chosen of
           None \<Rightarrow> out1
         | Some bytes \<Rightarrow>
             out1\<lparr>ro_changed := (if b \<noteq> Some bytes then ro_changed out1 @ [path] else ro_changed out1),
                  ro_files := bt_insert path bytes (ro_files out1)\<rparr>)"

definition reconcile :: "reconcile_input \<Rightarrow> reconcile_output" where
  "reconcile inp =
     (let out = fold (reconcile_path inp) (all_paths inp) \<lparr>ro_files = [], ro_conflicts = [], ro_changed = []\<rparr>
      in out\<lparr>ro_changed := sort (ro_changed out), ro_conflicts := sort_key cf_path (ro_conflicts out)\<rparr>)"

section \<open>The winner of two versions\<close>

record write_record =
  wr_timestamp :: ustring
  wr_field :: ustring
  wr_action :: ustring

record entry_metadata =
  em_created :: ustring
  em_updated :: ustring
  em_version :: int
  em_tags :: "ustring list"
  em_write_history :: "write_record list"

definition canonical_is_smaller_or_equal ::
  "(entry_metadata \<Rightarrow> ustring option) \<Rightarrow> entry_metadata \<Rightarrow> entry_metadata \<Rightarrow> bool" where
  "canonical_is_smaller_or_equal json a b =
     (case (json a, json b) of (Some ja, Some jb) \<Rightarrow> ja \<le> jb | _ \<Rightarrow> True)"

definition winner_by_version ::
  "(ustring \<Rightarrow> int option) \<Rightarrow> (entry_metadata \<Rightarrow> ustring option) \<Rightarrow> ustring \<Rightarrow>
   entry_metadata \<Rightarrow> entry_metadata \<Rightarrow> entry_metadata \<times> entry_metadata" where
  "winner_by_version instant json path a b =
     (let tiebreak = (if path = [] \<or> canonical_is_smaller_or_equal json a b then (a, b) else (b, a))
      in if em_version a \<noteq> em_version b then (if em_version b < em_version a then (a, b) else (b, a))
         else (case (instant (em_updated a), instant (em_updated b)) of
                 (Some ta, Some tb) \<Rightarrow> if ta \<noteq> tb then (if tb < ta then (a, b) else (b, a)) else tiebreak
               | _ \<Rightarrow> tiebreak))"

section \<open>What reconciliation keeps\<close>

definition sides :: "reconcile_input \<Rightarrow> ustring \<Rightarrow> nat list option \<times> bool" where
  "sides inp n = merge_sides (map_of (ri_local inp) n) (map_of (ri_remote inp) n) (map_of (ri_base inp) n)"

lemma conflict_path_greater: "p < conflict_path_of p"
  by (induction p) (simp_all add: conflict_path_of_def)

lemma conflict_path_inj [simp]: "conflict_path_of p = conflict_path_of q \<longleftrightarrow> p = q"
  by (simp add: conflict_path_of_def)

lemma sides_conflict: "snd (sides inp n) \<Longrightarrow>
    \<exists>x y. map_of (ri_local inp) n = Some x \<and> map_of (ri_remote inp) n = Some y \<and> x \<noteq> y \<and> fst (sides inp n) = Some x"
  by (auto simp: sides_def merge_sides_def split: if_splits option.splits)

text \<open>The files after a set of paths: the merged bytes, else a conflict copy.\<close>

definition files_spec :: "reconcile_input \<Rightarrow> ustring set \<Rightarrow> (ustring \<Rightarrow> nat list option) \<Rightarrow> bool" where
  "files_spec inp P m \<longleftrightarrow>
     (\<forall>n x. n \<in> P \<and> fst (sides inp n) = Some x \<longrightarrow> m n = Some x) \<and>
     (\<forall>q. q \<in> P \<and> snd (sides inp q) \<and> \<not> (conflict_path_of q \<in> P \<and> fst (sides inp (conflict_path_of q)) \<noteq> None) \<longrightarrow>
        m (conflict_path_of q) = map_of (ri_remote inp) q) \<and>
     (\<forall>n. \<not> (n \<in> P \<and> fst (sides inp n) \<noteq> None) \<and> \<not> (\<exists>q. q \<in> P \<and> snd (sides inp q) \<and> n = conflict_path_of q) \<longrightarrow>
        m n = None)"

lemma map_of_reconcile_path:
  assumes "bt_inv (ro_files out)"
  shows "bt_inv (ro_files (reconcile_path inp p out))"
    "map_of (ro_files (reconcile_path inp p out)) n =
       (if n = p \<and> fst (sides inp p) \<noteq> None then fst (sides inp p)
        else if n = conflict_path_of p \<and> snd (sides inp p) then map_of (ri_remote inp) p
        else map_of (ro_files out) n)"
proof -
  obtain c w where cw: "sides inp p = (c, w)" by fastforce
  have "\<exists>y. map_of (ri_remote inp) p = Some y" if w using sides_conflict [of inp p] cw that by auto
  with assms cw show "bt_inv (ro_files (reconcile_path inp p out))"
    "map_of (ro_files (reconcile_path inp p out)) n =
       (if n = p \<and> fst (sides inp p) \<noteq> None then fst (sides inp p)
        else if n = conflict_path_of p \<and> snd (sides inp p) then map_of (ri_remote inp) p
        else map_of (ro_files out) n)"
    by (auto simp: reconcile_path_def sides_def [symmetric] Let_def bt_inv_insert bt_lookup_insert split: option.splits)
qed

lemma files_spec_snoc:
  assumes "files_spec inp P m" "\<And>q. q \<in> P \<Longrightarrow> q < p"
    and "\<And>n. m' n = (if n = p \<and> fst (sides inp p) \<noteq> None then fst (sides inp p)
        else if n = conflict_path_of p \<and> snd (sides inp p) then map_of (ri_remote inp) p else m n)"
  shows "files_spec inp (insert p P) m'"
proof -
  have np: "conflict_path_of p \<noteq> p" "conflict_path_of p \<notin> P" "p \<notin> P" "p \<noteq> conflict_path_of p"
    using conflict_path_greater [of p] assms(2) [of "conflict_path_of p"] assms(2) [of p] by auto
  show ?thesis
    unfolding files_spec_def
  proof (intro conjI allI impI; (elim conjE)?)
    fix n x assume "n \<in> insert p P" "fst (sides inp n) = Some x"
    with assms(1) np show "m' n = Some x" unfolding files_spec_def assms(3) by auto
  next
    fix q assume q: "q \<in> insert p P" "snd (sides inp q)"
      "\<not> (conflict_path_of q \<in> insert p P \<and> fst (sides inp (conflict_path_of q)) \<noteq> None)"
    with assms(1) np show "m' (conflict_path_of q) = map_of (ri_remote inp) q"
      unfolding files_spec_def assms(3) by (cases "q = p") auto
  next
    fix n assume "\<not> (n \<in> insert p P \<and> fst (sides inp n) \<noteq> None)"
      "\<not> (\<exists>q. q \<in> insert p P \<and> snd (sides inp q) \<and> n = conflict_path_of q)"
    with assms(1) np show "m' n = None" unfolding files_spec_def assms(3) by auto
  qed
qed

lemma fold_files_spec:
  assumes "sorted_wrt (<) ps"
  shows "bt_inv (ro_files (fold (reconcile_path inp) ps \<lparr>ro_files = [], ro_conflicts = [], ro_changed = []\<rparr>)) \<and>
    files_spec inp (set ps) (map_of (ro_files (fold (reconcile_path inp) ps \<lparr>ro_files = [], ro_conflicts = [], ro_changed = []\<rparr>)))"
  using assms
proof (induction ps rule: rev_induct)
  case Nil
  show ?case by (simp add: files_spec_def)
next
  case (snoc p ps)
  let ?out = "fold (reconcile_path inp) ps \<lparr>ro_files = [], ro_conflicts = [], ro_changed = []\<rparr>"
  from snoc have inv: "bt_inv (ro_files ?out)" "files_spec inp (set ps) (map_of (ro_files ?out))"
    by (auto simp: sorted_wrt_append)
  have "files_spec inp (insert p (set ps)) (map_of (ro_files (reconcile_path inp p ?out)))"
    by (rule files_spec_snoc [OF inv(2) _ map_of_reconcile_path(2) [OF inv(1)]])
      (use snoc.prems in \<open>auto simp: sorted_wrt_append\<close>)
  then show ?case using map_of_reconcile_path(1) [OF inv(1)] by simp
qed

lemma sides_outside: "n \<notin> set (all_paths inp) \<Longrightarrow> sides inp n = (None, False)"
proof -
  assume "n \<notin> set (all_paths inp)"
  then have "map_of (ri_local inp) n = None" "map_of (ri_remote inp) n = None" "map_of (ri_base inp) n = None"
    by (auto simp: all_paths_def map_of_eq_None_iff)
  then show ?thesis by (simp add: sides_def merge_sides_def)
qed

lemma reconcile_files:
  "bt_inv (ro_files (reconcile inp))" "files_spec inp UNIV (map_of (ro_files (reconcile inp)))"
proof -
  have "sorted_wrt (<) (all_paths inp)" by (simp add: all_paths_def strict_sorted_iff)
  note f = fold_files_spec [OF this, of inp]
  from f show "bt_inv (ro_files (reconcile inp))" by (simp add: reconcile_def Let_def)
  have in_paths: "n \<in> set (all_paths inp)" if "fst (sides inp n) \<noteq> None \<or> snd (sides inp n)" for n
    using that sides_outside [of n inp] by (cases "n \<in> set (all_paths inp)") auto
  show "files_spec inp UNIV (map_of (ro_files (reconcile inp)))"
    using f in_paths unfolding files_spec_def reconcile_def Let_def by auto
qed

definition conflict_of :: "reconcile_input \<Rightarrow> ustring \<Rightarrow> conflict" where
  "conflict_of inp n = \<lparr>cf_path = n, cf_local = the (map_of (ri_local inp) n), cf_remote = the (map_of (ri_remote inp) n),
     cf_conflict_path = conflict_path_of n\<rparr>"

lemma reconcile_path_conflicts:
  "ro_conflicts (reconcile_path inp p out) = ro_conflicts out @ (if snd (sides inp p) then [conflict_of inp p] else [])"
  by (cases "sides inp p")
    (auto simp: reconcile_path_def sides_def [symmetric] Let_def conflict_of_def split: option.splits)

lemma reconcile_conflicts: "set (ro_conflicts (reconcile inp)) = conflict_of inp ` {n. snd (sides inp n)}"
proof -
  have "set (ro_conflicts (fold (reconcile_path inp) ps out)) =
      set (ro_conflicts out) \<union> conflict_of inp ` {n \<in> set ps. snd (sides inp n)}" for ps out
    by (induction ps arbitrary: out) (auto simp: reconcile_path_conflicts)
  moreover have "{n \<in> set (all_paths inp). snd (sides inp n)} = {n. snd (sides inp n)}"
    using sides_outside [of _ inp] by force
  ultimately show ?thesis by (simp add: reconcile_def Let_def)
qed

lemma sides_local: "map_of (ri_local inp) n = Some x \<Longrightarrow> map_of (ri_base inp) n \<noteq> Some x \<Longrightarrow> fst (sides inp n) = Some x"
  by (auto simp: sides_def merge_sides_def split: option.splits)

lemma sides_remote:
  "map_of (ri_remote inp) n = Some y \<Longrightarrow> map_of (ri_base inp) n \<noteq> Some y \<Longrightarrow>
   fst (sides inp n) = Some y \<or> snd (sides inp n)"
  by (auto simp: sides_def merge_sides_def split: option.splits)

lemma sides_absent:
  "map_of (ri_local inp) n = None \<Longrightarrow> map_of (ri_remote inp) n = None \<Longrightarrow> fst (sides inp n) = None"
  by (auto simp: sides_def merge_sides_def)


text \<open>
  The conflict copy is lost when a file of its name survives the merge: the name sorts after the
  path, so that file overwrites the copy, while the conflict is still reported with the copy's path.
\<close>

theorem reconcile_overwrites_conflict_copy:
  assumes "map_of (ri_local inp) n = Some x" "map_of (ri_remote inp) n = Some y" "x \<noteq> y"
    and "map_of (ri_base inp) n \<noteq> Some x" "map_of (ri_base inp) n \<noteq> Some y"
    and "fst (sides inp (conflict_path_of n)) = Some z"
  shows "map_of (ro_files (reconcile inp)) n = Some x \<and> map_of (ro_files (reconcile inp)) (conflict_path_of n) = Some z \<and>
    \<lparr>cf_path = n, cf_local = x, cf_remote = y, cf_conflict_path = conflict_path_of n\<rparr> \<in> set (ro_conflicts (reconcile inp))"
proof -
  note spec = reconcile_files(2) [of inp, unfolded files_spec_def]
  have "snd (sides inp n)" using assms(1-5) by (simp add: sides_def merge_sides_def)
  then have "conflict_of inp n \<in> set (ro_conflicts (reconcile inp))" by (simp add: reconcile_conflicts)
  then show ?thesis using spec sides_local [OF assms(1,4)] assms by (simp add: conflict_of_def)
qed

section \<open>Convergence of the winner\<close>

text \<open>
  Versions whose timestamps parse and whose canonical form exists and identifies them.
\<close>

definition comparable :: "(ustring \<Rightarrow> int option) \<Rightarrow> (entry_metadata \<Rightarrow> ustring option) \<Rightarrow> entry_metadata set \<Rightarrow> bool" where
  "comparable instant json M \<longleftrightarrow>
     (\<forall>a \<in> M. instant (em_updated a) \<noteq> None \<and> json a \<noteq> None) \<and> inj_on json M"

abbreviation pick :: "(ustring \<Rightarrow> int option) \<Rightarrow> (entry_metadata \<Rightarrow> ustring option) \<Rightarrow> ustring \<Rightarrow>
    entry_metadata \<Rightarrow> entry_metadata \<Rightarrow> entry_metadata" where
  "pick instant json path a b \<equiv> fst (winner_by_version instant json path a b)"

lemma winner_pair: "winner_by_version instant json path a b \<in> {(a, b), (b, a)}"
  by (auto simp: winner_by_version_def Let_def split: option.splits)

definition beats :: "(ustring \<Rightarrow> int option) \<Rightarrow> (entry_metadata \<Rightarrow> ustring option) \<Rightarrow> entry_metadata \<Rightarrow> entry_metadata \<Rightarrow> bool" where
  "beats instant json a b \<longleftrightarrow>
     em_version b < em_version a \<or>
     em_version a = em_version b \<and>
       (the (instant (em_updated b)) < the (instant (em_updated a)) \<or>
        the (instant (em_updated a)) = the (instant (em_updated b)) \<and> the (json a) \<le> the (json b))"

lemma pick_beats:
  assumes "comparable instant json M" "a \<in> M" "b \<in> M" "path \<noteq> []"
  shows "pick instant json path a b = (if beats instant json a b then a else b)"
proof -
  from assms(1-3) obtain ta tb ja jb where
    "instant (em_updated a) = Some ta" "instant (em_updated b) = Some tb" "json a = Some ja" "json b = Some jb"
    unfolding comparable_def by blast
  with assms(4) show ?thesis
    by (simp add: winner_by_version_def beats_def canonical_is_smaller_or_equal_def Let_def)
qed

lemma beats_order:
  assumes "comparable instant json M" "a \<in> M" "b \<in> M"
  shows "beats instant json a a" "beats instant json a b \<or> beats instant json b a"
    "beats instant json a b \<Longrightarrow> beats instant json b a \<Longrightarrow> a = b"
    "beats instant json a b \<Longrightarrow> beats instant json b c \<Longrightarrow> beats instant json a c"
proof -
  show "beats instant json a a" by (simp add: beats_def)
  show "beats instant json a b \<or> beats instant json b a" by (auto simp: beats_def)
  show "beats instant json a b \<Longrightarrow> beats instant json b c \<Longrightarrow> beats instant json a c" by (auto simp: beats_def)
  assume "beats instant json a b" "beats instant json b a"
  then have "the (json a) = the (json b)" by (auto simp: beats_def)
  with assms show "a = b" unfolding comparable_def by (metis inj_onD option.expand)
qed

lemma fold_pick:
  assumes "comparable instant json M" "path \<noteq> []" "set (x # xs) \<subseteq> M"
  shows "fold (pick instant json path) xs x \<in> set (x # xs) \<and>
    (\<forall>y \<in> set (x # xs). beats instant json (fold (pick instant json path) xs x) y)"
  using assms(3)
proof (induction xs arbitrary: x)
  case Nil
  then show ?case using beats_order(1) [OF assms(1), of x x] by simp
next
  case (Cons z xs)
  let ?w = "pick instant json path z x"
  have w: "?w = (if beats instant json z x then z else x)"
    using pick_beats [OF assms(1) _ _ assms(2), of z x] Cons.prems by simp
  then have "?w \<in> M" "beats instant json ?w x" "beats instant json ?w z"
    using Cons.prems beats_order(1,2) [OF assms(1), of z x] beats_order(1) [OF assms(1), of x x] by (auto split: if_splits)
  moreover from this(1) Cons have ih: "fold (pick instant json path) xs ?w \<in> set (?w # xs)"
      "\<forall>y \<in> set (?w # xs). beats instant json (fold (pick instant json path) xs ?w) y" by auto
  moreover have "fold (pick instant json path) xs ?w \<in> M" using ih(1) Cons.prems \<open>?w \<in> M\<close> by auto
  ultimately show ?case
    using beats_order(4) [OF assms(1), of "fold (pick instant json path) xs ?w" ?w] w by (auto split: if_splits)
qed


text \<open>
  With a timestamp that does not parse the choice is no order: the three versions below beat each
  other in a circle, so merging them two at a time depends on the order.
\<close>

definition meta_of :: "ustring \<Rightarrow> ustring \<Rightarrow> entry_metadata" where
  "meta_of updated tag = \<lparr>em_created = [], em_updated = updated, em_version = 1, em_tags = [tag], em_write_history = []\<rparr>"

lemma winner_cycle_with_bad_timestamp:
  assumes "instant ta = Some 2" "instant tb = Some 1" "instant tc = None" "path \<noteq> []"
    and "json (meta_of ta a) = Some ja" "json (meta_of tb b) = Some jb" "json (meta_of tc c) = Some jc" "jb < jc" "jc < ja"
  shows "pick instant json path (meta_of ta a) (meta_of tb b) = meta_of ta a \<and>
    pick instant json path (meta_of tb b) (meta_of tc c) = meta_of tb b \<and>
    pick instant json path (meta_of tc c) (meta_of ta a) = meta_of tc c"
  using assms by (simp add: winner_by_version_def canonical_is_smaller_or_equal_def Let_def meta_of_def less_imp_le)

section \<open>Concrete applications\<close>

definition demo_trees :: reconcile_input where
  "demo_trees =
     \<lparr>ri_base = [(lit ''a'', [0]), (lit ''b'', [1]), (lit ''c'', [2])],
      ri_local = [(lit ''a'', [10]), (lit ''b'', [1])],
      ri_remote = [(lit ''a'', [20]), (lit ''c'', [2]), (lit ''d'', [3])]\<rparr>"



end
