(* ===== verification/Json_Value.thy ===== *)
theory Json_Value
  imports Prelude
begin

text \<open>
  A JSON document as \<^verbatim>\<open>serde_json::Value\<close> has it. A number that is no integer is kept as its text; the
  members of an object stand in the order in which the source lists them. Printing and parsing belong to
  the \<^verbatim>\<open>serde_json\<close> crate and are parameters of the theories that need them.
\<close>

datatype json = JNull | JBool bool | JInt int | JFloat ustring | JString ustring | JArray "json list" | JObject "(ustring \<times> json) list"

text \<open>\<open>Value::get\<close> with a key: a member of an object, nothing of any other value.\<close>

definition json_get :: "json \<Rightarrow> ustring \<Rightarrow> json option" where
  "json_get v k = (case v of JObject m \<Rightarrow> map_of m k | _ \<Rightarrow> None)"

lemma json_get_simps [simp]:
  "json_get (JObject m) k = map_of m k" "json_get JNull k = None" "json_get (JArray l) k = None" "json_get (JString s) k = None"
  by (simp_all add: json_get_def)

end
