(* ===== verification/Agent_Limits.thy ===== *)
theory Agent_Limits
  imports Ordered_Map Framing Json_Value
begin

text \<open>
  \<^verbatim>\<open>symvault-core/src/quota.rs\<close>, \<^verbatim>\<open>persistent_quota.rs\<close> and \<^verbatim>\<open>tier.rs\<close>: the token bucket with a daily
  limit per agent, the counters kept in a file, and the named capability tiers.

  Floating-point arithmetic is a record of operations over a type of its own, since the source computes the
  bucket in \<open>f64\<close>; times are nanoseconds as signed 64-bit numbers and the clock reading of a call
  is an argument. The JSON parser and printer of the counter file are arguments; the file is the
  list of its bytes, and an argument of each operation says which calls into the system fail.
\<close>

section \<open>Token bucket\<close>

record 'f float_ops =
  fl_of_int :: "int \<Rightarrow> 'f"
  fl_add :: "'f \<Rightarrow> 'f \<Rightarrow> 'f"
  fl_sub :: "'f \<Rightarrow> 'f \<Rightarrow> 'f"
  fl_mul :: "'f \<Rightarrow> 'f \<Rightarrow> 'f"
  fl_div :: "'f \<Rightarrow> 'f \<Rightarrow> 'f"
  fl_min :: "'f \<Rightarrow> 'f \<Rightarrow> 'f"
  fl_less :: "'f \<Rightarrow> 'f \<Rightarrow> bool"

record 'f rate_limit_state =
  rs_tokens :: 'f
  rs_capacity :: 'f
  rs_refill_rate :: 'f
  rs_last_refill :: int
  rs_daily_count :: int
  rs_daily_window_start :: int
  rs_max_per_day :: int

record rate_limit_limits =
  max_per_hour :: int
  max_per_day :: int

datatype rate_limit_event = SetLimits | Allow

definition rate_limit_default :: "'f float_ops \<Rightarrow> 'f rate_limit_state" where
  "rate_limit_default F =
     \<lparr>rs_tokens = fl_of_int F 0, rs_capacity = fl_of_int F 0, rs_refill_rate = fl_of_int F 0, rs_last_refill = 0,
      rs_daily_count = 0, rs_daily_window_start = 0, rs_max_per_day = 0\<rparr>"

definition refill :: "'f float_ops \<Rightarrow> int \<Rightarrow> 'f rate_limit_state \<Rightarrow> 'f rate_limit_state" where
  "refill F now st =
     (let elapsed = i64_sat_sub now (rs_last_refill st)
      in if 0 < elapsed
         then st\<lparr>rs_tokens := fl_min F
                  (fl_add F (rs_tokens st)
                    (fl_mul F (fl_div F (fl_of_int F elapsed) (fl_of_int F 1000000000)) (rs_refill_rate st)))
                  (rs_capacity st),
                 rs_last_refill := now\<rparr>
         else st)"

definition roll_day :: "int \<Rightarrow> 'f rate_limit_state \<Rightarrow> 'f rate_limit_state" where
  "roll_day now st =
     (if 86400000000000 \<le> i64_sat_sub now (rs_daily_window_start st)
      then st\<lparr>rs_daily_count := 0, rs_daily_window_start := now\<rparr> else st)"

definition transition_rate_limit ::
  "'f float_ops \<Rightarrow> 'f rate_limit_state \<Rightarrow> rate_limit_limits \<Rightarrow> int \<Rightarrow> rate_limit_event \<Rightarrow> 'f rate_limit_state \<times> bool" where
  "transition_rate_limit F st limits now event =
     (if event = SetLimits then
        (let hour = fl_of_int F (max_per_hour limits)
         in (\<lparr>rs_tokens = hour, rs_capacity = hour, rs_refill_rate = fl_div F hour (fl_of_int F 3600), rs_last_refill = now,
              rs_daily_count = 0, rs_daily_window_start = now, rs_max_per_day = max_per_day limits\<rparr>, False))
      else
        (let n1 = refill F now st; n2 = (if 0 < rs_max_per_day n1 then roll_day now n1 else n1)
         in if 0 < rs_max_per_day n2 \<and> rs_max_per_day n2 \<le> rs_daily_count n2 then (n2, False)
            else if fl_less F (rs_tokens n2) (fl_of_int F 1) then (n2, False)
            else (n2\<lparr>rs_tokens := fl_sub F (rs_tokens n2) (fl_of_int F 1),
                     rs_daily_count := (if 0 < rs_max_per_day n2 then rs_daily_count n2 + 1 else rs_daily_count n2)\<rparr>,
                  True)))"

text \<open>The registry of buckets behind its mutex.\<close>

record 'f agent_limiter =
  al_buckets :: "(ustring \<times> 'f rate_limit_state) list"
  al_poisoned :: bool

definition limiter_new :: "'f agent_limiter" where
  "limiter_new = \<lparr>al_buckets = [], al_poisoned = False\<rparr>"

definition set_limits ::
  "'f float_ops \<Rightarrow> int \<Rightarrow> ustring \<Rightarrow> int \<Rightarrow> int \<Rightarrow> 'f agent_limiter \<Rightarrow> 'f agent_limiter" where
  "set_limits F now agent per_hour per_day A =
     (let st = fst (transition_rate_limit F (rate_limit_default F) \<lparr>max_per_hour = per_hour, max_per_day = per_day\<rparr> now SetLimits)
      in if al_poisoned A then A else A\<lparr>al_buckets := bt_insert agent st (al_buckets A)\<rparr>)"

definition limiter_allow :: "'f float_ops \<Rightarrow> int \<Rightarrow> ustring \<Rightarrow> 'f agent_limiter \<Rightarrow> bool \<times> 'f agent_limiter" where
  "limiter_allow F now agent A =
     (if al_poisoned A then (False, A)
      else (case map_of (al_buckets A) agent of
        None \<Rightarrow> (True, A)
      | Some st \<Rightarrow>
          (let (next_st, allowed) = transition_rate_limit F st \<lparr>max_per_hour = 0, max_per_day = 0\<rparr> now Allow
           in (allowed, A\<lparr>al_buckets := bt_insert agent next_st (al_buckets A)\<rparr>))))"

definition has_limits :: "ustring \<Rightarrow> 'f agent_limiter \<Rightarrow> bool" where
  "has_limits agent A = (if al_poisoned A then False else map_of (al_buckets A) agent \<noteq> None)"

definition limiter_cleanup :: "'f agent_limiter \<Rightarrow> 'f agent_limiter" where
  "limiter_cleanup A = (if al_poisoned A then A else A\<lparr>al_buckets := []\<rparr>)"

text \<open>\<open>SystemTime::now\<close> as nanoseconds: before the epoch or past 64 bits gives the largest number.\<close>

definition unix_now_nanos :: "int \<Rightarrow> int" where
  "unix_now_nanos t = (if 0 \<le> t \<and> t \<le> i64_max then t else i64_max)"

section \<open>Persistent counters\<close>

datatype quota_error = Closed | QuotaIo ustring | QuotaMalformed ustring | QuotaLock ustring | QuotaPoisoned

type_synonym counters = "(ustring \<times> int) list"

record quota_codec =
  qc_parse :: "nat list \<Rightarrow> ustring + json"
  qc_print :: "counters \<Rightarrow> ustring + nat list"
  qc_quote :: "ustring \<Rightarrow> ustring"

datatype quota_site = LockSite | UnlockSite | CloneSite | SeekRead | ReadSite | TruncateSite | SeekWrite | WriteSite | SyncSite

record quota_env =
  qe_fault :: "quota_site \<Rightarrow> ustring option"
  qe_torn :: nat

text \<open>The shared file with its advisory lock, and one counter's handle on it.\<close>

record quota_file =
  qf_bytes :: "nat list"
  qf_locked :: bool

record quota_counter =
  qn_open :: bool
  qn_poisoned :: bool

definition q_try :: "quota_env \<Rightarrow> quota_site \<Rightarrow> quota_error + unit" where
  "q_try E site = (case qe_fault E site of None \<Rightarrow> Inr () | Some m \<Rightarrow> Inl (QuotaIo m))"

definition platform_read :: "quota_env \<Rightarrow> nat list \<Rightarrow> quota_error + nat list" where
  "platform_read E b = res_bind (q_try E SeekRead) (\<lambda>_. res_bind (q_try E ReadSite) (\<lambda>_. Inr b))"

definition write_sync :: "quota_env \<Rightarrow> nat list \<Rightarrow> nat list \<Rightarrow> (quota_error + unit) \<times> nat list" where
  "write_sync E new old =
     (case q_try E TruncateSite of
        Inl e \<Rightarrow> (Inl e, old)
      | Inr _ \<Rightarrow>
          (case q_try E SeekWrite of
             Inl e \<Rightarrow> (Inl e, [])
           | Inr _ \<Rightarrow>
               (case q_try E WriteSite of
                  Inl e \<Rightarrow> (Inl e, take (qe_torn E) new)
                | Inr _ \<Rightarrow> (q_try E SyncSite, new))))"

fun counters_of :: "quota_codec \<Rightarrow> (ustring \<times> json) list \<Rightarrow> counters \<Rightarrow> quota_error + counters" where
  "counters_of C [] m = Inr m"
| "counters_of C ((k, v) # r) m =
     (case v of
        JInt i \<Rightarrow>
          if in_i64 i then counters_of C r (bt_insert k i m)
          else Inl (QuotaMalformed (lit ''counter '' @ qc_quote C k @ lit '' must be an integer''))
      | _ \<Rightarrow> Inl (QuotaMalformed (lit ''counter '' @ qc_quote C k @ lit '' must be an integer'')))"

definition read_state :: "quota_codec \<Rightarrow> quota_env \<Rightarrow> nat list \<Rightarrow> quota_error + counters" where
  "read_state C E file =
     res_bind (platform_read E file) (\<lambda>bytes.
       if bytes = [] then Inr []
       else (case qc_parse C bytes of
         Inl m \<Rightarrow> Inl (QuotaMalformed m)
       | Inr v \<Rightarrow>
           (case json_get v (lit ''counters'') of
              None \<Rightarrow> Inr []
            | Some JNull \<Rightarrow> Inr []
            | Some (JObject m) \<Rightarrow> counters_of C m []
            | Some _ \<Rightarrow> Inl (QuotaMalformed (lit ''counters must be an object'')))))"

definition write_state :: "quota_codec \<Rightarrow> quota_env \<Rightarrow> counters \<Rightarrow> nat list \<Rightarrow> (quota_error + unit) \<times> nat list" where
  "write_state C E st file =
     (case qc_print C st of Inl m \<Rightarrow> (Inl (QuotaMalformed m), file) | Inr b \<Rightarrow> write_sync E b file)"

definition with_locked ::
  "quota_env \<Rightarrow> (nat list \<Rightarrow> (quota_error + 'a) \<times> nat list) \<Rightarrow> quota_counter \<Rightarrow> quota_file \<Rightarrow>
   (quota_error + 'a) \<times> quota_file" where
  "with_locked E operation q f =
     (if qn_poisoned q then (Inl QuotaPoisoned, f)
      else if \<not> qn_open q then (Inl Closed, f)
      else (case qe_fault E LockSite of
        Some m \<Rightarrow> (Inl (QuotaLock m), f)
      | None \<Rightarrow>
          (case q_try E CloneSite of
             Inl e \<Rightarrow> (Inl e, f\<lparr>qf_locked := True\<rparr>)
           | Inr _ \<Rightarrow>
               (case operation (qf_bytes f) of
                  (result, bytes) \<Rightarrow>
                    (case qe_fault E UnlockSite of
                       None \<Rightarrow> (result, \<lparr>qf_bytes = bytes, qf_locked = False\<rparr>)
                     | Some m \<Rightarrow>
                         ((case result of Inr _ \<Rightarrow> Inl (QuotaLock m) | Inl e \<Rightarrow> Inl e),
                          \<lparr>qf_bytes = bytes, qf_locked = True\<rparr>))))))"

definition quota_increment ::
  "quota_codec \<Rightarrow> quota_env \<Rightarrow> ustring \<Rightarrow> quota_counter \<Rightarrow> quota_file \<Rightarrow> (quota_error + int) \<times> quota_file" where
  "quota_increment C E name =
     with_locked E (\<lambda>file.
       case read_state C E file of
         Inl e \<Rightarrow> (Inl e, file)
       | Inr st \<Rightarrow>
           (let count = i64_sat_add (case map_of st name of Some c \<Rightarrow> c | None \<Rightarrow> 0) 1
            in case write_state C E (bt_insert name count st) file of
                 (Inl e, file') \<Rightarrow> (Inl e, file')
               | (Inr _, file') \<Rightarrow> (Inr count, file')))"

definition quota_check ::
  "quota_codec \<Rightarrow> quota_env \<Rightarrow> ustring \<Rightarrow> int \<Rightarrow> quota_counter \<Rightarrow> quota_file \<Rightarrow> (quota_error + bool \<times> int) \<times> quota_file" where
  "quota_check C E name limit q f =
     (if limit \<le> 0 then (Inr (False, 0), f)
      else with_locked E (\<lambda>file.
        (res_bind (read_state C E file) (\<lambda>st.
           let count = (case map_of st name of Some c \<Rightarrow> c | None \<Rightarrow> 0) in Inr (count < limit, count)), file)) q f)"

definition quota_reset ::
  "quota_codec \<Rightarrow> quota_env \<Rightarrow> quota_counter \<Rightarrow> quota_file \<Rightarrow> (quota_error + unit) \<times> quota_file" where
  "quota_reset C E = with_locked E (\<lambda>file. write_state C E [] file)"

definition quota_close :: "quota_counter \<Rightarrow> quota_counter" where
  "quota_close q = q\<lparr>qn_open := False\<rparr>"

section \<open>Tiers\<close>

datatype tier_preset = ReadOnly | Standard | Admin

definition tier_as_str :: "tier_preset \<Rightarrow> ustring" where
  "tier_as_str t = (case t of ReadOnly \<Rightarrow> lit ''read-only'' | Standard \<Rightarrow> lit ''standard'' | Admin \<Rightarrow> lit ''admin'')"

definition tier_parse :: "ustring \<Rightarrow> tier_preset option" where
  "tier_parse v =
     (if v = lit ''read-only'' then Some ReadOnly
      else if v = lit ''standard'' then Some Standard
      else if v = lit ''admin'' then Some Admin else None)"

record agent_profile =
  ap_name :: ustring
  ap_tier :: "ustring option"
  ap_approval_mode :: "ustring option"
  ap_allowed_paths :: "ustring list"
  can_write :: "bool option"
  can_run_commands :: "bool option"
  can_manage_config :: "bool option"
  can_use_clipboard :: "bool option"
  can_use_autotype :: "bool option"
  can_read_values :: "bool option"
  expose_value_tools :: "bool option"
  auto_unseal :: "bool option"
  require_approval :: "bool option"
  allowed_executables :: "ustring list option"

definition profile_default :: agent_profile where
  "profile_default =
     \<lparr>ap_name = [], ap_tier = None, ap_approval_mode = None, ap_allowed_paths = [], can_write = None,
      can_run_commands = None, can_manage_config = None, can_use_clipboard = None, can_use_autotype = None,
      can_read_values = None, expose_value_tools = None, auto_unseal = None, require_approval = None,
      allowed_executables = None\<rparr>"

definition standard_executables :: "ustring list" where
  "standard_executables = map lit [''curl'', ''git'', ''terraform'', ''npm'', ''node'', ''python'', ''python3'', ''docker'', ''kubectl'']"

definition preset_of :: "tier_preset \<Rightarrow> agent_profile" where
  "preset_of t =
     (case t of
        ReadOnly \<Rightarrow> profile_default
          \<lparr>can_write := Some False, can_run_commands := Some False, can_manage_config := Some False,
           can_use_clipboard := Some False, can_use_autotype := Some False, can_read_values := Some False,
           expose_value_tools := Some False, auto_unseal := Some False, ap_approval_mode := Some (lit ''deny''),
           require_approval := Some False\<rparr>
      | Standard \<Rightarrow> profile_default
          \<lparr>can_write := Some False, can_run_commands := Some False, can_manage_config := Some False,
           can_use_clipboard := Some True, can_use_autotype := Some True, can_read_values := Some True,
           expose_value_tools := Some False, auto_unseal := Some False, ap_approval_mode := Some (lit ''prompt''),
           require_approval := Some True, allowed_executables := Some standard_executables\<rparr>
      | Admin \<Rightarrow> profile_default
          \<lparr>can_write := Some True, can_run_commands := Some True, can_manage_config := Some True,
           can_use_clipboard := Some True, can_use_autotype := Some True, can_read_values := Some True,
           expose_value_tools := Some True, auto_unseal := Some True, ap_approval_mode := Some (lit ''prompt''),
           require_approval := Some True\<rparr>)"

definition get_preset :: "ustring \<Rightarrow> agent_profile option" where
  "get_preset tier = map_option preset_of (tier_parse tier)"

definition apply_tier_preset :: "ustring \<Rightarrow> agent_profile \<Rightarrow> bool \<times> agent_profile" where
  "apply_tier_preset tier target =
     (case get_preset tier of
        None \<Rightarrow> (False, target)
      | Some p \<Rightarrow>
          (True, target
            \<lparr>can_write := Some (can_write p = Some True), can_run_commands := Some (can_run_commands p = Some True),
             can_manage_config := Some (can_manage_config p = Some True),
             can_use_clipboard := Some (can_use_clipboard p = Some True),
             can_use_autotype := Some (can_use_autotype p = Some True),
             can_read_values := Some (can_read_values p = Some True),
             expose_value_tools := Some (expose_value_tools p = Some True),
             auto_unseal := Some (auto_unseal p = Some True),
             ap_approval_mode := (if ap_approval_mode p \<noteq> None then ap_approval_mode p else ap_approval_mode target),
             require_approval := Some (require_approval p = Some True),
             allowed_executables := (if allowed_executables p \<noteq> None then allowed_executables p else allowed_executables target)\<rparr>))"

section \<open>The daily limit\<close>

text \<open>
  One bucket seen from outside: within a day of the window start an allowed call counts one, a
  refused call counts nothing, and the count never passes the limit.
\<close>

definition day_inv :: "int \<Rightarrow> int \<Rightarrow> int \<Rightarrow> 'f rate_limit_state \<Rightarrow> bool" where
  "day_inv start limit n st \<longleftrightarrow>
     rs_daily_window_start st = start \<and> rs_max_per_day st = limit \<and> rs_daily_count st = n \<and> n \<le> limit"

lemma allow_day:
  assumes "day_inv start limit n st" "0 < limit" "i64_sat_sub now start < 86400000000000"
    and "transition_rate_limit F st lim now Allow = (st', b)"
  shows "day_inv start limit (if b then n + 1 else n) st'"
  using assms
  by (auto simp: day_inv_def transition_rate_limit_def refill_def roll_day_def Let_def split: if_splits)

text \<open>A history of calls of any agents; the answers come with the limiter left behind.\<close>

fun allow_calls :: "'f float_ops \<Rightarrow> (ustring \<times> int) list \<Rightarrow> 'f agent_limiter \<Rightarrow> bool list \<times> 'f agent_limiter" where
  "allow_calls F [] A = ([], A)"
| "allow_calls F ((agent, now) # cs) A =
     (let (b, A') = limiter_allow F now agent A; (bs, A'') = allow_calls F cs A' in (b # bs, A''))"

definition allowed_of :: "ustring \<Rightarrow> (ustring \<times> int) list \<Rightarrow> bool list \<Rightarrow> nat" where
  "allowed_of agent cs bs = length (filter (\<lambda>((a, _), b). a = agent \<and> b) (zip cs bs))"

lemma allowed_of_simps [simp]:
  "allowed_of agent [] bs = 0"
  "allowed_of agent ((a, t) # cs) (b # bs) = (if a = agent \<and> b then Suc (allowed_of agent cs bs) else allowed_of agent cs bs)"
  by (simp_all add: allowed_of_def)

lemma limiter_allow_bucket:
  assumes "bt_inv (al_buckets A)" "\<not> al_poisoned A" "limiter_allow F now a A = (b, A')"
  shows "bt_inv (al_buckets A')" "\<not> al_poisoned A'"
    "agent \<noteq> a \<Longrightarrow> map_of (al_buckets A') agent = map_of (al_buckets A) agent"
    "map_of (al_buckets A) a = Some st \<Longrightarrow>
      \<exists>st'. map_of (al_buckets A') a = Some st' \<and> transition_rate_limit F st \<lparr>max_per_hour = 0, max_per_day = 0\<rparr> now Allow = (st', b)"
  using assms
  by (auto simp: limiter_allow_def bt_inv_insert bt_lookup_insert split: option.splits prod.splits)

lemma allow_calls_day:
  assumes "bt_inv (al_buckets A)" "\<not> al_poisoned A" "map_of (al_buckets A) agent = Some st" "day_inv start limit n st" "0 < limit"
    and "\<forall>(a, t) \<in> set cs. a = agent \<longrightarrow> i64_sat_sub t start < 86400000000000"
    and "allow_calls F cs A = (bs, A')"
  shows "n + int (allowed_of agent cs bs) \<le> limit"
  using assms
proof (induction cs arbitrary: A st n bs)
  case Nil
  then show ?case by (simp add: day_inv_def)
next
  case (Cons c cs)
  obtain a t where c: "c = (a, t)" by fastforce
  obtain b A1 where A1: "limiter_allow F t a A = (b, A1)" by fastforce
  with Cons.prems(7) c obtain bs1 where bs: "bs = b # bs1" "allow_calls F cs A1 = (bs1, A')"
    by (auto split: prod.splits)
  note l = limiter_allow_bucket [OF Cons.prems(1,2) A1]
  show ?case
  proof (cases "a = agent")
    case True
    from l(4) Cons.prems(3) True obtain st1 where st1: "map_of (al_buckets A1) agent = Some st1"
      "transition_rate_limit F st \<lparr>max_per_hour = 0, max_per_day = 0\<rparr> t Allow = (st1, b)" by blast
    have "day_inv start limit (if b then n + 1 else n) st1"
      using allow_day [OF Cons.prems(4,5) _ st1(2)] Cons.prems(6) c True by auto
    from Cons.IH [OF l(1,2) st1(1) this Cons.prems(5) _ bs(2)] Cons.prems(6) c True bs(1) show ?thesis by auto
  next
    case False
    from Cons.IH [OF l(1,2) _ Cons.prems(4,5) _ bs(2)] l(3) [of agent] Cons.prems(3,6) c False bs(1) show ?thesis by auto
  qed
qed


definition int_floats :: "int float_ops" where
  "int_floats = \<lparr>fl_of_int = (\<lambda>i. i), fl_add = (+), fl_sub = (-), fl_mul = (*), fl_div = (div), fl_min = min, fl_less = (<)\<rparr>"


section \<open>Counters survive\<close>

text \<open>The printer and the parser of the counter file agree; a printed file is not empty.\<close>

definition quota_codec_ok :: "quota_codec \<Rightarrow> bool" where
  "quota_codec_ok C \<longleftrightarrow>
     (\<forall>m. bt_inv m \<and> (\<forall>(k, c) \<in> set m. in_i64 c) \<longrightarrow>
        (\<exists>b. qc_print C m = Inr b \<and> b \<noteq> [] \<and>
           qc_parse C b = Inr (JObject [(lit ''counters'', JObject (map (\<lambda>(k, c). (k, JInt c)) m))])))"

definition quiet :: "quota_env \<Rightarrow> bool" where
  "quiet E \<longleftrightarrow> qe_fault E = (\<lambda>_. None)"

lemma quiet_try [simp]: "quiet E \<Longrightarrow> q_try E site = Inr ()" "quiet E \<Longrightarrow> qe_fault E site = None"
  by (simp_all add: quiet_def q_try_def)

lemma counters_of_ints:
  "(\<forall>(k, c) \<in> set m. in_i64 c) \<Longrightarrow>
   counters_of C (map (\<lambda>(k, c). (k, JInt c)) m) acc = Inr (fold (\<lambda>(k, c). bt_insert k c) m acc)"
  by (induction m arbitrary: acc) auto

lemma fold_bt_insert_sorted:
  assumes "bt_inv m" "bt_inv acc"
  shows "bt_inv (fold (\<lambda>(k, c). bt_insert k c) m acc) \<and>
    map_of (fold (\<lambda>(k, c). bt_insert k c) m acc) n = (case map_of m n of Some c \<Rightarrow> Some c | None \<Rightarrow> map_of acc n)"
  using assms
proof (induction m arbitrary: acc)
  case (Cons x m)
  obtain k c where x: "x = (k, c)" by fastforce
  have "map_of m k = None" using bt_inv_distinct [OF Cons.prems(1)] x by (simp add: map_of_eq_None_iff)
  with Cons.IH [of "bt_insert k c acc"] Cons.prems x show ?case
    by (auto simp: bt_inv_Cons bt_inv_insert bt_lookup_insert split: option.splits)
qed simp

text \<open>The file holds these counters.\<close>

definition quota_holds :: "quota_codec \<Rightarrow> counters \<Rightarrow> nat list \<Rightarrow> bool" where
  "quota_holds C m file \<longleftrightarrow>
     bt_inv m \<and> (\<forall>(k, c) \<in> set m. in_i64 c) \<and> (file = [] \<and> m = [] \<or> qc_print C m = Inr file)"

lemma read_holds:
  assumes "quota_codec_ok C" "quiet E" "quota_holds C m file"
  shows "\<exists>m'. read_state C E file = Inr m' \<and> bt_inv m' \<and> map_of m' = map_of m"
proof (cases "file = []")
  case True
  with assms(3) have "m = []"
    using assms(1) unfolding quota_holds_def quota_codec_ok_def by (metis Inr_inject)
  with True assms(2) show ?thesis by (simp add: read_state_def platform_read_def)
next
  case False
  with assms(1,3) have "qc_parse C file = Inr (JObject [(lit ''counters'', JObject (map (\<lambda>(k, c). (k, JInt c)) m))])"
    unfolding quota_holds_def quota_codec_ok_def by (metis Inr_inject)
  with False assms(2,3) have "read_state C E file = Inr (fold (\<lambda>(k, c). bt_insert k c) m [])"
    by (simp add: read_state_def platform_read_def json_get_def counters_of_ints quota_holds_def del: lit_simps)
  moreover have "bt_inv m" using assms(3) by (simp add: quota_holds_def)
  ultimately show ?thesis using fold_bt_insert_sorted [OF \<open>bt_inv m\<close>, of "[]"] by (auto split: option.splits)
qed

lemma holds_insert:
  assumes "quota_codec_ok C" "bt_inv m'" "map_of m' = map_of m" "quota_holds C m file" "in_i64 c"
  shows "\<exists>b. qc_print C (bt_insert n c m') = Inr b \<and> b \<noteq> [] \<and> quota_holds C (bt_insert n c m') b"
proof -
  have "in_i64 d" if "(k, d) \<in> set m'" for k d
    using that assms(2,3,4) bt_in_iff [of m' k d] bt_in_iff [of m k d] by (auto simp: quota_holds_def)
  then have "\<forall>(k, d) \<in> set (bt_insert n c m'). in_i64 d" using assms(5) by (auto simp: bt_insert_set [OF assms(2)])
  moreover have "bt_inv (bt_insert n c m')" using assms(2) by (rule bt_inv_insert)
  ultimately show ?thesis using assms(1) unfolding quota_codec_ok_def quota_holds_def by blast
qed

definition usable :: "quota_counter \<Rightarrow> bool" where
  "usable q \<longleftrightarrow> qn_open q \<and> \<not> qn_poisoned q"

text \<open>What the file counts after these increments: saturating at the largest 64-bit number.\<close>

definition counts :: "quota_codec \<Rightarrow> ustring list \<Rightarrow> nat list \<Rightarrow> bool" where
  "counts C names file \<longleftrightarrow>
     (\<exists>m. quota_holds C m file \<and> (\<forall>n. (case map_of m n of None \<Rightarrow> 0 | Some c \<Rightarrow> c) = min (int (count_list names n)) i64_max))"

lemma increment_counts:
  assumes "quota_codec_ok C" "quiet E" "usable q" "counts C names (qf_bytes f)"
  shows "\<exists>f'. quota_increment C E name q f = (Inr (min (int (count_list names name) + 1) i64_max), f') \<and>
    counts C (name # names) (qf_bytes f')"
proof -
  from assms(4) obtain m where m: "quota_holds C m (qf_bytes f)"
    "\<forall>n. (case map_of m n of None \<Rightarrow> 0 | Some c \<Rightarrow> c) = min (int (count_list names n)) i64_max"
    by (auto simp: counts_def)
  from read_holds [OF assms(1,2) m(1)] obtain m' where
    m': "read_state C E (qf_bytes f) = Inr m'" "bt_inv m'" "map_of m' = map_of m" by blast
  define c where "c = min (int (count_list names name) + 1) i64_max"
  have c: "i64_sat_add (case map_of m' name of Some c \<Rightarrow> c | None \<Rightarrow> 0) 1 = c" "in_i64 c"
    using m(2) [rule_format, of name] unfolding m'(3)
    by (auto simp: c_def i64_sat_add_def clamp_def in_i64_def split: option.splits)
  from holds_insert [OF assms(1) m'(2,3) m(1) c(2), of name] obtain b where
    b: "qc_print C (bt_insert name c m') = Inr b" "quota_holds C (bt_insert name c m') b" by blast
  have "quota_increment C E name q f = (Inr c, \<lparr>qf_bytes = b, qf_locked = False\<rparr>)"
    using assms(2,3) m'(1) b(1) c(1)
    by (simp add: quota_increment_def with_locked_def usable_def write_state_def write_sync_def Let_def)
  moreover have "counts C (name # names) b"
    unfolding counts_def
    using b(2) m(2) by (intro exI [of _ "bt_insert name c m'"]) (auto simp: bt_lookup_insert [OF m'(2)] m'(3) c_def)
  ultimately show ?thesis by (auto simp: c_def)
qed

text \<open>
  No increment is lost: after any sequence of increments of any names through any number of open
  counters on the same file, a check of a name sees exactly the number of its increments
  (saturating at the largest 64-bit number) and compares it with the limit.
\<close>

theorem quota_counts_increments:
  assumes "quota_codec_ok C" "quiet E" "\<forall>(q, n) \<in> set ops. usable q" "usable q" "0 < limit"
  shows "fst (quota_check C E name limit q
      (fold (\<lambda>(q, n) f. snd (quota_increment C E n q f)) ops \<lparr>qf_bytes = [], qf_locked = False\<rparr>)) =
    (let c = min (int (count_list (map snd ops) name)) i64_max in Inr (c < limit, c))"
proof -
  define g where "g = fold (\<lambda>(q, n) f. snd (quota_increment C E n q f))"
  define fl where "fl = g ops \<lparr>qf_bytes = [], qf_locked = False\<rparr>"
  have "counts C (rev (map snd ops)) (qf_bytes (g ops \<lparr>qf_bytes = [], qf_locked = False\<rparr>))"
    using assms(3)
  proof (induction ops rule: rev_induct)
    case Nil
    show ?case unfolding counts_def g_def by (rule exI [of _ "[]"]) (simp add: quota_holds_def)
  next
    case (snoc x ops)
    obtain q' n where x: "x = (q', n)" by fastforce
    from snoc have "counts C (rev (map snd ops)) (qf_bytes (g ops \<lparr>qf_bytes = [], qf_locked = False\<rparr>))" "usable q'"
      by (auto simp: x)
    from increment_counts [OF assms(1,2) this(2,1), of n] show ?case by (auto simp: x g_def)
  qed
  then obtain m where m: "quota_holds C m (qf_bytes fl)"
    "\<forall>n. (case map_of m n of None \<Rightarrow> 0 | Some c \<Rightarrow> c) = min (int (count_list (map snd ops) n)) i64_max"
    unfolding counts_def fl_def by auto
  from read_holds [OF assms(1,2) m(1)] obtain m' where
    m': "read_state C E (qf_bytes fl) = Inr m'" "map_of m' = map_of m" by blast
  have "(case map_of m' name of Some c \<Rightarrow> c | None \<Rightarrow> 0) = min (int (count_list (map snd ops) name)) i64_max"
    using m(2) [rule_format, of name] m'(2) by (simp add: option.case_eq_if)
  then have "fst (quota_check C E name limit q fl) = (let c = min (int (count_list (map snd ops) name)) i64_max in Inr (c < limit, c))"
    using assms(2,4,5) m'(1) by (simp add: quota_check_def with_locked_def usable_def)
  then show ?thesis by (simp only: fl_def g_def)
qed

text \<open>
  A failing write forgets every counter: the file is truncated before the new bytes are written, an
  increment whose write fails at once reports the error and leaves an empty file, and an empty file
  counts zero, so the next check admits the call again.
\<close>

theorem quota_failed_write_resets:
  assumes "quota_codec_ok C" "quota_holds C m (qf_bytes f)" "usable q" "in_i64 c" "map_of m name = Some c"
    and "qe_fault E = (\<lambda>s. if s = WriteSite then Some msg else None)" "qe_torn E = 0" "quiet E'" "0 < limit"
  shows "\<exists>f'. quota_increment C E name q f = (Inl (QuotaIo msg), f') \<and>
    fst (quota_check C E' name limit q f') = Inr (True, 0)"
proof -
  have tr: "q_try E s = (if s = WriteSite then Inl (QuotaIo msg) else Inr ())" for s
    by (simp add: q_try_def assms(6))
  have "quiet (E\<lparr>qe_fault := \<lambda>_. None\<rparr>)" by (simp add: quiet_def)
  from read_holds [OF assms(1) this assms(2)] obtain m' where
    m': "read_state C (E\<lparr>qe_fault := \<lambda>_. None\<rparr>) (qf_bytes f) = Inr m'" "bt_inv m'" "map_of m' = map_of m" by blast
  have "platform_read E x = platform_read (E\<lparr>qe_fault := \<lambda>_. None\<rparr>) x" for x
    by (simp add: platform_read_def tr) (simp add: q_try_def)
  then have rd: "read_state C E (qf_bytes f) = Inr m'" using m'(1) by (simp only: read_state_def)
  have "in_i64 (i64_sat_add c 1)" by (simp add: i64_sat_add_def clamp_def in_i64_def)
  from holds_insert [OF assms(1) m'(2,3) assms(2) this, of name] obtain b where
    "qc_print C (bt_insert name (i64_sat_add c 1) m') = Inr b" by blast
  then have "quota_increment C E name q f = (Inl (QuotaIo msg), \<lparr>qf_bytes = [], qf_locked = False\<rparr>)"
    using assms(3,5,6,7) rd m'(3)
    by (simp add: quota_increment_def with_locked_def usable_def write_state_def write_sync_def tr Let_def)
  then show ?thesis
    using assms(3,8,9) by (simp add: quota_check_def with_locked_def usable_def read_state_def platform_read_def Let_def)
qed

section \<open>What a tier grants\<close>

definition grants :: "agent_profile \<Rightarrow> bool list" where
  "grants p = map (\<lambda>c. c = Some True)
     [can_write p, can_run_commands p, can_manage_config p, can_use_clipboard p, can_use_autotype p, can_read_values p,
      expose_value_tools p, auto_unseal p]"

text \<open>
  Applying a tier sets every capability to the tier's own, whatever the profile allowed before: the
  read-only tier grants nothing, each tier grants what the one below grants, an unknown name changes
  nothing, identity and paths are kept, and applying a tier twice is applying it once.
\<close>

lemma tier_grants:
  "tier_parse tier = Some t \<Longrightarrow> grants (snd (apply_tier_preset tier p)) = grants (preset_of t)"
  "grants (preset_of ReadOnly) = replicate 8 False"
  "list_all2 (\<longrightarrow>) (grants (preset_of ReadOnly)) (grants (preset_of Standard))"
  "list_all2 (\<longrightarrow>) (grants (preset_of Standard)) (grants (preset_of Admin))"
  by (simp_all add: grants_def apply_tier_preset_def get_preset_def preset_of_def numeral_eq_Suc)

lemma tier_frame:
  "tier_parse tier = None \<Longrightarrow> apply_tier_preset tier p = (False, p)"
  "ap_name (snd (apply_tier_preset tier p)) = ap_name p"
  "ap_allowed_paths (snd (apply_tier_preset tier p)) = ap_allowed_paths p"
  "apply_tier_preset tier (snd (apply_tier_preset tier p)) = apply_tier_preset tier p"
  by (auto simp: apply_tier_preset_def get_preset_def split: option.splits)

lemma tier_round_trip: "tier_parse (tier_as_str t) = Some t"
  by (cases t) (simp_all add: tier_as_str_def tier_parse_def)

section \<open>A concrete counter file\<close>

text \<open>Names and counts in turn, as numbers; the first number marks a written file.\<close>

definition demo_quota_codec :: quota_codec where
  "demo_quota_codec =
     \<lparr>qc_parse = (\<lambda>b. Inr (JObject [(lit ''counters'',
        JObject (map (\<lambda>x. (tl (tl x), JInt (int (x ! 0) - int (x ! 1)))) (the (unframes (tl b)))))])),
      qc_print = (\<lambda>m. Inr (1 # frames (map (\<lambda>(k, c). nat c # nat (- c) # k) m))),
      qc_quote = (\<lambda>s. s)\<rparr>"

lemma demo_quota_codec_ok: "quota_codec_ok demo_quota_codec"
  by (auto simp: quota_codec_ok_def demo_quota_codec_def unframes_frames)

definition demo_handle :: quota_counter where "demo_handle = \<lparr>qn_open = True, qn_poisoned = False\<rparr>"

definition demo_quiet :: quota_env where "demo_quiet = \<lparr>qe_fault = (\<lambda>_. None), qe_torn = 0\<rparr>"

theorem quota_counts_increments_witness:
  "fst (quota_check demo_quota_codec demo_quiet (lit ''read'') 3 demo_handle
      (fold (\<lambda>(q, n) f. snd (quota_increment demo_quota_codec demo_quiet n q f))
        [(demo_handle, lit ''read''), (demo_handle, lit ''write''), (demo_handle, lit ''read'')]
        \<lparr>qf_bytes = [], qf_locked = False\<rparr>)) = Inr (True, 2)"
  using quota_counts_increments [OF demo_quota_codec_ok, of demo_quiet
      "[(demo_handle, lit ''read''), (demo_handle, lit ''write''), (demo_handle, lit ''read'')]" demo_handle 3 "lit ''read''"]
  by (simp add: quiet_def demo_quiet_def usable_def demo_handle_def)

end
