(* ===== verification/Anomaly.thy ===== *)
theory Anomaly
  imports Prelude
begin

text \<open>
  \<^verbatim>\<open>symvault-mcp/src/anomaly.rs\<close>: the sliding window of tool calls and the five rules of the anomaly
  detector. A date-time is its instant in nanoseconds with the offset of its zone in seconds; the
  source compares date-times by instant and reads the hour in their own zone. Durations are
  nanoseconds. The rendering of the log lines is not modelled.
\<close>

section \<open>Events, alerts and rules\<close>

datatype severity = Low | Medium | High | Critical

datatype alert_type = Sweep | StaleAccess | RateAnomaly | OffHours | CanaryAccess | ToolChain

definition severity_as_str :: "severity \<Rightarrow> ustring" where
  "severity_as_str s =
     (case s of Low \<Rightarrow> lit ''low'' | Medium \<Rightarrow> lit ''medium'' | High \<Rightarrow> lit ''high'' | Critical \<Rightarrow> lit ''critical'')"

definition alert_as_str :: "alert_type \<Rightarrow> ustring" where
  "alert_as_str a =
     (case a of Sweep \<Rightarrow> lit ''sweep'' | StaleAccess \<Rightarrow> lit ''stale_access'' | RateAnomaly \<Rightarrow> lit ''rate_anomaly''
      | OffHours \<Rightarrow> lit ''off_hours'' | CanaryAccess \<Rightarrow> lit ''canary_access'' | ToolChain \<Rightarrow> lit ''tool_chain'')"

record stamp =
  st_nanos :: int
  st_offset :: int

definition stamp_hour :: "stamp \<Rightarrow> nat" where
  "stamp_hour t = nat ((st_nanos t div 1000000000 + st_offset t) mod 86400 div 3600)"

record anomaly_alert =
  aa_type :: alert_type
  aa_severity :: severity
  aa_description :: ustring
  aa_timestamp :: stamp
  aa_agent :: ustring
  aa_path :: ustring
  aa_tool :: ustring
  aa_request_id :: ustring

record tool_call_event =
  ev_timestamp :: stamp
  ev_agent :: ustring
  ev_tool :: ustring
  ev_path :: ustring
  ev_duration :: nat
  ev_ok :: bool
  ev_is_canary :: bool
  ev_request_id :: ustring
  ev_field_length :: nat

record detector_config =
  max_events :: nat
  sweep_window :: nat
  sweep_threshold :: nat
  rate_window :: nat
  rate_limit :: nat
  off_hours_start :: nat
  off_hours_end :: nat
  tool_chain_window :: nat
  tool_chain_threshold :: nat

definition detector_config_default :: detector_config where
  "detector_config_default =
     \<lparr>max_events = 1000, sweep_window = 60000000000, sweep_threshold = 10, rate_window = 60000000000, rate_limit = 30,
      off_hours_start = 22, off_hours_end = 6, tool_chain_window = 30000000000, tool_chain_threshold = 500\<rparr>"

record anomaly_detector =
  ad_events :: "tool_call_event list"
  ad_config :: detector_config

definition detector_new :: "detector_config \<Rightarrow> anomaly_detector" where
  "detector_new cfg = \<lparr>ad_events = [], ad_config = cfg\<lparr>max_events := max (max_events cfg) 1\<rparr>\<rparr>"

definition window_len :: "anomaly_detector \<Rightarrow> nat" where
  "window_len D = length (ad_events D)"

definition mk_alert :: "tool_call_event \<Rightarrow> alert_type \<Rightarrow> severity \<Rightarrow> ustring \<Rightarrow> bool \<Rightarrow> anomaly_alert" where
  "mk_alert e ty sev descr with_path =
     \<lparr>aa_type = ty, aa_severity = sev, aa_description = descr, aa_timestamp = ev_timestamp e, aa_agent = ev_agent e,
      aa_path = (if with_path then ev_path e else []), aa_tool = ev_tool e, aa_request_id = ev_request_id e\<rparr>"

definition detect_canary_access :: "tool_call_event \<Rightarrow> anomaly_alert option" where
  "detect_canary_access e =
     (if \<not> ev_is_canary e \<or> ev_path e = [] then None
      else Some (mk_alert e CanaryAccess Critical (lit ''Honeytoken/canary entry accessed by agent '' @ ev_agent e) True))"

definition off_hours :: "detector_config \<Rightarrow> nat \<Rightarrow> bool" where
  "off_hours cfg hour =
     (let s = off_hours_start cfg; t = off_hours_end cfg
      in if s \<le> t then s \<le> hour \<and> hour < t else s \<le> hour \<or> hour < t)"

definition detect_off_hours :: "anomaly_detector \<Rightarrow> tool_call_event \<Rightarrow> anomaly_alert option" where
  "detect_off_hours D e =
     (if ev_path e = [] then None
      else if \<not> off_hours (ad_config D) (stamp_hour (ev_timestamp e)) then None
      else Some (mk_alert e OffHours Low (lit ''Entry access during off-hours by agent '' @ ev_agent e) True))"

definition seen_paths :: "int \<Rightarrow> tool_call_event list \<Rightarrow> ustring list" where
  "seen_paths cutoff es =
     remdups (map ev_path (filter (\<lambda>s. \<not> st_nanos (ev_timestamp s) < cutoff \<and> ev_path s \<noteq> []) es))"

definition detect_sweep :: "anomaly_detector \<Rightarrow> tool_call_event \<Rightarrow> anomaly_alert option" where
  "detect_sweep D e =
     (if ev_path e = [] then None
      else (let cutoff = st_nanos (ev_timestamp e) - int (sweep_window (ad_config D));
                seen = length (seen_paths cutoff (ad_events D))
            in if seen < sweep_threshold (ad_config D) then None
               else Some (mk_alert e Sweep Medium
                 (lit ''Sweep access detected: '' @ ev_agent e @ lit '' accessed '' @ dec seen @ lit '' unique paths'') True)))"

definition detect_rate_anomaly :: "anomaly_detector \<Rightarrow> tool_call_event \<Rightarrow> anomaly_alert option" where
  "detect_rate_anomaly D e =
     (let cutoff = st_nanos (ev_timestamp e) - int (rate_window (ad_config D));
          count = length (filter (\<lambda>s. cutoff \<le> st_nanos (ev_timestamp s) \<and> ev_agent s = ev_agent e) (ad_events D))
      in if count \<le> rate_limit (ad_config D) then None
         else Some (mk_alert e RateAnomaly Medium
           (lit ''Rate anomaly: '' @ ev_agent e @ lit '' made '' @ dec count @ lit '' requests'') False))"

definition is_command_tool :: "ustring \<Rightarrow> bool" where
  "is_command_tool t \<longleftrightarrow> t = lit ''run_command'' \<or> t = lit ''execute_with_secret''"

definition is_read_tool :: "ustring \<Rightarrow> bool" where
  "is_read_tool t \<longleftrightarrow> t = lit ''get_entry'' \<or> t = lit ''get_entry_value''"

text \<open>The loop over the window from the newest event, which stops at the first event that is too old.\<close>

fun chain_scan :: "detector_config \<Rightarrow> int \<Rightarrow> tool_call_event \<Rightarrow> tool_call_event list \<Rightarrow> tool_call_event option" where
  "chain_scan cfg cutoff e [] = None"
| "chain_scan cfg cutoff e (s # ss) =
     (if st_nanos (ev_timestamp s) < cutoff then None
      else if ev_agent s \<noteq> ev_agent e then chain_scan cfg cutoff e ss
      else if is_read_tool (ev_tool s) \<and> tool_chain_threshold cfg \<le> ev_field_length s then Some s
      else chain_scan cfg cutoff e ss)"

definition detect_tool_chain :: "anomaly_detector \<Rightarrow> tool_call_event \<Rightarrow> anomaly_alert option" where
  "detect_tool_chain D e =
     (if \<not> is_command_tool (ev_tool e) then None
      else (case chain_scan (ad_config D) (st_nanos (ev_timestamp e) - int (tool_chain_window (ad_config D))) e (rev (ad_events D)) of
              None \<Rightarrow> None
            | Some s \<Rightarrow> Some (mk_alert e ToolChain High
                (lit ''Tool-chain: agent '' @ ev_agent e @ lit '' read a large field ('' @ dec (ev_field_length s) @
                 lit '' bytes) then invoked '' @ ev_tool e) True)))"

definition opt_list :: "'a option \<Rightarrow> 'a list" where
  "opt_list x = (case x of None \<Rightarrow> [] | Some a \<Rightarrow> [a])"

definition detector_check :: "tool_call_event \<Rightarrow> anomaly_detector \<Rightarrow> anomaly_alert list \<times> anomaly_detector" where
  "detector_check e D0 =
     (let D = D0\<lparr>ad_events := (if max_events (ad_config D0) \<le> length (ad_events D0) then tl (ad_events D0) else ad_events D0) @ [e]\<rparr>
      in (opt_list (detect_canary_access e) @ opt_list (detect_off_hours D e) @ opt_list (detect_sweep D e) @
          opt_list (detect_rate_anomaly D e) @ opt_list (detect_tool_chain D e), D))"

section \<open>The window is the recent history\<close>

definition recent :: "nat \<Rightarrow> 'a list \<Rightarrow> 'a list" where
  "recent n es = drop (length es - n) es"

definition run_detector :: "tool_call_event list \<Rightarrow> anomaly_detector \<Rightarrow> anomaly_detector" where
  "run_detector = fold (\<lambda>e D. snd (detector_check e D))"

lemma recent_snoc: "0 < n \<Longrightarrow> recent n (es @ [e]) = (if n \<le> length (recent n es) then tl (recent n es) else recent n es) @ [e]"
  by (auto simp: recent_def tl_drop drop_Suc [symmetric] Suc_diff_le)

lemma run_detector_window:
  "ad_config (run_detector es (detector_new cfg)) = cfg\<lparr>max_events := max (max_events cfg) 1\<rparr> \<and>
   ad_events (run_detector es (detector_new cfg)) = recent (max (max_events cfg) 1) es"
proof (induction es rule: rev_induct)
  case Nil
  show ?case by (simp add: run_detector_def detector_new_def recent_def)
next
  case (snoc e es)
  then show ?case using recent_snoc [of "max (max_events cfg) 1" es e]
    by (simp add: run_detector_def detector_check_def Let_def)
qed

lemma chain_scan_Some:
  "chain_scan cfg cutoff e ss = Some s \<Longrightarrow>
   s \<in> set ss \<and> cutoff \<le> st_nanos (ev_timestamp s) \<and> ev_agent s = ev_agent e \<and> is_read_tool (ev_tool s) \<and>
   tool_chain_threshold cfg \<le> ev_field_length s"
  by (induction ss) (auto split: if_splits)

lemma chain_scan_sorted:
  assumes "sorted_wrt (\<lambda>a b. st_nanos (ev_timestamp b) \<le> st_nanos (ev_timestamp a)) ss"
    and "s \<in> set ss" "cutoff \<le> st_nanos (ev_timestamp s)" "ev_agent s = ev_agent e" "is_read_tool (ev_tool s)"
      "tool_chain_threshold cfg \<le> ev_field_length s"
  shows "chain_scan cfg cutoff e ss \<noteq> None"
  using assms by (induction ss) force+

text \<open>The seen call is inside the window of the given length that ends at the call being checked.\<close>

definition in_window :: "tool_call_event \<Rightarrow> nat \<Rightarrow> tool_call_event \<Rightarrow> bool" where
  "in_window e w s \<longleftrightarrow> st_nanos (ev_timestamp e) - int w \<le> st_nanos (ev_timestamp s)"

definition large_read_before :: "detector_config \<Rightarrow> tool_call_event \<Rightarrow> tool_call_event \<Rightarrow> bool" where
  "large_read_before cfg e s \<longleftrightarrow> in_window e (tool_chain_window cfg) s \<and> ev_agent s = ev_agent e \<and>
     is_read_tool (ev_tool s) \<and> tool_chain_threshold cfg \<le> ev_field_length s"

lemma chain_scan_window:
  assumes "sorted_wrt (\<lambda>a b. st_nanos (ev_timestamp a) \<le> st_nanos (ev_timestamp b)) W"
  shows "chain_scan cfg (st_nanos (ev_timestamp e) - int (tool_chain_window cfg)) e (rev W) \<noteq> None \<longleftrightarrow>
    (\<exists>s \<in> set W. large_read_before cfg e s)" (is "?scan \<noteq> None \<longleftrightarrow> _")
proof
  assume "?scan \<noteq> None"
  then obtain s where "?scan = Some s" by blast
  from chain_scan_Some [OF this] show "\<exists>s \<in> set W. large_read_before cfg e s"
    by (auto simp: large_read_before_def in_window_def)
next
  assume "\<exists>s \<in> set W. large_read_before cfg e s"
  then obtain s where s: "s \<in> set (rev W)" "large_read_before cfg e s" by auto
  have "sorted_wrt (\<lambda>a b. st_nanos (ev_timestamp b) \<le> st_nanos (ev_timestamp a)) (rev W)"
    using assms by (simp add: sorted_wrt_rev)
  from chain_scan_sorted [OF this s(1)] s(2) show "?scan \<noteq> None"
    by (simp add: large_read_before_def in_window_def)
qed

lemma alert_kinds:
  fixes a b c d f :: bool
  defines "ts \<equiv> (if a then [CanaryAccess] else []) @ (if b then [OffHours] else []) @ (if c then [Sweep] else []) @
      (if d then [RateAnomaly] else []) @ (if f then [ToolChain] else [])"
  shows "distinct ts" "CanaryAccess \<in> set ts \<longleftrightarrow> a" "OffHours \<in> set ts \<longleftrightarrow> b" "Sweep \<in> set ts \<longleftrightarrow> c"
    "RateAnomaly \<in> set ts \<longleftrightarrow> d" "ToolChain \<in> set ts \<longleftrightarrow> f"
  by (simp_all add: ts_def)

lemma detect_types:
  "map aa_type (opt_list (detect_canary_access e)) = (if ev_is_canary e \<and> ev_path e \<noteq> [] then [CanaryAccess] else [])"
  "map aa_type (opt_list (detect_off_hours D e)) =
     (if ev_path e \<noteq> [] \<and> off_hours (ad_config D) (stamp_hour (ev_timestamp e)) then [OffHours] else [])"
  "map aa_type (opt_list (detect_sweep D e)) =
     (if ev_path e \<noteq> [] \<and> sweep_threshold (ad_config D) \<le>
         card (ev_path ` {s \<in> set (ad_events D). in_window e (sweep_window (ad_config D)) s \<and> ev_path s \<noteq> []})
      then [Sweep] else [])"
  "map aa_type (opt_list (detect_rate_anomaly D e)) =
     (if rate_limit (ad_config D) <
         length (filter (\<lambda>s. in_window e (rate_window (ad_config D)) s \<and> ev_agent s = ev_agent e) (ad_events D))
      then [RateAnomaly] else [])"
  "map aa_type (opt_list (detect_tool_chain D e)) =
     (if is_command_tool (ev_tool e) \<and>
         chain_scan (ad_config D) (st_nanos (ev_timestamp e) - int (tool_chain_window (ad_config D))) e (rev (ad_events D)) \<noteq> None
      then [ToolChain] else [])"
  by (simp_all add: detect_canary_access_def detect_off_hours_def detect_sweep_def detect_rate_anomaly_def
      detect_tool_chain_def mk_alert_def opt_list_def seen_paths_def length_remdups_card_conv Let_def not_less in_window_def
      split: option.splits)


text \<open>An agent reads a large field of a canary at noon and runs a command ten seconds later.\<close>

definition demo_read :: tool_call_event where
  "demo_read = \<lparr>ev_timestamp = \<lparr>st_nanos = 43200 * 10 ^ 9, st_offset = 0\<rparr>, ev_agent = [97], ev_tool = lit ''get_entry'',
     ev_path = [112], ev_duration = 5, ev_ok = True, ev_is_canary = True, ev_request_id = [], ev_field_length = 900\<rparr>"

definition demo_command :: tool_call_event where
  "demo_command = demo_read\<lparr>ev_timestamp := \<lparr>st_nanos = 43210 * 10 ^ 9, st_offset = 0\<rparr>, ev_tool := lit ''run_command'',
     ev_is_canary := False, ev_field_length := 0\<rparr>"


end
