(* ===== verification/Url_Text.thy ===== *)
theory Url_Text
  imports Byte_Text "HOL-Library.AList"
begin

text \<open>
  The text functions of \<^verbatim>\<open>symvault-mcp/src/oauth.rs\<close>: form encoding and decoding, the rules for redirect
  addresses, the address a client is sent back to, and HTML escaping for the consent page. The
  source walks bytes by index; the recursion here walks the list of UTF-8 bytes. A \<open>HashMap\<close> is an
  association list with distinct keys.
\<close>

section \<open>ASCII classes\<close>

definition is_alpha :: "uchar \<Rightarrow> bool" where
  "is_alpha c \<longleftrightarrow> (65 \<le> c \<and> c \<le> 90) \<or> (97 \<le> c \<and> c \<le> 122)"

definition is_alnum :: "uchar \<Rightarrow> bool" where
  "is_alnum c \<longleftrightarrow> is_alpha c \<or> is_digit c"

definition ascii_lower :: "ustring \<Rightarrow> ustring" where
  "ascii_lower s = map (\<lambda>c. if 65 \<le> c \<and> c \<le> 90 then c + 32 else c) s"

section \<open>Forms\<close>

fun percent_decode :: "nat list \<Rightarrow> nat list option" where
  "percent_decode [] = Some []"
| "percent_decode (b # r) =
     (if b = 43 then map_option (Cons 32) (percent_decode r)
      else if b = 37 then
        (case r of
           high # low # r' \<Rightarrow>
             (case (hex_value high, hex_value low) of
                (Some x, Some y) \<Rightarrow> map_option (Cons (x * 16 + y)) (percent_decode r')
              | _ \<Rightarrow> None)
         | _ \<Rightarrow> None)
      else map_option (Cons b) (percent_decode r))"

definition form_decode :: "ustring \<Rightarrow> ustring option" where
  "form_decode v = Option.bind (percent_decode (as_bytes v)) utf8_decode"

definition upper_hex :: "nat \<Rightarrow> uchar" where
  "upper_hex n = lit ''0123456789ABCDEF'' ! n"

definition form_encode_byte :: "nat \<Rightarrow> ustring" where
  "form_encode_byte b =
     (if is_alnum b \<or> b \<in> set (lit ''-_.*'') then [b]
      else if b = 32 then [43]
      else [37, upper_hex (b div 16), upper_hex (b mod 16)])"

definition form_encode :: "ustring \<Rightarrow> ustring" where
  "form_encode v = concat (map form_encode_byte (as_bytes v))"

text \<open>\<open>entry(key).or_insert(value)\<close>: the first value of a key stays.\<close>

fun parse_pairs :: "ustring list \<Rightarrow> (ustring \<times> ustring) list \<Rightarrow> (ustring \<times> ustring) list option" where
  "parse_pairs [] fields = Some fields"
| "parse_pairs (pair # ps) fields =
     (let (k, v) = (case split_once 61 pair of Some kv \<Rightarrow> kv | None \<Rightarrow> (pair, []))
      in case form_decode k of
           None \<Rightarrow> None
         | Some key \<Rightarrow>
             (case form_decode v of
                None \<Rightarrow> None
              | Some val \<Rightarrow> parse_pairs ps (if map_of fields key = None then fields @ [(key, val)] else fields)))"

definition parse_form :: "ustring \<Rightarrow> (ustring \<times> ustring) list option" where
  "parse_form s = parse_pairs (filter (\<lambda>p. p \<noteq> []) (split_on 38 s)) []"

section \<open>Redirect addresses\<close>

fun invalid_percent_escape :: "nat list \<Rightarrow> bool" where
  "invalid_percent_escape [] = False"
| "invalid_percent_escape (b # r) =
     (if b = 37 then
        (case r of
           x # y # r' \<Rightarrow> hex_value x = None \<or> hex_value y = None \<or> invalid_percent_escape r'
         | _ \<Rightarrow> True)
      else invalid_percent_escape r)"

definition valid_port_number :: "ustring \<Rightarrow> bool" where
  "valid_port_number port \<longleftrightarrow> port \<noteq> [] \<and> list_all is_digit (as_bytes port) \<and> digits_value port \<le> 65535"

definition valid_port_suffix :: "ustring \<Rightarrow> bool" where
  "valid_port_suffix suffix \<longleftrightarrow>
     suffix = [] \<or> (case strip_prefix [58] suffix of None \<Rightarrow> False | Some port \<Rightarrow> valid_port_number port)"

definition authority_of :: "ustring \<Rightarrow> ustring" where
  "authority_of s = takeWhile (\<lambda>c. c \<noteq> 47 \<and> c \<noteq> 63 \<and> c \<noteq> 35) s"

definition authority_host :: "ustring \<Rightarrow> ustring option" where
  "authority_host authority =
     (case strip_prefix [91] authority of
        Some bracketed \<Rightarrow>
          (case split_once 93 bracketed of
             None \<Rightarrow> None
           | Some (host, suffix) \<Rightarrow> if valid_port_suffix suffix then Some host else None)
      | None \<Rightarrow>
          (let (host, suffix) = (case split_once 58 authority of Some hs \<Rightarrow> hs | None \<Rightarrow> (authority, []))
           in if 58 \<in> set suffix \<or> (suffix \<noteq> [] \<and> \<not> valid_port_number suffix) then None else Some host))"

definition valid_scheme :: "ustring \<Rightarrow> bool" where
  "valid_scheme scheme =
     (case as_bytes scheme of
        [] \<Rightarrow> False
      | b # bs \<Rightarrow> is_alpha b \<and> list_all (\<lambda>b. is_alnum b \<or> b \<in> set (lit ''+-.'')) bs)"

definition loopback_names :: "ustring list" where
  "loopback_names = [lit ''localhost'', lit ''127.0.0.1'', lit ''::1'']"

definition allowed_redirect_uri :: "ustring \<Rightarrow> bool" where
  "allowed_redirect_uri v =
     (if v = [] \<or> list_ex (\<lambda>b. b \<le> 32 \<or> b = 127) (as_bytes v) \<or> invalid_percent_escape (as_bytes v) then False
      else (case split_once 58 v of
              None \<Rightarrow> False
            | Some (scheme, remainder) \<Rightarrow>
                if \<not> valid_scheme scheme \<or>
                   (case split_once 35 v of None \<Rightarrow> False | Some (_, fragment) \<Rightarrow> fragment \<noteq> []) then False
                else if (case strip_prefix (lit ''//'') remainder of
                           None \<Rightarrow> False | Some rest \<Rightarrow> 64 \<in> set (authority_of rest)) then False
                else if scheme = lit ''http'' \<or> scheme = lit ''https'' then
                  (case strip_prefix (lit ''//'') remainder of
                     None \<Rightarrow> False
                   | Some rest \<Rightarrow>
                       (case authority_host (authority_of rest) of
                          None \<Rightarrow> False
                        | Some host \<Rightarrow> host \<in> set loopback_names))
                else starts_with (lit ''symvault'') scheme \<or> starts_with (lit ''symaira'') scheme))"

definition strip_slash :: "ustring \<Rightarrow> ustring" where
  "strip_slash u = (case strip_suffix [47] u of Some r \<Rightarrow> r | None \<Rightarrow> u)"

definition is_allowed_redirect_uri :: "ustring \<Rightarrow> ustring list \<Rightarrow> bool" where
  "is_allowed_redirect_uri uri allowed = list_ex (\<lambda>c. strip_slash c = strip_slash uri) allowed"

definition valid_client_id :: "ustring \<Rightarrow> bool" where
  "valid_client_id v \<longleftrightarrow> str_len v = 32 \<and> list_all (\<lambda>b. hex_value b \<noteq> None) (as_bytes v)"

section \<open>The address a client is sent back to\<close>

fun push_parameters :: "uchar \<Rightarrow> (ustring \<times> ustring) list \<Rightarrow> ustring" where
  "push_parameters sep [] = []"
| "push_parameters sep ((name, val) # ps) = sep # name @ 61 # form_encode val @ push_parameters 38 ps"

definition redirect_uri_with_parameters :: "ustring \<Rightarrow> (ustring \<times> ustring) list \<Rightarrow> ustring" where
  "redirect_uri_with_parameters uri parameters =
     (let (without_fragment, fragment) =
            (case split_once 35 uri of Some (u, f) \<Rightarrow> (u, Some f) | None \<Rightarrow> (uri, None))
      in without_fragment @ push_parameters (if 63 \<in> set without_fragment then 38 else 63) parameters @
         (case fragment of Some f \<Rightarrow> 35 # f | None \<Rightarrow> []))"

definition redirect_uri_with_code :: "ustring \<Rightarrow> ustring \<Rightarrow> ustring \<Rightarrow> ustring" where
  "redirect_uri_with_code uri code state =
     redirect_uri_with_parameters uri ((lit ''code'', code) # (if state = [] then [] else [(lit ''state'', state)]))"

definition redirect_uri_with_error :: "ustring \<Rightarrow> ustring \<Rightarrow> ustring \<Rightarrow> ustring" where
  "redirect_uri_with_error uri error_name state =
     redirect_uri_with_parameters uri ((lit ''error'', error_name) # (if state = [] then [] else [(lit ''state'', state)]))"

section \<open>HTML\<close>

definition str_replace :: "uchar \<Rightarrow> ustring \<Rightarrow> ustring \<Rightarrow> ustring" where
  "str_replace c w s = concat (map (\<lambda>x. if x = c then w else [x]) s)"

definition html_escape :: "ustring \<Rightarrow> ustring" where
  "html_escape v =
     str_replace 39 (lit ''&#39;'') (str_replace 34 (lit ''&quot;'') (str_replace 62 (lit ''&gt;'')
       (str_replace 60 (lit ''&lt;'') (str_replace 38 (lit ''&amp;'') v))))"

section \<open>Round trips\<close>

lemma upper_hex_cases: "n < 16 \<Longrightarrow> upper_hex n = (if n < 10 then 48 + n else 55 + n)"
proof -
  assume "n < 16"
  then have "n \<in> {0, 1, 2, 3, 4, 5, 6, 7, 8, 9, 10, 11, 12, 13, 14, 15}" by (simp, presburger)
  then show ?thesis by (auto simp: upper_hex_def)
qed

lemma hex_value_upper: "n < 16 \<Longrightarrow> hex_value (upper_hex n) = Some n"
  by (simp add: upper_hex_cases hex_value_def)

text \<open>The bytes an encoded value is made of; none of them separates fields or starts a fragment.\<close>

definition form_safe :: "uchar \<Rightarrow> bool" where
  "form_safe c \<longleftrightarrow> is_alnum c \<or> c \<in> {45, 95, 46, 42, 43, 37}"

lemma form_safe_facts:
  assumes "form_safe c"
  shows "c < 128" "c \<noteq> 38" "c \<noteq> 61" "c \<noteq> 35" "c \<noteq> 63"
  using assms by (auto simp: form_safe_def is_alnum_def is_alpha_def is_digit_def)

lemma not_form_safe [simp]: "\<not> form_safe 38" "\<not> form_safe 61" "\<not> form_safe 35" "\<not> form_safe 63"
  using form_safe_facts by blast+

lemma upper_hex_safe: "n < 16 \<Longrightarrow> form_safe (upper_hex n)"
  by (simp add: upper_hex_cases form_safe_def is_alnum_def is_alpha_def is_digit_def)

lemma form_encode_byte_safe: "b < 256 \<Longrightarrow> list_all form_safe (form_encode_byte b)"
  using upper_hex_safe [of "b div 16"] upper_hex_safe [of "b mod 16"]
  by (auto simp: form_encode_byte_def) (auto simp: form_safe_def)

lemma as_bytes_scalar: "list_all is_scalar s \<Longrightarrow> b \<in> set (as_bytes s) \<Longrightarrow> b < 256"
  by (rule as_bytes_bound) (auto simp: is_scalar_def list_all_iff)

lemma form_encode_safe: "list_all is_scalar s \<Longrightarrow> list_all form_safe (form_encode s)"
  using form_encode_byte_safe as_bytes_scalar [of s] by (auto simp: form_encode_def list_all_iff)

lemma form_encode_bytes: "list_all is_scalar s \<Longrightarrow> as_bytes (form_encode s) = form_encode s"
  using form_encode_safe [of s] form_safe_facts(1) by (auto simp: list_all_iff intro!: as_bytes_ascii)

lemma percent_decode_byte:
  assumes "b < 256"
  shows "percent_decode (form_encode_byte b @ r) = map_option (Cons b) (percent_decode r)"
proof (cases "is_alnum b \<or> b \<in> set (lit ''-_.*'') \<or> b = 32")
  case True
  then show ?thesis by (auto simp: form_encode_byte_def is_alnum_def is_alpha_def is_digit_def)
next
  case False
  moreover have "b div 16 < 16" "b mod 16 < 16" using assms by simp_all
  moreover have "b div 16 * 16 + b mod 16 = b" by simp
  ultimately show ?thesis by (simp add: form_encode_byte_def hex_value_upper)
qed

lemma percent_decode_bytes: "\<forall>b \<in> set bs. b < 256 \<Longrightarrow> percent_decode (concat (map form_encode_byte bs)) = Some bs"
  by (induction bs) (simp_all add: percent_decode_byte)

lemma form_round_trip: "list_all is_scalar s \<Longrightarrow> form_decode (form_encode s) = Some s"
  using percent_decode_bytes [of "as_bytes s"] as_bytes_scalar [of s]
  by (simp add: form_decode_def form_encode_bytes) (simp add: form_encode_def utf8_round_trip)

interpretation form: text_codec form_encode form_decode "list_all is_scalar"
  by unfold_locales (rule form_round_trip)

definition print_pair :: "ustring \<times> ustring \<Rightarrow> ustring" where
  "print_pair kv = form_encode (fst kv) @ 61 # form_encode (snd kv)"

definition print_form :: "(ustring \<times> ustring) list \<Rightarrow> ustring" where
  "print_form fields = join [38] (map print_pair fields)"

definition fields_ok :: "(ustring \<times> ustring) list \<Rightarrow> bool" where
  "fields_ok fields \<longleftrightarrow> list_all (\<lambda>(k, v). list_all is_scalar k \<and> list_all is_scalar v) fields \<and> distinct (map fst fields)"

lemma print_pair_no_sep:
  assumes "list_all is_scalar k" "list_all is_scalar v"
  shows "38 \<notin> set (print_pair (k, v))" "35 \<notin> set (print_pair (k, v))" "print_pair (k, v) \<noteq> []"
  using form_encode_safe [OF assms(1)] form_encode_safe [OF assms(2)]
  by (auto simp: print_pair_def list_all_iff dest: bspec [where x = 38] bspec [where x = 35])

lemma split_print_pair:
  "list_all is_scalar k \<Longrightarrow> split_once 61 (print_pair (k, v)) = Some (form_encode k, form_encode v)"
  using form_encode_safe [of k] by (auto simp: print_pair_def split_once_Some_iff list_all_iff dest: bspec [where x = 61])

lemma parse_pairs_printed:
  assumes "fields_ok fields" "\<forall>k \<in> fst ` set fields. map_of acc k = None"
  shows "parse_pairs (map print_pair fields) acc = Some (acc @ fields)"
  using assms
proof (induction fields arbitrary: acc)
  case (Cons kv fields)
  obtain k v where kv: "kv = (k, v)" by force
  have ok: "list_all is_scalar k" "list_all is_scalar v" "k \<notin> fst ` set fields" "fields_ok fields"
    using Cons.prems(1) by (auto simp: fields_ok_def kv)
  have "\<forall>x \<in> fst ` set fields. map_of (acc @ [(k, v)]) x = None"
    using Cons.prems(2) ok(3) by (auto simp: kv map_add_def map_of_eq_None_iff split: option.splits)
  from Cons.IH [OF ok(4) this] show ?case
    using ok Cons.prems(2) by (simp add: kv split_print_pair form_round_trip)
qed simp

lemma split_print_form:
  assumes "fields_ok fields"
  shows "filter (\<lambda>p. p \<noteq> []) (split_on 38 (print_form fields)) = map print_pair fields"
proof (cases "fields = []")
  case True
  then show ?thesis by (simp add: print_form_def)
next
  case False
  have "38 \<notin> set p \<and> p \<noteq> []" if "p \<in> set (map print_pair fields)" for p
    using that assms print_pair_no_sep by (auto simp: fields_ok_def list_all_iff)
  moreover from this have "split_on 38 (print_form fields) = map print_pair fields"
    unfolding print_form_def using False by (intro split_on_join) auto
  ultimately show ?thesis by (auto simp: filter_id_conv)
qed

lemma parse_print_form: "fields_ok fields \<Longrightarrow> parse_form (print_form fields) = Some fields"
  by (simp add: parse_form_def split_print_form parse_pairs_printed)

interpretation forms: text_codec print_form parse_form fields_ok
  by unfold_locales (rule parse_print_form)

section \<open>What the redirected client receives\<close>

lemma split_on_at: "split_on d (a @ d # b) = split_on d a @ split_on d b"
proof (induction a)
  case (Cons c a)
  obtain p ps where "split_on d a = p # ps" by (cases "split_on d a") simp_all
  with Cons show ?case by simp
qed simp

lemma parse_pairs_append: "parse_pairs (xs @ ys) acc = Option.bind (parse_pairs xs acc) (parse_pairs ys)"
  by (induction xs arbitrary: acc) (auto simp: Let_def split: option.splits prod.splits)

definition before_fragment :: "ustring \<Rightarrow> ustring" where
  "before_fragment u = (case split_once 35 u of Some (b, _) \<Rightarrow> b | None \<Rightarrow> u)"

lemma before_fragment_none: "35 \<notin> set u \<Longrightarrow> before_fragment u = u"
  unfolding before_fragment_def by (metis option.simps(4) split_once_None_iff)

definition before_query :: "ustring \<Rightarrow> ustring" where
  "before_query u = (case split_once 63 u of Some (b, _) \<Rightarrow> b | None \<Rightarrow> u)"

definition query_of :: "ustring \<Rightarrow> ustring" where
  "query_of u = (case split_once 63 u of Some (_, q) \<Rightarrow> q | None \<Rightarrow> [])"

lemma split_once_append: "d \<notin> set a \<Longrightarrow> split_once d (a @ d # b) = Some (a, b)"
  by (simp add: split_once_Some_iff)

lemma before_fragment_hash: "35 \<notin> set a \<Longrightarrow> before_fragment (a @ 35 # f) = a"
  unfolding before_fragment_def by (simp only: split_once_append option.case prod.case simp_thms)

lemma split_once_later: "split_once d a = Some (x, y) \<Longrightarrow> split_once d (a @ b) = Some (x, y @ b)"
  by (auto simp: split_once_Some_iff)

text \<open>Parameter names that need no encoding, with values that are texts.\<close>

definition plain_parameters :: "(ustring \<times> ustring) list \<Rightarrow> bool" where
  "plain_parameters ps \<longleftrightarrow> ps \<noteq> [] \<and> fields_ok ps \<and> list_all (\<lambda>(k, _). form_encode k = k) ps"

lemma push_parameters_print:
  "ps \<noteq> [] \<Longrightarrow> list_all (\<lambda>(k, _). form_encode k = k) ps \<Longrightarrow> push_parameters sep ps = sep # print_form ps"
proof (induction ps arbitrary: sep)
  case (Cons kv ps)
  then show ?case by (cases kv; cases ps) (auto simp: print_form_def print_pair_def)
qed simp

lemma print_form_no_hash: "fields_ok ps \<Longrightarrow> 35 \<notin> set (print_form ps)"
proof (induction ps)
  case (Cons kv ps)
  then have "35 \<notin> set (print_form ps)" "35 \<notin> set (print_pair kv)"
    using print_pair_no_sep(2) by (cases kv, auto simp: fields_ok_def)+
  then show ?case by (cases ps) (auto simp: print_form_def)
qed (simp add: print_form_def)

lemma redirect_before_fragment:
  assumes "plain_parameters ps"
  shows "before_fragment (redirect_uri_with_parameters uri ps) =
    before_fragment uri @ (if 63 \<in> set (before_fragment uri) then 38 else 63) # print_form ps"
proof -
  have p: "push_parameters sep ps = sep # print_form ps" for sep
    using assms by (simp add: plain_parameters_def push_parameters_print)
  have no: "35 \<notin> set (print_form ps)" using assms by (simp add: plain_parameters_def print_form_no_hash)
  show ?thesis
  proof (cases "split_once 35 uri")
    case None
    have u: "before_fragment uri = uri" by (simp only: before_fragment_def None option.case)
    have h: "35 \<notin> set uri" using None by simp
    have "redirect_uri_with_parameters uri ps = uri @ (if 63 \<in> set uri then 38 else 63) # print_form ps"
      by (simp only: redirect_uri_with_parameters_def p None option.case prod.case Let_def append_Nil2)
    moreover have "35 \<notin> set (uri @ (if 63 \<in> set uri then 38 else 63) # print_form ps)" using h no by auto
    ultimately show ?thesis unfolding u using before_fragment_none by metis
  next
    case (Some bf)
    then obtain b f where bf: "split_once 35 uri = Some (b, f)" by (cases bf) auto
    then have b: "before_fragment uri = b" by (simp add: before_fragment_def)
    have h: "35 \<notin> set b" using bf by (simp add: split_once_Some_iff)
    let ?q = "b @ (if 63 \<in> set b then 38 else 63) # print_form ps"
    have "redirect_uri_with_parameters uri ps = ?q @ 35 # f" using bf by (simp add: redirect_uri_with_parameters_def p)
    moreover have "35 \<notin> set ?q" using h no by auto
    ultimately show ?thesis unfolding b using before_fragment_hash by metis
  qed
qed

lemma redirect_query:
  assumes "plain_parameters ps" "parse_form (query_of (before_fragment uri)) = Some fs"
    and "\<forall>k \<in> fst ` set ps. map_of fs k = None"
  shows "before_query (before_fragment (redirect_uri_with_parameters uri ps)) = before_query (before_fragment uri)"
    "parse_form (query_of (before_fragment (redirect_uri_with_parameters uri ps))) = Some (fs @ ps)"
proof -
  let ?u = "before_fragment uri"
  have ok: "fields_ok ps" using assms(1) by (simp add: plain_parameters_def)
  have tail: "parse_pairs (map print_pair ps) fs = Some (fs @ ps)" by (rule parse_pairs_printed [OF ok assms(3)])
  have "before_query (?u @ (if 63 \<in> set ?u then 38 else 63) # print_form ps) = before_query ?u \<and>
    parse_form (query_of (?u @ (if 63 \<in> set ?u then 38 else 63) # print_form ps)) = Some (fs @ ps)"
  proof (cases "split_once 63 ?u")
    case None
    have q: "query_of ?u = []" "before_query ?u = ?u" by (simp_all only: query_of_def before_query_def None option.case)
    have n: "63 \<notin> set ?u" using None by simp
    have "fs = []" using assms(2) unfolding q by (simp add: parse_form_def)
    with n q tail show ?thesis
      by (simp add: before_query_def query_of_def split_once_append parse_form_def split_print_form [OF ok])
  next
    case (Some xy)
    then obtain x q where q: "split_once 63 ?u = Some (x, q)" by (cases xy) auto
    then have "63 \<in> set ?u" by (auto simp: split_once_Some_iff)
    moreover have "parse_pairs (filter (\<lambda>p. p \<noteq> []) (split_on 38 q)) [] = Some fs"
      using assms(2) q by (simp add: query_of_def parse_form_def)
    ultimately show ?thesis
      using tail split_once_later [OF q]
      by (simp add: before_query_def query_of_def q parse_form_def split_on_at parse_pairs_append split_print_form [OF ok])
  qed
  then show "before_query (before_fragment (redirect_uri_with_parameters uri ps)) = before_query ?u"
    "parse_form (query_of (before_fragment (redirect_uri_with_parameters uri ps))) = Some (fs @ ps)"
    unfolding redirect_before_fragment [OF assms(1)] by blast+
qed

text \<open>
  C24. The authorization code reaches the client unharmed: the address the browser is sent to has the
  scheme, authority and path of the registered address, and the query that the client's form decoder
  reads from it is the query of the registered address followed by exactly the code and, when the
  client sent one, its state, whatever characters they hold. (The registered query must decode and not
  itself use those two names.)
\<close>

theorem redirect_carries_code:
  assumes "list_all is_scalar code" "list_all is_scalar state"
    and "parse_form (query_of (before_fragment uri)) = Some fs"
    and "map_of fs (lit ''code'') = None" "map_of fs (lit ''state'') = None"
  shows "before_query (before_fragment (redirect_uri_with_code uri code state)) = before_query (before_fragment uri) \<and>
    parse_form (query_of (before_fragment (redirect_uri_with_code uri code state))) =
      Some (fs @ (lit ''code'', code) # (if state = [] then [] else [(lit ''state'', state)]))"
proof -
  let ?ps = "(lit ''code'', code) # (if state = [] then [] else [(lit ''state'', state)])"
  have "form_encode (lit ''code'') = lit ''code''" "form_encode (lit ''state'') = lit ''state''"
    "list_all is_scalar (lit ''code'')" "list_all is_scalar (lit ''state'')"
    by (simp_all add: form_encode_def as_bytes_def utf8_bytes_def form_encode_byte_def is_alnum_def is_alpha_def is_scalar_def)
  moreover have "lit ''code'' \<noteq> lit ''state''" by simp
  ultimately have "plain_parameters ?ps"
    using assms(1,2) by (simp add: plain_parameters_def fields_ok_def del: lit_simps)
  moreover have "\<forall>k \<in> fst ` set ?ps. map_of fs k = None" using assms(4,5) by (simp del: lit_simps)
  ultimately show ?thesis
    unfolding redirect_uri_with_code_def using redirect_query [OF _ assms(3)] by blast
qed

theorem redirect_carries_code_witness:
  "parse_form (query_of (before_fragment (redirect_uri_with_code (lit ''http://localhost/cb?a=b%20c#'') (lit ''0f'') [233, 38, 32]))) =
     Some [([97], [98, 32, 99]), (lit ''code'', lit ''0f''), (lit ''state'', [233, 38, 32])]"
proof -
  have "parse_form (query_of (before_fragment (lit ''http://localhost/cb?a=b%20c#''))) = Some [([97], [98, 32, 99])]"
    by code_simp
  moreover have "list_all is_scalar (lit ''0f'')" "list_all is_scalar [233, 38, 32]" by (simp_all add: is_scalar_def)
  ultimately have "parse_form (query_of (before_fragment (redirect_uri_with_code (lit ''http://localhost/cb?a=b%20c#'') (lit ''0f'') [233, 38, 32]))) =
     Some ([([97], [98, 32, 99])] @ (lit ''code'', lit ''0f'') # (if [233, 38, 32 :: nat] = [] then [] else [(lit ''state'', [233, 38, 32])]))"
    using redirect_carries_code [where code = "lit ''0f''" and state = "[233, 38, 32]" and
      uri = "lit ''http://localhost/cb?a=b%20c#''" and fs = "[([97], [98, 32, 99])]"] by simp
  then show ?thesis by (simp only: append_Cons append_Nil list.distinct if_False)
qed

section \<open>Redirect addresses stay local\<close>

text \<open>Where an address of this scheme may lead.\<close>

definition local_target :: "ustring \<Rightarrow> ustring \<Rightarrow> bool" where
  "local_target scheme rest \<longleftrightarrow>
     (if scheme = lit ''http'' \<or> scheme = lit ''https'' then
        (\<exists>authority path host. rest = lit ''//'' @ authority @ path \<and> (path = [] \<or> hd path \<in> {47, 63, 35}) \<and>
          set authority \<inter> {47, 63, 35, 64} = {} \<and> authority_host authority = Some host \<and> host \<in> set loopback_names)
      else starts_with (lit ''symvault'') scheme \<or> starts_with (lit ''symaira'') scheme)"

text \<open>
  What a registration accepts: an allowed redirect address holds no control characters, spaces or
  broken percent escapes, and either its scheme starts with the program's own names or it is an http or
  https address whose authority, the text up to the first slash, question mark or hash, carries no user
  information and has a loopback host.
\<close>

theorem allowed_redirect_stays_local:
  assumes "allowed_redirect_uri v"
  shows "\<exists>scheme rest. v = scheme @ 58 # rest \<and> 58 \<notin> set scheme \<and> (\<forall>b \<in> set (as_bytes v). 32 < b \<and> b \<noteq> 127) \<and>
    \<not> invalid_percent_escape (as_bytes v) \<and>
    local_target scheme rest"
proof -
  have split: "(if P then False else Q) \<longleftrightarrow> \<not> P \<and> Q" for P Q by simp
  have "split_once 58 v \<noteq> None"
  proof
    assume "split_once 58 v = None"
    from assms [unfolded allowed_redirect_uri_def this option.case split] show False by blast
  qed
  then obtain scheme rest where sr: "split_once 58 v = Some (scheme, rest)" by (metis option.exhaust surj_pair)
  note body = assms [unfolded allowed_redirect_uri_def sr option.case prod.case split]
  have ctl: "\<not> list_ex (\<lambda>b. b \<le> 32 \<or> b = 127) (as_bytes v)" "\<not> invalid_percent_escape (as_bytes v)" and
    user: "\<not> (case strip_prefix (lit ''//'') rest of None \<Rightarrow> False | Some r \<Rightarrow> 64 \<in> set (authority_of r))" and
    target: "if scheme = lit ''http'' \<or> scheme = lit ''https'' then
        (case strip_prefix (lit ''//'') rest of None \<Rightarrow> False
         | Some r \<Rightarrow> (case authority_host (authority_of r) of None \<Rightarrow> False | Some host \<Rightarrow> host \<in> set loopback_names))
      else starts_with (lit ''symvault'') scheme \<or> starts_with (lit ''symaira'') scheme"
    using body by blast+
  have v: "v = scheme @ 58 # rest" "58 \<notin> set scheme" using sr by (auto simp: split_once_Some_iff)
  have b: "\<forall>b \<in> set (as_bytes v). 32 < b \<and> b \<noteq> 127" using ctl(1) by (auto simp: list_ex_iff not_le)
  show ?thesis
  proof (cases "scheme = lit ''http'' \<or> scheme = lit ''https''")
    case False
    with target have "local_target scheme rest" by (simp only: local_target_def if_False)
    with v b ctl(2) show ?thesis by blast
  next
    case True
    from target True obtain r host where r: "strip_prefix (lit ''//'') rest = Some r"
      "authority_host (authority_of r) = Some host" "host \<in> set loopback_names"
      by (auto simp del: lit_simps split: option.splits)
    let ?path = "dropWhile (\<lambda>c. c \<noteq> 47 \<and> c \<noteq> 63 \<and> c \<noteq> 35) r"
    have "rest = lit ''//'' @ authority_of r @ ?path"
      using r(1) by (simp add: strip_prefix_Some_iff authority_of_def del: lit_simps)
    moreover have "?path = [] \<or> hd ?path \<in> {47, 63, 35}"
      using hd_dropWhile [of "\<lambda>c. c \<noteq> 47 \<and> c \<noteq> 63 \<and> c \<noteq> 35" r] by auto
    moreover have "set (authority_of r) \<inter> {47, 63, 35, 64} = {}"
      using user r(1) by (auto simp: authority_of_def dest: set_takeWhileD simp del: lit_simps)
    ultimately have "local_target scheme rest" unfolding local_target_def using True r(2,3) by (simp only: if_True) blast
    with v b ctl(2) show ?thesis by blast
  qed
qed

theorem allowed_redirect_stays_local_witness:
  "\<exists>scheme rest. lit ''http://localhost/cb?x'' = scheme @ 58 # rest \<and> 58 \<notin> set scheme \<and> local_target scheme rest"
proof -
  have "allowed_redirect_uri (lit ''http://localhost/cb?x'')"
    by code_simp
  from allowed_redirect_stays_local [OF this] show ?thesis by blast
qed

end
