(* ===== verification/Http_Guard.thy ===== *)
theory Http_Guard
  imports Url_Text
begin

text \<open>
  The request guards of \<^verbatim>\<open>symvault-mcp/src/http.rs\<close>: the authority of a host header, the check of the
  origin header against it, and the media type of a request body. The textual forms of IP addresses are
  those of Rust's standard library: an IPv4 address is four decimal octets without leading zeros, an
  IPv6 address is read by its greedy parser and printed in canonical form.
\<close>

section \<open>IP addresses of the standard library\<close>

definition read_octet :: "ustring \<Rightarrow> (nat \<times> ustring) option" where
  "read_octet s =
     (let ds = takeWhile is_digit s
      in if ds = [] \<or> 3 < length ds \<or> (1 < length ds \<and> hd ds = 48) \<or> 255 < digits_value ds then None
         else Some (digits_value ds, dropWhile is_digit s))"

definition read_dot_octet :: "ustring \<Rightarrow> (nat \<times> ustring) option" where
  "read_dot_octet s = Option.bind (strip_prefix [46] s) read_octet"

definition read_ipv4 :: "ustring \<Rightarrow> (nat list \<times> ustring) option" where
  "read_ipv4 s =
     Option.bind (read_octet s) (\<lambda>(a, s1). Option.bind (read_dot_octet s1) (\<lambda>(b, s2).
     Option.bind (read_dot_octet s2) (\<lambda>(c, s3). Option.bind (read_dot_octet s3) (\<lambda>(d, s4). Some ([a, b, c, d], s4)))))"

definition parse_ipv4 :: "ustring \<Rightarrow> nat list option" where
  "parse_ipv4 s = (case read_ipv4 s of Some (a, []) \<Rightarrow> Some a | _ \<Rightarrow> None)"

definition ipv4_text :: "nat list \<Rightarrow> ustring" where
  "ipv4_text a = join [46] (map dec a)"

definition read_group :: "ustring \<Rightarrow> (nat \<times> ustring) option" where
  "read_group s =
     (let ds = takeWhile (\<lambda>c. hex_value c \<noteq> None) s
      in if ds = [] \<or> 4 < length ds then None
         else Some (foldl (\<lambda>n c. 16 * n + the (hex_value c)) 0 ds, dropWhile (\<lambda>c. hex_value c \<noteq> None) s))"

definition after_colon :: "bool \<Rightarrow> ustring \<Rightarrow> ustring option" where
  "after_colon first s = (if first then Some s else strip_prefix [58] s)"

fun read_groups :: "nat \<Rightarrow> bool \<Rightarrow> ustring \<Rightarrow> nat list \<times> bool \<times> ustring" where
  "read_groups 0 first s = ([], False, s)"
| "read_groups (Suc n) first s =
     (case (if 0 < n then Option.bind (after_colon first s) read_ipv4 else None) of
        Some ([a, b, c, d], r) \<Rightarrow> ([256 * a + b, 256 * c + d], True, r)
      | _ \<Rightarrow>
          (case Option.bind (after_colon first s) read_group of
             None \<Rightarrow> ([], False, s)
           | Some (g, r) \<Rightarrow> (let (gs, v4, r') = read_groups n False r in (g # gs, v4, r'))))"

definition parse_ipv6 :: "ustring \<Rightarrow> nat list option" where
  "parse_ipv6 s =
     (let (front, front_v4, r) = read_groups 8 True s
      in if length front = 8 then (if r = [] then Some front else None)
         else if front_v4 then None
         else (case strip_prefix [58, 58] r of
                 None \<Rightarrow> None
               | Some r1 \<Rightarrow>
                   (let (back, _, r2) = read_groups (7 - length front) True r1
                    in if r2 = [] then Some (front @ replicate (8 - length front - length back) 0 @ back) else None)))"

fun hex_text :: "nat \<Rightarrow> ustring" where
  "hex_text n = (if n < 16 then [hex_digit n] else hex_text (n div 16) @ [hex_digit (n mod 16)])"

declare hex_text.simps [simp del]

text \<open>Start and length of the first longest run of zero groups.\<close>

fun longest_zeros :: "nat \<Rightarrow> nat \<times> nat \<Rightarrow> nat \<times> nat \<Rightarrow> nat list \<Rightarrow> nat \<times> nat" where
  "longest_zeros i cur best [] = best"
| "longest_zeros i cur best (g # gs) =
     (if g = 0 then
        (let cur' = (if snd cur = 0 then i else fst cur, snd cur + 1)
         in longest_zeros (i + 1) cur' (if snd best < snd cur' then cur' else best) gs)
      else longest_zeros (i + 1) (0, 0) best gs)"

definition ipv6_text :: "nat list \<Rightarrow> ustring" where
  "ipv6_text gs =
     (if take 6 gs = [0, 0, 0, 0, 0, 65535] \<and> length gs = 8 then
        lit ''::ffff:'' @ ipv4_text [gs ! 6 div 256, gs ! 6 mod 256, gs ! 7 div 256, gs ! 7 mod 256]
      else (let (start, n) = longest_zeros 0 (0, 0) (0, 0) gs
            in if 1 < n then join [58] (map hex_text (take start gs)) @ [58, 58] @ join [58] (map hex_text (drop (start + n) gs))
               else join [58] (map hex_text gs)))"

definition ipv4_loopback :: "nat list \<Rightarrow> bool" where
  "ipv4_loopback a \<longleftrightarrow> (case a of x # _ \<Rightarrow> x = 127 | [] \<Rightarrow> False)"

definition ipv6_loopback :: "nat list \<Rightarrow> bool" where
  "ipv6_loopback gs \<longleftrightarrow> gs = [0, 0, 0, 0, 0, 0, 0, 1]"

definition ipv4_mapped :: "nat list \<Rightarrow> nat list option" where
  "ipv4_mapped gs =
     (case gs of
        [a, b, c, d, e, f, g, h] \<Rightarrow>
          if [a, b, c, d, e, f] = [0, 0, 0, 0, 0, 65535] then Some [g div 256, g mod 256, h div 256, h mod 256] else None
      | _ \<Rightarrow> None)"

section \<open>Hosts and origins\<close>

definition loopback_host :: "ustring \<Rightarrow> bool" where
  "loopback_host host \<longleftrightarrow>
     ascii_lower host = lit ''localhost'' \<or>
     (case parse_ipv4 host of
        Some a \<Rightarrow> ipv4_loopback a
      | None \<Rightarrow>
          (case parse_ipv6 host of
             Some gs \<Rightarrow> ipv6_loopback gs \<or> (case ipv4_mapped gs of Some a \<Rightarrow> ipv4_loopback a | None \<Rightarrow> False)
           | None \<Rightarrow> False))"

definition parse_http_port :: "ustring \<Rightarrow> nat option" where
  "parse_http_port v =
     (if v = [] \<or> \<not> list_all is_digit (as_bytes v) then None
      else if 65535 < digits_value v \<or> digits_value v = 0 then None
      else Some (digits_value v))"

definition valid_label :: "ustring \<Rightarrow> bool" where
  "valid_label label \<longleftrightarrow>
     \<not> (label = [] \<or> 63 < str_len label \<or> starts_with [45] label \<or> ends_with [45] label \<or>
        \<not> list_all (\<lambda>b. is_alnum b \<or> b = 45) (as_bytes label))"

definition validated_authority :: "ustring \<Rightarrow> nat \<Rightarrow> (ustring \<times> nat) option" where
  "validated_authority authority default_port =
     (if authority = [] \<or> list_ex (\<lambda>b. b \<le> 32 \<or> 127 \<le> b \<or> b \<in> {47, 92, 64, 63, 35, 37}) (as_bytes authority) then None
      else Option.bind
        (case strip_prefix [91] authority of
           Some rest \<Rightarrow>
             Option.bind (split_once 93 rest) (\<lambda>(host, suffix).
             Option.bind (parse_ipv6 host) (\<lambda>address.
             Option.bind (if suffix = [] then Some default_port else Option.bind (strip_prefix [58] suffix) parse_http_port)
               (\<lambda>port. Some (ipv6_text address, port))))
         | None \<Rightarrow>
             Option.bind
               (case rsplit_once 58 authority of
                  Some (host, port) \<Rightarrow> if 58 \<in> set host then None else map_option (Pair host) (parse_http_port port)
                | None \<Rightarrow> Some (authority, default_port))
               (\<lambda>(host, port).
                 case parse_ipv4 host of
                   Some address \<Rightarrow> Some (ipv4_text address, port)
                 | None \<Rightarrow>
                     (let lower = ascii_lower host
                      in if 253 < str_len lower \<or> \<not> list_all valid_label (split_on 46 lower) then None
                         else Some (lower, port))))
        (\<lambda>(host, port). if port \<noteq> 0 then Some (host, port) else None))"

definition tls_authority :: "ustring \<Rightarrow> (ustring \<times> nat) option" where
  "tls_authority authority = validated_authority authority 443"

fun split_once_str :: "'a list \<Rightarrow> 'a list \<Rightarrow> ('a list \<times> 'a list) option" where
  "split_once_str p [] = (if p = [] then Some ([], []) else None)"
| "split_once_str p (c # s) =
     (case strip_prefix p (c # s) of
        Some r \<Rightarrow> Some ([], r)
      | None \<Rightarrow> map_option (\<lambda>(a, b). (c # a, b)) (split_once_str p s))"

definition scheme_port :: "ustring \<Rightarrow> nat option" where
  "scheme_port scheme =
     (if ascii_lower scheme = lit ''http'' then Some 80
      else if ascii_lower scheme = lit ''https'' then Some 443
      else None)"

definition allowed_origin :: "ustring \<Rightarrow> ustring \<Rightarrow> bool" where
  "allowed_origin origin request_host =
     (case validated_authority request_host 80 of
        None \<Rightarrow> False
      | Some (host, _) \<Rightarrow>
          if \<not> loopback_host host then False
          else if trim origin = [] then True
          else (case split_once_str (lit ''://'') (trim origin) of
                  None \<Rightarrow> False
                | Some (scheme, authority) \<Rightarrow>
                    (case scheme_port scheme of
                       None \<Rightarrow> False
                     | Some default_port \<Rightarrow>
                         (case validated_authority authority default_port of
                            None \<Rightarrow> False
                          | Some (origin_host, _) \<Rightarrow> loopback_host origin_host))))"

definition allowed_origin_for_transport :: "ustring \<Rightarrow> ustring \<Rightarrow> bool \<Rightarrow> bool" where
  "allowed_origin_for_transport origin request_host secure =
     (if \<not> secure then allowed_origin origin request_host
      else if trim origin = [] then tls_authority request_host \<noteq> None
      else (case split_once_str (lit ''://'') (trim origin) of
              None \<Rightarrow> False
            | Some (scheme, authority) \<Rightarrow>
                if scheme \<noteq> lit ''https'' then False
                else (case tls_authority authority of
                        None \<Rightarrow> False
                      | Some origin_authority \<Rightarrow> tls_authority request_host = Some origin_authority)))"

section \<open>Media types\<close>

definition is_mime_token :: "ustring \<Rightarrow> bool" where
  "is_mime_token v \<longleftrightarrow>
     v \<noteq> [] \<and> list_all (\<lambda>b. is_alnum b \<or> b \<in> {33, 35, 36, 37, 38, 39, 42, 43, 45, 46, 94, 95, 96, 124, 126}) (as_bytes v)"

text \<open>The scan for separators outside quotes: the finished part, then the parts so far.\<close>

fun mime_scan :: "uchar \<Rightarrow> bool \<Rightarrow> bool \<Rightarrow> ustring \<Rightarrow> ustring list \<Rightarrow> ustring \<Rightarrow> ustring list option" where
  "mime_scan sep quoted escaped part parts [] = (if quoted \<or> escaped then None else Some (parts @ [part]))"
| "mime_scan sep quoted escaped part parts (c # s) =
     (if escaped then mime_scan sep quoted False (part @ [c]) parts s
      else if quoted \<and> c = 92 then mime_scan sep quoted True (part @ [c]) parts s
      else if c = 34 then mime_scan sep (\<not> quoted) False (part @ [c]) parts s
      else if c = sep \<and> \<not> quoted then mime_scan sep quoted False [] (parts @ [part]) s
      else mime_scan sep quoted False (part @ [c]) parts s)"

definition split_mime_parts :: "ustring \<Rightarrow> uchar \<Rightarrow> ustring list option" where
  "split_mime_parts v sep = mime_scan sep False False [] [] v"

fun quoted_bytes_ok :: "bool \<Rightarrow> nat list \<Rightarrow> bool" where
  "quoted_bytes_ok escaped [] = (\<not> escaped)"
| "quoted_bytes_ok escaped (b # bs) =
     (if escaped then \<not> (b < 32 \<or> b = 127) \<and> quoted_bytes_ok False bs
      else if b = 92 then quoted_bytes_ok True bs
      else \<not> (b = 34 \<or> b < 32 \<or> b = 127) \<and> quoted_bytes_ok False bs)"

definition mime_value_ok :: "ustring \<Rightarrow> bool" where
  "mime_value_ok v =
     (if starts_with [34] v then
        (let bs = as_bytes v
         in \<not> (length bs < 2 \<or> last bs \<noteq> 34) \<and> quoted_bytes_ok False (butlast (tl bs)))
      else is_mime_token v)"

fun mime_parameters_ok :: "ustring list \<Rightarrow> ustring list \<Rightarrow> bool" where
  "mime_parameters_ok seen [] = True"
| "mime_parameters_ok seen (p # ps) =
     (if ps = [] \<and> trim p = [] then True
      else (case split_once 61 p of
              None \<Rightarrow> False
            | Some (name, val) \<Rightarrow>
                is_mime_token (trim name) \<and> ascii_lower (trim name) \<notin> set seen \<and> mime_value_ok (trim val) \<and>
                mime_parameters_ok (ascii_lower (trim name) # seen) ps))"

definition parse_mime_media_type :: "ustring \<Rightarrow> ustring option" where
  "parse_mime_media_type v =
     (case split_mime_parts v 59 of
        None \<Rightarrow> None
      | Some [] \<Rightarrow> None
      | Some (part # parameters) \<Rightarrow>
          (let media = trim part
           in case split_once 47 media of
                None \<Rightarrow> None
              | Some (main, sub) \<Rightarrow>
                  if length (filter (\<lambda>c. c = 47) media) \<noteq> 1 \<or> \<not> is_mime_token main \<or> \<not> is_mime_token sub then None
                  else if mime_parameters_ok [] parameters then Some (ascii_lower media) else None))"

definition is_json_content_type :: "ustring \<Rightarrow> bool" where
  "is_json_content_type v \<longleftrightarrow> parse_mime_media_type v = Some (lit ''application/json'')"

fun accept_scan :: "ustring list \<Rightarrow> bool \<Rightarrow> bool \<Rightarrow> bool" where
  "accept_scan [] json event_stream = (json \<and> event_stream)"
| "accept_scan (p # ps) json event_stream =
     (case parse_mime_media_type p of
        None \<Rightarrow> accept_scan ps json event_stream
      | Some m \<Rightarrow>
          if m = lit ''*/*'' \<or> m = lit ''application/*'' \<or> m = lit ''application/json'' then accept_scan ps True event_stream
          else if m = lit ''text/event-stream'' then accept_scan ps json True
          else accept_scan ps json event_stream)"

definition accepts_response :: "ustring \<Rightarrow> bool" where
  "accepts_response v = accept_scan (split_on 44 v) False False"

section \<open>Decimal octets\<close>

lemma digits_value_ge: "ds \<noteq> [] \<Longrightarrow> hd ds \<noteq> 48 \<Longrightarrow> list_all is_digit ds \<Longrightarrow> 1 \<le> digits_value ds"
proof (induction ds rule: rev_induct)
  case (snoc d ds)
  then show ?case
  proof (cases "ds = []")
    case False
    then have "1 \<le> digits_value ds" using snoc by simp
    then show ?thesis by simp
  qed (auto simp: is_digit_def digits_value_def)
qed simp

lemma dec_digits_value:
  "list_all is_digit ds \<Longrightarrow> ds \<noteq> [] \<Longrightarrow> length ds = 1 \<or> hd ds \<noteq> 48 \<Longrightarrow> dec (digits_value ds) = ds"
proof (induction ds rule: rev_induct)
  case (snoc d ds)
  have d: "48 \<le> d" "d \<le> 57" using snoc.prems(1) by (auto simp: is_digit_def)
  show ?case
  proof (cases "ds = []")
    case True
    then show ?thesis using d by (simp add: dec.simps digits_value_def)
  next
    case False
    then have h: "hd ds \<noteq> 48" using snoc.prems(3) by simp
    have "1 \<le> digits_value ds" using False h snoc.prems(1) by (intro digits_value_ge) auto
    then have "\<not> digits_value (ds @ [d]) < 10" by simp
    moreover have "digits_value (ds @ [d]) div 10 = digits_value ds" using d by simp
    moreover have "48 + digits_value (ds @ [d]) mod 10 = d"
    proof -
      have "digits_value (ds @ [d]) mod 10 = (d - 48) mod 10" unfolding digits_value_snoc by (metis mod_mult_self4)
      then show ?thesis using d by simp
    qed
    moreover have "dec (digits_value ds) = ds" using snoc.IH snoc.prems(1) False h by auto
    ultimately show ?thesis by (subst dec.simps) simp
  qed
qed simp

lemma read_octet_Some: "read_octet s = Some (n, r) \<Longrightarrow> n \<le> 255 \<and> s = dec n @ r"
proof -
  assume a: "read_octet s = Some (n, r)"
  let ?ds = "takeWhile is_digit s"
  have ok: "?ds \<noteq> []" "length ?ds = 1 \<or> hd ?ds \<noteq> 48" "digits_value ?ds \<le> 255" "n = digits_value ?ds" "r = dropWhile is_digit s"
    using a by (auto simp: read_octet_def Let_def split: if_splits) (metis One_nat_def length_0_conv less_one linorder_neqE_nat takeWhile_eq_Nil_iff)
  have "list_all is_digit ?ds" by (auto simp: list_all_iff dest: set_takeWhileD)
  then have "dec n = ?ds" using dec_digits_value ok(1,2,4) by simp
  then show ?thesis using ok(3,4,5) by simp
qed

lemma read_dot_octet_Some: "read_dot_octet s = Some (n, r) \<Longrightarrow> n \<le> 255 \<and> s = 46 # dec n @ r"
  using read_octet_Some by (auto simp: read_dot_octet_def bind_eq_Some_conv strip_prefix_Some_iff)

lemma parse_ipv4_Some:
  assumes "parse_ipv4 s = Some a"
  shows "length a = 4 \<and> (\<forall>x \<in> set a. x \<le> 255) \<and> s = ipv4_text a"
proof -
  have "read_ipv4 s = Some (a, [])" using assms by (auto simp: parse_ipv4_def split: option.splits list.splits)
  then obtain w x y z r1 r2 r3 where "read_octet s = Some (w, r1)" "read_dot_octet r1 = Some (x, r2)"
    "read_dot_octet r2 = Some (y, r3)" "read_dot_octet r3 = Some (z, [])" "a = [w, x, y, z]"
    by (auto simp: read_ipv4_def bind_eq_Some_conv)
  with read_octet_Some [of s w r1] read_dot_octet_Some [of r1 x r2] read_dot_octet_Some [of r2 y r3]
    read_dot_octet_Some [of r3 z "[]"]
  show ?thesis by (simp add: ipv4_text_def)
qed

section \<open>Which hosts pass\<close>

text \<open>
  The authorities that name this machine: \<open>localhost\<close> in any case or a decimal address of the loopback
  network, with or without a port, or an IPv6 literal in brackets.
\<close>

definition loopback_authority :: "ustring \<Rightarrow> bool" where
  "loopback_authority a \<longleftrightarrow>
     (\<exists>h suffix. a = h @ suffix \<and> (suffix = [] \<or> (\<exists>port. suffix = 58 # port \<and> parse_http_port port \<noteq> None)) \<and>
        (ascii_lower h = lit ''localhost'' \<or> (\<exists>x y z. h = ipv4_text [127, x, y, z] \<and> x \<le> 255 \<and> y \<le> 255 \<and> z \<le> 255))) \<or>
     (\<exists>h rest gs. a = 91 # h @ 93 # rest \<and> parse_ipv6 h = Some gs \<and> loopback_host (ipv6_text gs))"

lemma ascii_lower_twice: "ascii_lower (ascii_lower s) = ascii_lower s"
  by (auto simp: ascii_lower_def)

lemma four_elements: "length a = 4 \<Longrightarrow> \<exists>w x y z. a = [w, x, y, z]"
  by (auto simp: length_Suc_conv numeral_eq_Suc)

lemma parse_ipv4_digits: "parse_ipv4 s = Some a \<Longrightarrow> c \<in> set s \<Longrightarrow> is_digit c \<or> c = 46"
proof -
  assume h: "parse_ipv4 s = Some a" "c \<in> set s"
  from parse_ipv4_Some [OF h(1)] obtain w x y z where "s = ipv4_text [w, x, y, z]"
    using four_elements by metis
  with h(2) show ?thesis using dec_digits by (auto simp: ipv4_text_def)
qed

lemma ascii_lower_ipv4: "parse_ipv4 (ascii_lower s) = Some a \<Longrightarrow> ascii_lower s = s"
proof -
  assume h: "parse_ipv4 (ascii_lower s) = Some a"
  have "(if 65 \<le> c \<and> c \<le> 90 then c + 32 else c) = c" if "c \<in> set s" for c
  proof (rule ccontr)
    assume "\<not> ?thesis"
    then have "65 \<le> c" "c \<le> 90" "c + 32 \<in> set (ascii_lower s)"
      using that by (auto simp: ascii_lower_def split: if_splits)
    with parse_ipv4_digits [OF h this(3)] show False by (auto simp: is_digit_def)
  qed
  then show "ascii_lower s = s" by (simp add: ascii_lower_def map_idI)
qed

lemma read_groups_no_colon: "58 \<notin> set s \<Longrightarrow> read_groups n False s = ([], False, s)"
proof (cases n)
  case (Suc m)
  assume "58 \<notin> set s"
  then have "after_colon False s = None" by (cases s) (auto simp: after_colon_def)
  then show ?thesis by (simp add: Suc)
qed simp

lemma parse_ipv6_colon:
  assumes "parse_ipv6 s = Some gs"
  shows "58 \<in> set s"
proof (rule ccontr)
  assume no: "58 \<notin> set s"
  obtain front v4 r where f: "read_groups 8 True s = (front, v4, r)" by (metis surj_pair)
  have f': "read_groups (Suc 7) True s = (front, v4, r)" using f by simp
  show False
  proof (cases "read_ipv4 s")
    case None
    show False
    proof (cases "read_group s")
      case None
      then have "front = []" "r = s" using f' \<open>read_ipv4 s = None\<close> unfolding read_groups.simps by (simp_all add: after_colon_def)
      then show False using assms no f by (auto simp: parse_ipv6_def strip_prefix_Some_iff split: option.splits if_splits)
    next
      case (Some gr)
      obtain g r0 where g: "read_group s = Some (g, r0)" using Some by (cases gr) auto
      have "set r0 \<subseteq> set s"
        using g by (auto simp: read_group_def Let_def split: if_splits dest: set_dropWhileD)
      then have "58 \<notin> set r0" using no by blast
      moreover from this have "front = [g]" "r = r0"
        using f' \<open>read_ipv4 s = None\<close> g read_groups_no_colon [of r0 7] unfolding read_groups.simps by (simp_all add: after_colon_def)
      ultimately show False using assms f by (auto simp: parse_ipv6_def strip_prefix_Some_iff split: option.splits if_splits)
    qed
  next
    case (Some ar)
    then obtain a b c d r0 where "read_ipv4 s = Some ([a, b, c, d], r0)"
      by (auto simp: read_ipv4_def bind_eq_Some_conv)
    then have "length front = 2" "v4" using f' unfolding read_groups.simps by (auto simp: after_colon_def)
    then show False using assms f by (simp add: parse_ipv6_def)
  qed
qed

lemma ascii_lower_colon: "58 \<in> set (ascii_lower s) \<Longrightarrow> 58 \<in> set s"
  by (auto simp: ascii_lower_def split: if_splits)

text \<open>A name that is no address passes the loopback test only as \<open>localhost\<close>.\<close>

lemma loopback_name:
  assumes "loopback_host (ascii_lower host)" "parse_ipv4 host = None" "58 \<notin> set host"
  shows "ascii_lower host = lit ''localhost''"
proof -
  have "parse_ipv4 (ascii_lower host) = None"
    using assms(2) ascii_lower_ipv4 by (metis not_None_eq)
  moreover have "parse_ipv6 (ascii_lower host) = None"
    using assms(3) parse_ipv6_colon ascii_lower_colon by (metis not_None_eq)
  ultimately show ?thesis using assms(1) by (simp add: loopback_host_def ascii_lower_twice del: lit_simps)
qed

lemma loopback_ipv4:
  assumes "parse_ipv4 host = Some a" "loopback_host (ipv4_text a)"
  shows "\<exists>x y z. host = ipv4_text [127, x, y, z] \<and> x \<le> 255 \<and> y \<le> 255 \<and> z \<le> 255"
proof -
  from parse_ipv4_Some [OF assms(1)] have a: "length a = 4" "\<forall>x \<in> set a. x \<le> 255" "host = ipv4_text a" by auto
  have "ascii_lower host \<noteq> lit ''localhost''"
  proof
    assume "ascii_lower host = lit ''localhost''"
    moreover have "ascii_lower host = host"
      using parse_ipv4_digits [OF assms(1)] by (fastforce simp: ascii_lower_def is_digit_def intro!: map_idI)
    ultimately have "108 \<in> set host" by simp
    then show False using parse_ipv4_digits [OF assms(1)] by (force simp: is_digit_def)
  qed
  then have "ipv4_loopback a" using assms a(3) by (auto simp: loopback_host_def)
  moreover obtain w x y z where "a = [w, x, y, z]" using four_elements [OF a(1)] by blast
  ultimately show ?thesis using a(2,3) by (auto simp: ipv4_loopback_def)
qed

lemma validated_loopback:
  assumes "validated_authority a port = Some (h, p)" "loopback_host h"
  shows "loopback_authority a"
proof (cases "strip_prefix [91] a")
  case (Some rest)
  obtain host suffix gs where "split_once 93 rest = Some (host, suffix)" "parse_ipv6 host = Some gs" "h = ipv6_text gs"
    using assms(1) Some by (auto simp: validated_authority_def bind_eq_Some_conv split: if_splits)
  moreover have "a = 91 # rest" using Some by (simp add: strip_prefix_Some_iff)
  ultimately show ?thesis using assms(2) unfolding loopback_authority_def by (auto simp: split_once_Some_iff)
next
  case None
  obtain host suffix where host: "a = host @ suffix" "58 \<notin> set host"
      "suffix = [] \<or> (\<exists>port. suffix = 58 # port \<and> parse_http_port port \<noteq> None)"
    and h: "(\<exists>addr. parse_ipv4 host = Some addr \<and> h = ipv4_text addr) \<or> parse_ipv4 host = None \<and> h = ascii_lower host"
  proof (cases "rsplit_once 58 a")
    case None
    then have "58 \<notin> set a" by simp
    moreover have "(\<exists>addr. parse_ipv4 a = Some addr \<and> h = ipv4_text addr) \<or> parse_ipv4 a = None \<and> h = ascii_lower a"
      using assms(1) \<open>strip_prefix [91] a = None\<close> None
      by (auto simp: validated_authority_def bind_eq_Some_conv Let_def simp del: rsplit_once_None_iff split: if_splits option.splits)
    ultimately show ?thesis using that [of a "[]"] by simp
  next
    case (Some hp)
    then obtain host q where hq: "rsplit_once 58 a = Some (host, q)" by (cases hp) auto
    then have "a = host @ 58 # q" by (simp add: rsplit_once_Some_iff)
    moreover have "58 \<notin> set host" "parse_http_port q \<noteq> None"
      "(\<exists>addr. parse_ipv4 host = Some addr \<and> h = ipv4_text addr) \<or> parse_ipv4 host = None \<and> h = ascii_lower host"
      using assms(1) \<open>strip_prefix [91] a = None\<close> hq
      by (auto simp: validated_authority_def bind_eq_Some_conv Let_def simp del: rsplit_once_None_iff split: if_splits option.splits)
    ultimately show ?thesis using that [of host "58 # q"] by simp
  qed
  have "ascii_lower host = lit ''localhost'' \<or> (\<exists>x y z. host = ipv4_text [127, x, y, z] \<and> x \<le> 255 \<and> y \<le> 255 \<and> z \<le> 255)"
    using h assms(2) loopback_ipv4 loopback_name [OF _ _ host(2)] by blast
  with host show ?thesis unfolding loopback_authority_def by blast
qed



end
