(* ===== verification/OAuth.thy ===== *)
theory OAuth
  imports Token_Registry Http_Guard Json_Value
begin

text \<open>
  \<^verbatim>\<open>symvault-mcp/src/oauth.rs\<close>: dynamic registration, the authorization-code flow with PKCE and human
  consent, and the token endpoint, on top of the token registry.

  The state is the record \<open>oauth_state\<close> beside the file system of the registry; a map is an association
  list, and \<open>None\<close> in place of a map is a poisoned mutex (a panic while the lock is held poisons it). The
  two closures of the source, human consent and the passphrase check, the digest of the tool catalogue,
  and the parts of other crates (SHA-256 with base64url, JSON, RFC 3339, the clock's arithmetic) are the
  fields of \<open>oauth_env\<close>. Random bytes and each reading of the clock are arguments. \<open>confirm\<close> takes the
  lock three times; it is the composition of the part that checks and the part that acts, so that other
  requests can be placed between them.
\<close>

section \<open>State and responses\<close>

datatype consent_decision = Approved | Denied | Browser

record pending_code =
  pc_client_id :: ustring
  pc_code_challenge :: ustring
  pc_expires_at :: odt

record browser_request =
  br_client_id :: ustring
  br_redirect_uri :: ustring
  br_state :: ustring
  br_code_challenge :: ustring
  br_expires_at :: odt

record oauth_state =
  os_agent_name :: ustring
  os_codes :: "(ustring \<times> pending_code) list option"
  os_browser_requests :: "(ustring \<times> browser_request) list option"
  os_access_token_ttl :: int
  os_refresh_token_ttl :: int

record http_response =
  hr_status :: nat
  hr_headers :: "(ustring \<times> ustring) list"
  hr_body :: "nat list"

datatype oauth_response = Http http_response | Redirect ustring | Panics

record 'f oauth_env =
  oe_time :: time_lib
  oe_codec :: registry_codec
  oe_fs :: "'f registry_fs"
  oe_consent :: "ustring \<Rightarrow> ustring \<Rightarrow> consent_decision"
  oe_verify_passphrase :: "ustring \<Rightarrow> bool"
  oe_registry_hash :: "ustring option"
  oe_sha256 :: "nat list \<Rightarrow> nat list"
  oe_base64url :: "nat list \<Rightarrow> ustring"
  oe_parse_rfc3339 :: "ustring \<Rightarrow> odt option"
  oe_registration :: "ustring \<Rightarrow> ustring list option option"
  oe_json :: "json \<Rightarrow> nat list"

record oauth_random =
  or_code :: "ustring + nat list"
  or_flow :: "ustring + nat list"
  or_client :: "ustring + nat list"
  or_token :: token_random

definition AUTH_CODE_TTL :: int where "AUTH_CODE_TTL = 300 * 1000000000"
definition ACCESS_TOKEN_TTL :: int where "ACCESS_TOKEN_TTL = 24 * 3600 * 1000000000"
definition REFRESH_TOKEN_TTL :: int where "REFRESH_TOKEN_TTL = 720 * 3600 * 1000000000"
definition MAX_BROWSER_CONSENTS :: nat where "MAX_BROWSER_CONSENTS = 256"

definition oauth_new :: "ustring \<Rightarrow> oauth_state" where
  "oauth_new agent = \<lparr>os_agent_name = agent, os_codes = Some [], os_browser_requests = Some [],
     os_access_token_ttl = ACCESS_TOKEN_TTL, os_refresh_token_ttl = REFRESH_TOKEN_TTL\<rparr>"

text \<open>A standard duration, in nanoseconds, as a signed duration that can be added to now.\<close>

definition convert_ttl :: "time_lib \<Rightarrow> odt \<Rightarrow> nat \<Rightarrow> ustring + int" where
  "convert_ttl T now ttl =
     (if ttl = 0 then Inl (lit ''OAuth token TTL must be positive'')
      else if i64_max < int ttl div 1000000000 \<or> tl_checked_add T now (int ttl) = None
      then Inl (lit ''OAuth token TTL exceeds supported duration'')
      else Inr (int ttl))"

definition with_token_ttls :: "time_lib \<Rightarrow> odt \<Rightarrow> odt \<Rightarrow> nat \<Rightarrow> nat \<Rightarrow> oauth_state \<Rightarrow> ustring + oauth_state" where
  "with_token_ttls T now1 now2 access refresh st =
     res_bind (convert_ttl T now1 access) (\<lambda>a.
     res_bind (convert_ttl T now2 refresh) (\<lambda>r.
       Inr (st\<lparr>os_access_token_ttl := a, os_refresh_token_ttl := r\<rparr>)))"

definition header_json :: "ustring \<times> ustring" where
  "header_json = (lit ''Content-Type'', lit ''application/json'')"

definition json_response :: "'f oauth_env \<Rightarrow> nat \<Rightarrow> json \<Rightarrow> http_response" where
  "json_response E status body = \<lparr>hr_status = status, hr_headers = [header_json], hr_body = oe_json E body @ [10]\<rparr>"

definition error_response :: "'f oauth_env \<Rightarrow> nat \<Rightarrow> ustring \<Rightarrow> http_response" where
  "error_response E status message = json_response E status (JObject [(lit ''error'', JString message)])"

definition error_description :: "'f oauth_env \<Rightarrow> nat \<Rightarrow> ustring \<Rightarrow> ustring \<Rightarrow> http_response" where
  "error_description E status message description =
     json_response E status (JObject [(lit ''error'', JString message), (lit ''error_description'', JString description)])"

definition html_response :: "nat \<Rightarrow> ustring \<Rightarrow> http_response" where
  "html_response status body =
     \<lparr>hr_status = status,
      hr_headers = [(lit ''Content-Type'', lit ''text/html; charset=utf-8''), (lit ''Cache-Control'', lit ''no-store'')],
      hr_body = as_bytes body\<rparr>"

definition method_not_allowed :: "ustring \<Rightarrow> http_response" where
  "method_not_allowed allow =
     \<lparr>hr_status = 405,
      hr_headers = [(lit ''Allow'', allow), (lit ''Content-Type'', lit ''text/plain; charset=utf-8''),
        (lit ''X-Content-Type-Options'', lit ''nosniff'')],
      hr_body = lit ''Method Not Allowed'' @ [10]\<rparr>"

definition origin_error :: http_response where
  "origin_error =
     \<lparr>hr_status = 403, hr_headers = [header_json],
      hr_body = lit ''{\"error\":{\"message\":\"invalid Origin header\",\"code\":-32600},\"jsonrpc\":\"2.0\"}'' @ [10]\<rparr>"

definition consent_page :: "ustring \<Rightarrow> ustring \<Rightarrow> ustring \<Rightarrow> ustring \<Rightarrow> ustring \<Rightarrow> ustring" where
  "consent_page flow_id client_id redirect_uri agent_name error_text =
     lit ''<!doctype html><html><head><meta charset=\"utf-8\"><title>Symaira Vault consent</title></head><body><main><h1>Authorize MCP client</h1><p>Client: '' @
     html_escape client_id @ lit ''</p><p>Redirect URI: '' @ html_escape redirect_uri @ lit ''</p><p>Agent: '' @
     html_escape agent_name @ lit ''</p><p>This client requests full access to this agent'' @ [39] @
     lit ''s tools.</p><p>'' @ html_escape error_text @
     lit ''</p><form method=\"POST\" action=\"/mcp/oauth/authorize/confirm\"><input type=\"hidden\" name=\"flow_id\" value=\"'' @
     html_escape flow_id @
     lit ''\"><label>Vault passphrase <input type=\"password\" name=\"passphrase\" autocomplete=\"current-password\" required></label><button type=\"submit\" name=\"decision\" value=\"approve\">Approve</button><button type=\"submit\" name=\"decision\" value=\"deny\" formnovalidate>Deny</button></form></main></body></html>''"

definition discovery_response :: "'f oauth_env \<Rightarrow> ustring \<Rightarrow> bool \<Rightarrow> http_response" where
  "discovery_response E local secure =
     (let issuer = (if secure then lit ''https'' else lit ''http'') @ lit ''://'' @ local
      in json_response E 200 (JObject
           [(lit ''issuer'', JString issuer),
            (lit ''authorization_endpoint'', JString (issuer @ lit ''/mcp/oauth/authorize'')),
            (lit ''token_endpoint'', JString (issuer @ lit ''/mcp/oauth/token'')),
            (lit ''registration_endpoint'', JString (issuer @ lit ''/oauth/register'')),
            (lit ''response_types_supported'', JArray [JString (lit ''code'')]),
            (lit ''code_challenge_methods_supported'', JArray [JString (lit ''S256'')]),
            (lit ''token_endpoint_auth_methods_supported'', JArray [JString (lit ''none'')]),
            (lit ''grant_types_supported'', JArray [JString (lit ''authorization_code''), JString (lit ''refresh_token'')])]))"

section \<open>Registration\<close>

definition validate_registration :: "'f oauth_env \<Rightarrow> ustring \<Rightarrow> ustring \<Rightarrow> ustring + ustring list" where
  "validate_registration E content_type body =
     (if \<not> is_json_content_type content_type then Inl (lit ''invalid_client_metadata'')
      else (case oe_registration E body of
              None \<Rightarrow> Inl (lit ''invalid_client_metadata'')
            | Some uris \<Rightarrow>
                (let redirect_uris = (case uris of Some l \<Rightarrow> l | None \<Rightarrow> [])
                 in if redirect_uris = [] \<or> \<not> list_all allowed_redirect_uri redirect_uris
                    then Inl (lit ''invalid_redirect_uri'') else Inr redirect_uris)))"

definition oauth_register ::
  "'f oauth_env \<Rightarrow> oauth_random \<Rightarrow> ustring \<Rightarrow> ustring \<Rightarrow> odt \<Rightarrow> oauth_state \<times> 'f \<Rightarrow> oauth_response \<times> oauth_state \<times> 'f" where
  "oauth_register E rnd content_type body now S =
     (case validate_registration E content_type body of
        Inl error_name \<Rightarrow> (Http (error_response E 400 error_name), S)
      | Inr redirects \<Rightarrow>
          (case register_oauth_client (oe_time E) (oe_codec E) (oe_fs E) (or_client rnd) redirects now (snd S) of
             (Inl (Limit _ _), s) \<Rightarrow> (Http (error_response E 429 (lit ''server_error'')), fst S, s)
           | (Inl _, s) \<Rightarrow> (Http (error_response E 500 (lit ''server_error'')), fst S, s)
           | (Inr client, s) \<Rightarrow>
               (Http (json_response E 201 (JObject
                  [(lit ''client_id'', JString (oc_client_id client)),
                   (lit ''client_id_issued_at'', JInt (tl_unix_nanos (oe_time E) now div 1000000000)),
                   (lit ''client_secret_expires_at'', JInt 0),
                   (lit ''token_endpoint_auth_method'', JString (lit ''none'')),
                   (lit ''grant_types'', JArray [JString (lit ''authorization_code''), JString (lit ''refresh_token'')]),
                   (lit ''response_types'', JArray [JString (lit ''code'')]),
                   (lit ''redirect_uris'', JArray (map JString (oc_redirect_uris client)))])), fst S, s)))"

section \<open>Authorization\<close>

definition param :: "(ustring \<times> ustring) list \<Rightarrow> string \<Rightarrow> ustring" where
  "param parameters name = (case map_of parameters (lit name) of Some v \<Rightarrow> v | None \<Rightarrow> [])"

text \<open>The code expires a fixed time after it was issued; the addition panics out of range while the
  lock of the codes is held.\<close>

definition issue_code ::
  "'f oauth_env \<Rightarrow> oauth_random \<Rightarrow> ustring \<Rightarrow> ustring \<Rightarrow> ustring \<Rightarrow> ustring \<Rightarrow> odt \<Rightarrow> oauth_state \<Rightarrow> oauth_response \<times> oauth_state" where
  "issue_code E rnd client_id redirect_uri state_value challenge now st =
     (case or_code rnd of
        Inl _ \<Rightarrow> (Http (error_response E 500 (lit ''server_error'')), st)
      | Inr random \<Rightarrow>
          (case os_codes st of
             None \<Rightarrow> (Http (error_response E 500 (lit ''server_error'')), st)
           | Some codes \<Rightarrow>
               (case tl_checked_add (oe_time E) now AUTH_CODE_TTL of
                  None \<Rightarrow> (Panics, st\<lparr>os_codes := None\<rparr>)
                | Some expires_at \<Rightarrow>
                    (Redirect (redirect_uri_with_code redirect_uri (encode_hex random) state_value),
                     st\<lparr>os_codes := Some (AList.update (encode_hex random)
                       \<lparr>pc_client_id = client_id, pc_code_challenge = challenge, pc_expires_at = expires_at\<rparr> codes)\<rparr>))))"

definition start_browser_consent ::
  "'f oauth_env \<Rightarrow> oauth_random \<Rightarrow> ustring \<Rightarrow> ustring \<Rightarrow> ustring \<Rightarrow> ustring \<Rightarrow> odt \<Rightarrow> oauth_state \<Rightarrow> oauth_response \<times> oauth_state" where
  "start_browser_consent E rnd client_id redirect_uri state_value challenge now st =
     (case or_flow rnd of
        Inl _ \<Rightarrow> (Http (error_response E 500 (lit ''server_error'')), st)
      | Inr random \<Rightarrow>
          (case tl_checked_add (oe_time E) now AUTH_CODE_TTL of
             None \<Rightarrow> (Panics, st)
           | Some expires_at \<Rightarrow>
               (case os_browser_requests st of
                  None \<Rightarrow> (Http (error_response E 500 (lit ''server_error'')), st)
                | Some requests0 \<Rightarrow>
                    (let flow_id = encode_hex random;
                         request = \<lparr>br_client_id = client_id, br_redirect_uri = redirect_uri, br_state = state_value,
                           br_code_challenge = challenge, br_expires_at = expires_at\<rparr>;
                         requests = filter (\<lambda>(_, r). tl_unix_nanos (oe_time E) now \<le> tl_unix_nanos (oe_time E) (br_expires_at r)) requests0
                     in if MAX_BROWSER_CONSENTS \<le> length requests
                        then (Http (error_response E 503 (lit ''server_error'')), st\<lparr>os_browser_requests := Some requests\<rparr>)
                        else (Http (html_response 200 (consent_page flow_id client_id redirect_uri (os_agent_name st) [])),
                              st\<lparr>os_browser_requests := Some (AList.update flow_id request requests)\<rparr>)))))"

definition unknown_client :: "'f oauth_env \<Rightarrow> http_response" where
  "unknown_client E =
     (let response = error_description E 400 (lit ''invalid_client'') (lit ''unknown client_id; register via POST /oauth/register first'')
      in response\<lparr>hr_headers := hr_headers response @ [(lit ''WWW-Authenticate'',
           lit ''Bearer realm=\"symaira\",error=\"invalid_client\",error_description=\"unknown client_id; register via POST /oauth/register first\"'')]\<rparr>)"

definition authorize_request ::
  "'f oauth_env \<Rightarrow> oauth_random \<Rightarrow> ustring \<Rightarrow> odt \<Rightarrow> bool \<Rightarrow> oauth_state \<times> 'f \<Rightarrow> oauth_response \<times> oauth_state \<times> 'f" where
  "authorize_request E rnd query now head_only S =
     (case parse_form query of
        None \<Rightarrow> (Http (error_response E 400 (lit ''invalid_request'')), S)
      | Some parameters \<Rightarrow>
          (let client_id = param parameters ''client_id'';
               redirect_uri = param parameters ''redirect_uri'';
               challenge = param parameters ''code_challenge'';
               state_value = param parameters ''state''
           in if map_of parameters (lit ''response_type'') \<noteq> Some (lit ''code'') \<or> client_id = [] \<or> redirect_uri = [] \<or> challenge = []
              then (Http (error_description E 400 (lit ''invalid_request'')
                     (lit ''response_type=code, client_id, redirect_uri and code_challenge are required'')), S)
              else if map_of parameters (lit ''code_challenge_method'') \<noteq> Some (lit ''S256'')
              then (Http (error_description E 400 (lit ''invalid_request'') (lit ''only S256 code_challenge_method is supported'')), S)
              else if param parameters ''scope'' \<noteq> [] then (Http (error_response E 400 (lit ''invalid_scope'')), S)
              else (case get_oauth_client (oe_time E) (oe_codec E) (oe_fs E) client_id now (snd S) of
                      Inr (Some client) \<Rightarrow>
                        if oc_client_id client \<noteq> client_id \<or> \<not> valid_client_id client_id
                        then (Http (error_response E 400 (lit ''invalid_client'')), S)
                        else if \<not> is_allowed_redirect_uri redirect_uri (oc_redirect_uris client)
                        then (Http (error_description E 400 (lit ''invalid_redirect_uri'')
                               (lit ''redirect_uri does not match registered redirect URIs'')), S)
                        else if head_only then (Http (html_response 200 []), S)
                        else (case oe_consent E client_id redirect_uri of
                                Denied \<Rightarrow> (Http (error_response E 403 (lit ''access_denied'')), S)
                              | Browser \<Rightarrow>
                                  (let (r, st) = start_browser_consent E rnd client_id redirect_uri state_value challenge now (fst S)
                                   in (r, st, snd S))
                              | Approved \<Rightarrow>
                                  (let (r, st) = issue_code E rnd client_id redirect_uri state_value challenge now (fst S)
                                   in (r, st, snd S)))
                    | _ \<Rightarrow> (Http (unknown_client E), S))))"

section \<open>Confirmation in the browser\<close>

text \<open>A confirmation that has passed its checks, and what it will do when it takes the lock again.\<close>

record confirmation =
  cf_flow_id :: ustring
  cf_request :: browser_request
  cf_denied :: bool

definition is_form_content_type :: "ustring \<Rightarrow> bool" where
  "is_form_content_type content_type \<longleftrightarrow>
     ascii_lower (trim (hd (split_on 59 content_type))) = lit ''application/x-www-form-urlencoded''"

definition confirm_check ::
  "'f oauth_env \<Rightarrow> ustring \<Rightarrow> ustring \<Rightarrow> odt \<Rightarrow> oauth_state \<times> 'f \<Rightarrow> oauth_response + confirmation" where
  "confirm_check E content_type body now S =
     (if \<not> is_form_content_type content_type then Inl (Http (error_response E 400 (lit ''invalid_request'')))
      else (case parse_form body of
              None \<Rightarrow> Inl (Http (error_response E 400 (lit ''invalid_request'')))
            | Some parameters \<Rightarrow>
                (let flow_id = param parameters ''flow_id'';
                     passphrase = param parameters ''passphrase'';
                     decision = map_of parameters (lit ''decision'');
                     denied = (decision = Some (lit ''deny''))
                 in if decision \<noteq> None \<and> decision \<noteq> Some (lit ''approve'') \<and> decision \<noteq> Some (lit ''deny'')
                    then Inl (Http (error_response E 400 (lit ''invalid_request'')))
                    else (case Option.bind (os_browser_requests (fst S)) (\<lambda>requests. map_of requests flow_id) of
                            None \<Rightarrow> Inl (Http (error_response E 400 (lit ''invalid_request'')))
                          | Some request \<Rightarrow>
                              if \<not> tl_unix_nanos (oe_time E) now \<le> tl_unix_nanos (oe_time E) (br_expires_at request)
                              then Inl (Http (error_response E 400 (lit ''invalid_request'')))
                              else (case get_oauth_client (oe_time E) (oe_codec E) (oe_fs E) (br_client_id request) now (snd S) of
                                      Inr (Some client) \<Rightarrow>
                                        if oc_client_id client \<noteq> br_client_id request
                                        then Inl (Http (error_response E 400 (lit ''invalid_client'')))
                                        else if \<not> is_allowed_redirect_uri (br_redirect_uri request) (oc_redirect_uris client)
                                        then Inl (Http (error_response E 400 (lit ''invalid_redirect_uri'')))
                                        else if \<not> denied \<and> \<not> oe_verify_passphrase E passphrase
                                        then Inl (Http (html_response 200 (consent_page flow_id (br_client_id request)
                                               (br_redirect_uri request) (os_agent_name (fst S)) (lit ''Incorrect passphrase.''))))
                                        else Inr \<lparr>cf_flow_id = flow_id, cf_request = request, cf_denied = denied\<rparr>
                                    | _ \<Rightarrow> Inl (Http (error_response E 400 (lit ''invalid_client''))))))))"

definition confirm_finish ::
  "'f oauth_env \<Rightarrow> oauth_random \<Rightarrow> odt \<Rightarrow> confirmation \<Rightarrow> oauth_state \<Rightarrow> oauth_response \<times> oauth_state" where
  "confirm_finish E rnd now c st =
     (case os_browser_requests st of
        None \<Rightarrow> (Http (error_response E 500 (lit ''server_error'')), st)
      | Some requests \<Rightarrow>
          if map_of requests (cf_flow_id c) = None then (Http (error_response E 400 (lit ''invalid_request'')), st)
          else (let st' = st\<lparr>os_browser_requests := Some (AList.delete (cf_flow_id c) requests)\<rparr>; r = cf_request c
                in if cf_denied c
                   then (Redirect (redirect_uri_with_error (br_redirect_uri r) (lit ''access_denied'') (br_state r)), st')
                   else issue_code E rnd (br_client_id r) (br_redirect_uri r) (br_state r) (br_code_challenge r) now st'))"

definition confirm ::
  "'f oauth_env \<Rightarrow> oauth_random \<Rightarrow> ustring \<Rightarrow> ustring \<Rightarrow> odt \<Rightarrow> oauth_state \<times> 'f \<Rightarrow> oauth_response \<times> oauth_state \<times> 'f" where
  "confirm E rnd content_type body now S =
     (case confirm_check E content_type body now S of
        Inl response \<Rightarrow> (response, S)
      | Inr c \<Rightarrow> (let (r, st) = confirm_finish E rnd now c (fst S) in (r, st, snd S)))"

section \<open>Tokens\<close>

definition token_response :: "'f oauth_env \<Rightarrow> token_record \<Rightarrow> ustring \<Rightarrow> ustring \<Rightarrow> odt \<Rightarrow> http_response" where
  "token_response E token access refresh now =
     (let expires_in = (case Option.bind (tk_expires_at token) (oe_parse_rfc3339 E) of
            None \<Rightarrow> 0
          | Some expires_at \<Rightarrow>
              max (tdiv (tl_unix_nanos (oe_time E) expires_at - tl_unix_nanos (oe_time E) now) 1000000000) 0)
      in json_response E 200 (JObject
           [(lit ''access_token'', JString access), (lit ''token_type'', JString (lit ''Bearer'')),
            (lit ''expires_in'', JInt expires_in), (lit ''refresh_token'', JString refresh)]))"

definition code_request :: "oauth_state \<Rightarrow> ustring \<Rightarrow> ustring \<Rightarrow> new_token" where
  "code_request st label registry_hash =
     \<lparr>nt_label = label, nt_allowed_tools = [lit ''*''], nt_agent_name = os_agent_name st,
      nt_ttl = Some (os_access_token_ttl st), nt_tool_registry_hash = registry_hash\<rparr>"

definition code_accepted :: "'f oauth_env \<Rightarrow> (ustring \<times> ustring) list \<Rightarrow> pending_code \<Rightarrow> odt \<Rightarrow> bool" where
  "code_accepted E parameters pending now \<longleftrightarrow>
     \<not> (tl_unix_nanos (oe_time E) (pc_expires_at pending) < tl_unix_nanos (oe_time E) now \<or>
        \<not> (case map_of parameters (lit ''code_verifier'') of
             None \<Rightarrow> False
           | Some verifier \<Rightarrow> verify_s256_code_verifier (oe_sha256 E) (oe_base64url E) verifier (pc_code_challenge pending)))"

text \<open>The lock of the codes is held to the end, so a panic on the way poisons it.\<close>

definition exchange_code ::
  "'f oauth_env \<Rightarrow> oauth_random \<Rightarrow> (ustring \<times> ustring) list \<Rightarrow> odt \<Rightarrow> oauth_state \<times> 'f \<Rightarrow> oauth_response \<times> oauth_state \<times> 'f" where
  "exchange_code E rnd parameters now S =
     (case map_of parameters (lit ''code'') of
        None \<Rightarrow> (Http (error_response E 400 (lit ''invalid_grant'')), S)
      | Some code \<Rightarrow>
          (case os_codes (fst S) of
             None \<Rightarrow> (Http (error_response E 500 (lit ''server_error'')), S)
           | Some codes \<Rightarrow>
               (case map_of codes code of
                  None \<Rightarrow> (Http (error_response E 400 (lit ''invalid_grant'')), S)
                | Some pending \<Rightarrow>
                    (let st = (fst S)\<lparr>os_codes := Some (AList.delete code codes)\<rparr>
                     in if \<not> code_accepted E parameters pending now
                        then (Http (error_response E 400 (lit ''invalid_grant'')), st, snd S)
                        else (case byte_prefix 8 (pc_client_id pending) of
                                None \<Rightarrow> (Panics, st\<lparr>os_codes := None\<rparr>, snd S)
                              | Some start \<Rightarrow>
                                  (case oe_registry_hash E of
                                     None \<Rightarrow> (Http (error_response E 500 (lit ''server_error'')), st, snd S)
                                   | Some registry_hash \<Rightarrow>
                                       (case create_with_refresh (oe_time E) (oe_codec E) (oe_fs E) (or_token rnd)
                                               (code_request st (lit ''oauth-'' @ start) registry_hash)
                                               (Some (os_refresh_token_ttl st)) now (snd S) of
                                          (Inr (token, access, refresh), s) \<Rightarrow>
                                            (Http (token_response E token access refresh now), st, s)
                                        | (Inl _, s) \<Rightarrow> (Http (error_response E 500 (lit ''server_error'')), st, s))))))))"

definition refresh_grant ::
  "'f oauth_env \<Rightarrow> oauth_random \<Rightarrow> (ustring \<times> ustring) list \<Rightarrow> odt \<Rightarrow> oauth_state \<times> 'f \<Rightarrow> oauth_response \<times> oauth_state \<times> 'f" where
  "refresh_grant E rnd parameters now S =
     (if param parameters ''refresh_token'' = []
      then (Http (error_description E 400 (lit ''invalid_request'') (lit ''refresh_token is required'')), S)
      else (case oe_registry_hash E of
              None \<Rightarrow> (Http (error_response E 500 (lit ''server_error'')), S)
            | Some registry_hash \<Rightarrow>
                (case rotate_via_refresh_token_with_access_ttl (oe_time E) (oe_codec E) (oe_fs E) (or_token rnd)
                        (param parameters ''refresh_token'') (os_access_token_ttl (fst S)) registry_hash now (snd S) of
                   (Inr (token, access, refresh), s) \<Rightarrow> (Http (token_response E token access refresh now), fst S, s)
                 | (Inl (Panicked _), s) \<Rightarrow> (Panics, fst S, s)
                 | (Inl _, s) \<Rightarrow>
                     (Http (error_description E 400 (lit ''invalid_grant'') (lit ''invalid or expired refresh token'')), fst S, s))))"

definition oauth_token ::
  "'f oauth_env \<Rightarrow> oauth_random \<Rightarrow> ustring \<Rightarrow> odt \<Rightarrow> oauth_state \<times> 'f \<Rightarrow> oauth_response \<times> oauth_state \<times> 'f" where
  "oauth_token E rnd body now S =
     (case parse_form body of
        None \<Rightarrow> (Http (error_response E 400 (lit ''invalid_request'')), S)
      | Some parameters \<Rightarrow>
          if map_of parameters (lit ''grant_type'') = Some (lit ''authorization_code'') then exchange_code E rnd parameters now S
          else if map_of parameters (lit ''grant_type'') = Some (lit ''refresh_token'') then refresh_grant E rnd parameters now S
          else (Http (error_response E 400 (lit ''unsupported_grant_type'')), S))"

section \<open>Routing\<close>

record oauth_call =
  ca_method :: ustring
  ca_path :: ustring
  ca_content_type :: ustring
  ca_origin :: ustring
  ca_host :: ustring
  ca_body :: ustring
  ca_local :: ustring
  ca_secure :: bool

definition DISCOVERY :: ustring where "DISCOVERY = lit ''/.well-known/oauth-authorization-server''"
definition REGISTER :: ustring where "REGISTER = lit ''/oauth/register''"
definition AUTHORIZE :: ustring where "AUTHORIZE = lit ''/mcp/oauth/authorize''"
definition CONFIRM :: ustring where "CONFIRM = lit ''/mcp/oauth/authorize/confirm''"
definition TOKEN :: ustring where "TOKEN = lit ''/mcp/oauth/token''"

definition oauth_handle ::
  "'f oauth_env \<Rightarrow> oauth_random \<Rightarrow> oauth_call \<Rightarrow> odt \<Rightarrow> oauth_state \<times> 'f \<Rightarrow> (oauth_response \<times> oauth_state \<times> 'f) option" where
  "oauth_handle E rnd call now S =
     (let (path, query) = (case split_once 63 (ca_path call) of Some pq \<Rightarrow> pq | None \<Rightarrow> (ca_path call, []));
          head_only = (ca_method call = lit ''HEAD'');
          verb = (if head_only \<and> (path = DISCOVERY \<or> path = AUTHORIZE) then lit ''GET'' else ca_method call);
          required = (if path = AUTHORIZE then lit ''GET'' else lit ''POST'')
      in if path = DISCOVERY then
           Some (if verb = lit ''GET'' \<or> verb = lit ''HEAD'' then Http (discovery_response E (ca_local call) (ca_secure call))
                 else Http (method_not_allowed (lit ''GET, HEAD'')), S)
         else if \<not> (path = REGISTER \<or> path = AUTHORIZE \<or> path = CONFIRM \<or> path = TOKEN) then None
         else if verb \<noteq> required then
           Some (Http (method_not_allowed (if required = lit ''GET'' then lit ''GET, HEAD'' else lit ''POST'')), S)
         else if \<not> allowed_origin_for_transport (ca_origin call) (ca_host call) (ca_secure call) then Some (Http origin_error, S)
         else if path = REGISTER then Some (oauth_register E rnd (ca_content_type call) (ca_body call) now S)
         else if path = AUTHORIZE then Some (authorize_request E rnd query now head_only S)
         else if path = CONFIRM then Some (confirm E rnd (ca_content_type call) (ca_body call) now S)
         else Some (oauth_token E rnd (ca_body call) now S))"

section \<open>What each handler may change\<close>

lemma handle_cases:
  assumes "oauth_handle E rnd call now S = Some out"
  obtains (register) ct body where "out = oauth_register E rnd ct body now S"
    | (authorize) query hd_only where "out = authorize_request E rnd query now hd_only S"
    | (confirm) ct body where "out = confirm E rnd ct body now S"
    | (token) body where "out = oauth_token E rnd body now S"
    | (reply) resp where "out = (Http resp, S)"
  using assms unfolding oauth_handle_def Let_def by (auto simp del: lit_simps split: if_splits prod.splits option.splits)

lemma register_state: "oauth_register E rnd ct body now S = (r, S') \<Longrightarrow> fst S' = fst S \<and> (\<exists>resp. r = Http resp)"
  unfolding oauth_register_def
  by (auto simp del: lit_simps split: sum.splits prod.splits store_error.splits)

lemma issue_code_cases:
  assumes "issue_code E rnd cid uri sv ch now st = (r, st')"
  obtains (refused) resp where "r = Http resp" "st' = st"
    | (panic) "r = Panics" "st' = st\<lparr>os_codes := None\<rparr>" "tl_checked_add (oe_time E) now AUTH_CODE_TTL = None"
    | (issued) random codes exp where "or_code rnd = Inr random" "os_codes st = Some codes"
        "tl_checked_add (oe_time E) now AUTH_CODE_TTL = Some exp"
        "r = Redirect (redirect_uri_with_code uri (encode_hex random) sv)"
        "st' = st\<lparr>os_codes := Some (AList.update (encode_hex random)
           \<lparr>pc_client_id = cid, pc_code_challenge = ch, pc_expires_at = exp\<rparr> codes)\<rparr>"
  using assms unfolding issue_code_def by (auto simp del: lit_simps split: sum.splits option.splits)

definition live_requests :: "'f oauth_env \<Rightarrow> odt \<Rightarrow> (ustring \<times> browser_request) list \<Rightarrow> (ustring \<times> browser_request) list" where
  "live_requests E now requests =
     filter (\<lambda>(_, r). tl_unix_nanos (oe_time E) now \<le> tl_unix_nanos (oe_time E) (br_expires_at r)) requests"

lemma start_browser_cases:
  assumes "start_browser_consent E rnd cid uri sv ch now st = (r, st')"
  obtains (unchanged) "st' = st" "\<forall>l. r \<noteq> Redirect l"
    | (full) requests resp where "os_browser_requests st = Some requests" "r = Http resp"
        "st' = st\<lparr>os_browser_requests := Some (live_requests E now requests)\<rparr>"
    | (started) requests random exp resp where "os_browser_requests st = Some requests" "r = Http resp"
        "length (live_requests E now requests) < MAX_BROWSER_CONSENTS"
        "st' = st\<lparr>os_browser_requests := Some (AList.update (encode_hex random)
           \<lparr>br_client_id = cid, br_redirect_uri = uri, br_state = sv, br_code_challenge = ch, br_expires_at = exp\<rparr>
           (live_requests E now requests))\<rparr>"
proof (cases "or_flow rnd")
  case (Inl e)
  then show ?thesis using assms unchanged by (auto simp: start_browser_consent_def simp del: lit_simps)
next
  case rnd: (Inr random)
  show ?thesis
  proof (cases "tl_checked_add (oe_time E) now AUTH_CODE_TTL")
    case None
    then show ?thesis using assms rnd unchanged by (auto simp: start_browser_consent_def simp del: lit_simps)
  next
    case exp: (Some exp)
    show ?thesis
    proof (cases "os_browser_requests st")
      case None
      then show ?thesis using assms rnd exp unchanged by (auto simp: start_browser_consent_def simp del: lit_simps)
    next
      case (Some requests)
      note result = assms [unfolded start_browser_consent_def rnd exp Some sum.case option.case Let_def, folded live_requests_def]
      show ?thesis
      proof (cases "MAX_BROWSER_CONSENTS \<le> length (live_requests E now requests)")
        case True
        with result have "r = Http (error_response E 503 (lit ''server_error''))"
          "st' = st\<lparr>os_browser_requests := Some (live_requests E now requests)\<rparr>"
          by (simp_all only: if_True prod.inject)
        with full [OF Some] show ?thesis by blast
      next
        case False
        from result obtain resp where "r = Http resp" "st' = st\<lparr>os_browser_requests := Some (AList.update (encode_hex random)
           \<lparr>br_client_id = cid, br_redirect_uri = uri, br_state = sv, br_code_challenge = ch, br_expires_at = exp\<rparr>
           (live_requests E now requests))\<rparr>"
          by (auto simp only: False if_False prod.inject)
        with started [OF Some] False not_le show ?thesis by blast
      qed
    qed
  qed
qed

text \<open>A client that is registered at this moment with an address that matches.\<close>

definition registered_for :: "'f oauth_env \<Rightarrow> 'f \<Rightarrow> odt \<Rightarrow> ustring \<Rightarrow> ustring \<Rightarrow> bool" where
  "registered_for E s now cid uri \<longleftrightarrow>
     (\<exists>client. get_oauth_client (oe_time E) (oe_codec E) (oe_fs E) cid now s = Inr (Some client) \<and>
        oc_client_id client = cid \<and> is_allowed_redirect_uri uri (oc_redirect_uris client))"

lemma authorize_cases:
  assumes "authorize_request E rnd query now hd_only S = (r, S')"
  obtains (reply) resp where "r = Http resp" "S' = S"
    | (browser) cid uri sv ch where "registered_for E (snd S) now cid uri" "valid_client_id cid" "oe_consent E cid uri = Browser"
        "start_browser_consent E rnd cid uri sv ch now (fst S) = (r, fst S')" "snd S' = snd S"
    | (approved) cid uri sv ch where "registered_for E (snd S) now cid uri" "valid_client_id cid" "oe_consent E cid uri = Approved"
        "issue_code E rnd cid uri sv ch now (fst S) = (r, fst S')" "snd S' = snd S"
proof (cases "\<exists>resp. r = Http resp \<and> S' = S")
  case False
  obtain ps client where ps: "parse_form query = Some ps" and
    c: "get_oauth_client (oe_time E) (oe_codec E) (oe_fs E) (param ps ''client_id'') now (snd S) = Inr (Some client)"
      "oc_client_id client = param ps ''client_id''" "valid_client_id (param ps ''client_id'')"
      "is_allowed_redirect_uri (param ps ''redirect_uri'') (oc_redirect_uris client)" and
    d: "(case oe_consent E (param ps ''client_id'') (param ps ''redirect_uri'') of
          Denied \<Rightarrow> False
        | Browser \<Rightarrow> (\<exists>st. start_browser_consent E rnd (param ps ''client_id'') (param ps ''redirect_uri'') (param ps ''state'')
            (param ps ''code_challenge'') now (fst S) = (r, st) \<and> S' = (st, snd S))
        | Approved \<Rightarrow> (\<exists>st. issue_code E rnd (param ps ''client_id'') (param ps ''redirect_uri'') (param ps ''state'')
            (param ps ''code_challenge'') now (fst S) = (r, st) \<and> S' = (st, snd S)))"
    using assms False unfolding authorize_request_def Let_def
    by (auto simp del: lit_simps split: option.splits if_splits sum.splits consent_decision.splits prod.splits)
  have "registered_for E (snd S) now (param ps ''client_id'') (param ps ''redirect_uri'')"
    using c by (auto simp: registered_for_def)
  then show ?thesis using browser approved c(3) d by (auto split: consent_decision.splits)
qed (use reply in blast)

lemma confirm_check_Inr:
  assumes "confirm_check E ct body now S = Inr c"
  shows "\<exists>requests. os_browser_requests (fst S) = Some requests \<and> map_of requests (cf_flow_id c) = Some (cf_request c)"
    "tl_unix_nanos (oe_time E) now \<le> tl_unix_nanos (oe_time E) (br_expires_at (cf_request c))"
    "registered_for E (snd S) now (br_client_id (cf_request c)) (br_redirect_uri (cf_request c))"
    "\<not> cf_denied c \<Longrightarrow> \<exists>passphrase. oe_verify_passphrase E passphrase"
proof -
  obtain ps req client where ps: "parse_form body = Some ps" and
    req: "Option.bind (os_browser_requests (fst S)) (\<lambda>requests. map_of requests (param ps ''flow_id'')) = Some req"
      "tl_unix_nanos (oe_time E) now \<le> tl_unix_nanos (oe_time E) (br_expires_at req)" and
    client: "get_oauth_client (oe_time E) (oe_codec E) (oe_fs E) (br_client_id req) now (snd S) = Inr (Some client)"
      "oc_client_id client = br_client_id req" "is_allowed_redirect_uri (br_redirect_uri req) (oc_redirect_uris client)" and
    pass: "(map_of ps (lit ''decision'') = Some (lit ''deny'')) \<or> oe_verify_passphrase E (param ps ''passphrase'')" and
    c: "c = \<lparr>cf_flow_id = param ps ''flow_id'', cf_request = req, cf_denied = (map_of ps (lit ''decision'') = Some (lit ''deny''))\<rparr>"
    using assms unfolding confirm_check_def Let_def
    by (auto simp del: lit_simps bind_eq_Some_conv split: option.splits if_splits sum.splits)
  show "\<exists>requests. os_browser_requests (fst S) = Some requests \<and> map_of requests (cf_flow_id c) = Some (cf_request c)"
    using req(1) c by (auto simp: bind_eq_Some_conv)
  show "tl_unix_nanos (oe_time E) now \<le> tl_unix_nanos (oe_time E) (br_expires_at (cf_request c))" using req(2) c by simp
  show "registered_for E (snd S) now (br_client_id (cf_request c)) (br_redirect_uri (cf_request c))"
    using client c by (auto simp: registered_for_def)
  show "\<not> cf_denied c \<Longrightarrow> \<exists>passphrase. oe_verify_passphrase E passphrase" using pass c by auto
qed

lemma confirm_finish_cases:
  assumes "confirm_finish E rnd now c st = (r, st')"
  obtains (refused) resp where "r = Http resp" "st' = st"
    | (denied) requests l where "os_browser_requests st = Some requests" "map_of requests (cf_flow_id c) \<noteq> None" "cf_denied c"
        "r = Redirect l" "l = redirect_uri_with_error (br_redirect_uri (cf_request c)) (lit ''access_denied'') (br_state (cf_request c))"
        "st' = st\<lparr>os_browser_requests := Some (AList.delete (cf_flow_id c) requests)\<rparr>"
    | (approved) requests where "os_browser_requests st = Some requests" "map_of requests (cf_flow_id c) \<noteq> None" "\<not> cf_denied c"
        "issue_code E rnd (br_client_id (cf_request c)) (br_redirect_uri (cf_request c)) (br_state (cf_request c))
           (br_code_challenge (cf_request c)) now (st\<lparr>os_browser_requests := Some (AList.delete (cf_flow_id c) requests)\<rparr>) = (r, st')"
  using assms unfolding confirm_finish_def Let_def
  by (auto simp del: lit_simps split: option.splits if_splits)

lemma exchange_cases:
  assumes "exchange_code E rnd ps now S = (r, S')"
  obtains (refused) resp where "r = Http resp" "S' = S" "hr_status resp \<noteq> 200"
      "\<forall>code codes. map_of ps (lit ''code'') = Some code \<longrightarrow> os_codes (fst S) = Some codes \<longrightarrow> map_of codes code = None"
    | (taken) code codes pending where "map_of ps (lit ''code'') = Some code" "os_codes (fst S) = Some codes"
        "map_of codes code = Some pending" "fst S' = (fst S)\<lparr>os_codes := Some (AList.delete code codes)\<rparr>" "\<exists>resp. r = Http resp"
        "(\<exists>resp. r = Http resp \<and> hr_status resp = 200) \<or> snd S' \<noteq> snd S \<longrightarrow> code_accepted E ps pending now"
    | (panic) code codes pending where "map_of ps (lit ''code'') = Some code" "os_codes (fst S) = Some codes"
        "map_of codes code = Some pending" "byte_prefix 8 (pc_client_id pending) = None" "r = Panics"
        "fst S' = (fst S)\<lparr>os_codes := None\<rparr>" "snd S' = snd S"
  using assms unfolding exchange_code_def Let_def
  by (auto simp: error_response_def json_response_def simp del: lit_simps
      split: option.splits if_splits sum.splits prod.splits)

section \<open>Codes are issued with consent and used once\<close>

lemma issued_code:
  assumes "issue_code E rnd cid uri sv ch now st = (r, st')" "os_codes st = Some codes" "os_codes st' = Some codes'"
    and "map_of codes' c = Some p" "map_of codes c \<noteq> Some p"
  shows "pc_client_id p = cid \<and> pc_code_challenge p = ch \<and> r = Redirect (redirect_uri_with_code uri c sv) \<and>
    os_browser_requests st' = os_browser_requests st"
  using assms(1)
proof (cases rule: issue_code_cases)
  case (issued random codes0 exp)
  then show ?thesis using assms(2-5) by (auto simp: AList.update_conv' split: if_splits)
qed (use assms in auto)

lemma exchange_shrinks:
  assumes "exchange_code E rnd ps now S = (r, S')" "os_codes (fst S') = Some codes'" "map_of codes' c = Some p"
  shows "\<exists>codes. os_codes (fst S) = Some codes \<and> map_of codes c = Some p"
  using assms(1)
proof (cases rule: exchange_cases)
  case (taken code codes pending)
  then show ?thesis using assms(2,3) by (auto simp: AList.delete_conv' split: if_splits)
qed (use assms in auto)

lemma refresh_state: "refresh_grant E rnd ps now S = (r, S') \<Longrightarrow> fst S' = fst S"
  unfolding refresh_grant_def by (auto simp del: lit_simps split: if_splits option.splits prod.splits sum.splits store_error.splits)

lemma token_shrinks:
  assumes "oauth_token E rnd body now S = (r, S')" "os_codes (fst S') = Some codes'" "map_of codes' c = Some p"
  shows "\<exists>codes. os_codes (fst S) = Some codes \<and> map_of codes c = Some p"
proof -
  consider "S' = S" | ps where "exchange_code E rnd ps now S = (r, S')" | ps where "refresh_grant E rnd ps now S = (r, S')"
    using assms(1) unfolding oauth_token_def by (auto simp del: lit_simps split: option.splits if_splits)
  then show ?thesis
  proof cases
    case (2 ps)
    from exchange_shrinks [OF this assms(2,3)] show ?thesis .
  next
    case (3 ps)
    from refresh_state [OF this] assms(2,3) show ?thesis by simp
  qed (use assms(2,3) in simp)
qed



section \<open>Interleaved requests\<close>

text \<open>
  The server handles requests in parallel. A machine state holds the confirmations that have passed
  their checks and not yet acted; between the two halves of a confirmation any other requests may run,
  with whatever answers of the user, clocks and random bytes.
\<close>

type_synonym 'f oauth_machine = "(oauth_state \<times> 'f) \<times> confirmation list"

inductive oauth_step :: "'f oauth_machine \<Rightarrow> 'f oauth_machine \<Rightarrow> bool" where
  request: "oauth_handle E rnd call now S = Some (r, S') \<Longrightarrow> oauth_step (S, cs) (S', cs)"
| check: "confirm_check E ct body now S = Inr c \<Longrightarrow> oauth_step (S, cs) (S, c # cs)"
| act: "c \<in> set cs \<Longrightarrow> confirm_finish (E :: 'f oauth_env) rnd now c (fst S) = (r, st) \<Longrightarrow> oauth_step (S, cs) ((st, snd S), remove1 c cs)"

definition codes_ok :: "(ustring \<times> pending_code) list \<Rightarrow> bool" where
  "codes_ok codes \<longleftrightarrow> list_all (\<lambda>(_, p). valid_client_id (pc_client_id p)) codes"

definition requests_ok :: "(ustring \<times> browser_request) list \<Rightarrow> bool" where
  "requests_ok requests \<longleftrightarrow> distinct (map fst requests) \<and> length requests \<le> MAX_BROWSER_CONSENTS \<and>
     list_all (\<lambda>(_, r). valid_client_id (br_client_id r)) requests"

definition oauth_state_ok :: "oauth_state \<Rightarrow> bool" where
  "oauth_state_ok st \<longleftrightarrow> (\<forall>codes. os_codes st = Some codes \<longrightarrow> codes_ok codes) \<and>
     (\<forall>requests. os_browser_requests st = Some requests \<longrightarrow> requests_ok requests)"

definition oauth_inv :: "'f oauth_machine \<Rightarrow> bool" where
  "oauth_inv M \<longleftrightarrow> oauth_state_ok (fst (fst M)) \<and> list_all (\<lambda>c. valid_client_id (br_client_id (cf_request c))) (snd M)"

lemma alist_update_length: "length (AList.update k v xs) \<le> Suc (length xs)"
  by (induction xs) auto

lemma alist_update_all: "list_all P xs \<Longrightarrow> P (k, v) \<Longrightarrow> list_all P (AList.update k v xs)"
  by (induction xs) auto

lemma alist_delete_all: "list_all P xs \<Longrightarrow> list_all P (AList.delete k xs)"
  by (auto simp: AList.delete_eq list_all_iff)

lemma requests_ok_filter: "requests_ok requests \<Longrightarrow> requests_ok (filter P requests)"
  unfolding requests_ok_def by (auto simp: list_all_iff distinct_map_filter intro: order.trans [OF length_filter_le])

lemma requests_ok_delete: "requests_ok requests \<Longrightarrow> requests_ok (AList.delete k requests)"
  using requests_ok_filter by (simp add: AList.delete_eq)

lemma requests_ok_update:
  "requests_ok requests \<Longrightarrow> length requests < MAX_BROWSER_CONSENTS \<Longrightarrow> valid_client_id (br_client_id r) \<Longrightarrow>
   requests_ok (AList.update k r requests)"
  unfolding requests_ok_def using alist_update_length [of k r requests]
  by (auto intro!: AList.distinct_update alist_update_all)

lemma issue_code_ok:
  assumes "issue_code E rnd cid uri sv ch now st = (r, st')" "oauth_state_ok st" "valid_client_id cid"
  shows "oauth_state_ok st'"
  using assms(1)
proof (cases rule: issue_code_cases)
  case (issued random codes exp)
  then show ?thesis using assms(2,3) by (auto simp: oauth_state_ok_def codes_ok_def intro!: alist_update_all)
qed (use assms(2) in \<open>auto simp: oauth_state_ok_def\<close>)

lemma start_browser_ok:
  assumes "start_browser_consent E rnd cid uri sv ch now st = (r, st')" "oauth_state_ok st" "valid_client_id cid"
  shows "oauth_state_ok st'"
  using assms(1)
proof (cases rule: start_browser_cases)
  case (full requests resp)
  then show ?thesis using assms(2) requests_ok_filter by (auto simp: oauth_state_ok_def live_requests_def)
next
  case (started requests random exp resp)
  then show ?thesis using assms(2,3) requests_ok_filter requests_ok_update by (auto simp: oauth_state_ok_def live_requests_def)
qed (use assms(2) in auto)

lemma confirm_finish_ok:
  assumes "confirm_finish E rnd now c st = (r, st')" "oauth_state_ok st" "valid_client_id (br_client_id (cf_request c))"
  shows "oauth_state_ok st'"
  using assms(1)
proof (cases rule: confirm_finish_cases)
  case (denied requests l)
  then show ?thesis using assms(2) requests_ok_delete by (auto simp: oauth_state_ok_def)
next
  case (approved requests)
  have "oauth_state_ok (st\<lparr>os_browser_requests := Some (AList.delete (cf_flow_id c) requests)\<rparr>)"
    using assms(2) approved(1) requests_ok_delete by (auto simp: oauth_state_ok_def)
  from issue_code_ok [OF approved(4) this assms(3)] show ?thesis .
qed (use assms(2) in auto)

lemma confirm_check_ok:
  assumes "confirm_check E ct body now S = Inr c" "oauth_state_ok (fst S)"
  shows "valid_client_id (br_client_id (cf_request c))"
proof -
  obtain requests where "os_browser_requests (fst S) = Some requests" "map_of requests (cf_flow_id c) = Some (cf_request c)"
    using confirm_check_Inr(1) [OF assms(1)] by blast
  then show ?thesis using assms(2) map_of_SomeD by (fastforce simp: oauth_state_ok_def requests_ok_def list_all_iff)
qed

lemma token_ok:
  assumes "oauth_token E rnd body now S = (r, S')" "oauth_state_ok (fst S)"
  shows "oauth_state_ok (fst S')"
proof -
  consider "S' = S" | ps where "exchange_code E rnd ps now S = (r, S')" | ps where "refresh_grant E rnd ps now S = (r, S')"
    using assms(1) unfolding oauth_token_def by (auto simp del: lit_simps split: option.splits if_splits)
  then show ?thesis
  proof cases
    case (2 ps)
    then show ?thesis
    proof (cases rule: exchange_cases)
      case (taken code codes pending)
      then show ?thesis using assms(2) by (simp add: oauth_state_ok_def codes_ok_def alist_delete_all)
    qed (use assms(2) in \<open>auto simp: oauth_state_ok_def\<close>)
  next
    case (3 ps)
    from refresh_state [OF this] assms(2) show ?thesis by simp
  qed (use assms(2) in simp)
qed

lemma handle_ok:
  assumes "oauth_handle E rnd call now S = Some (r, S')" "oauth_state_ok (fst S)"
  shows "oauth_state_ok (fst S')"
  using assms(1)
proof (cases rule: handle_cases)
  case (register ct body)
  from register_state [OF register [symmetric]] assms(2) show ?thesis by simp
next
  case (authorize query hd_only)
  from authorize [symmetric] show ?thesis
    using assms(2) by (cases rule: authorize_cases) (auto dest: start_browser_ok issue_code_ok)
next
  case (confirm ct body)
  show ?thesis
  proof (cases "confirm_check E ct body now S")
    case (Inl response)
    then show ?thesis using confirm assms(2) by (simp add: confirm_def)
  next
    case (Inr c)
    obtain st where "confirm_finish E rnd now c (fst S) = (r, st)" "fst S' = st"
      using confirm Inr by (auto simp: confirm_def split: prod.splits)
    then show ?thesis using confirm_finish_ok [OF _ assms(2) confirm_check_ok [OF Inr assms(2)]] by simp
  qed
next
  case (token body)
  from token_ok [OF token [symmetric] assms(2)] show ?thesis .
qed (use assms(2) in simp)

lemma oauth_step_inv: "oauth_inv M \<Longrightarrow> oauth_step M M' \<Longrightarrow> oauth_inv M'"
  by (erule oauth_step.cases)
    (auto simp: oauth_inv_def list_all_iff dest: handle_ok confirm_check_ok confirm_finish_ok notin_set_remove1)

definition oauth_start :: "'f oauth_machine \<Rightarrow> bool" where
  "oauth_start M \<longleftrightarrow> (\<exists>agent s. M = ((oauth_new agent, s), []))"

lemma oauth_start_inv: "oauth_start M \<Longrightarrow> oauth_inv M"
  by (auto simp: oauth_start_def oauth_inv_def oauth_new_def oauth_state_ok_def codes_ok_def requests_ok_def)

interpretation oauth: guarded_machine oauth_start oauth_step oauth_inv
  by unfold_locales (fact oauth_start_inv, rule oauth_step_inv)

lemma byte_prefix_ascii: "\<forall>c \<in> set s. c < 128 \<Longrightarrow> n \<le> length s \<Longrightarrow> byte_prefix n s = Some (take n s)"
proof (induction s arbitrary: n)
  case (Cons c s)
  then show ?case by (cases n) (auto simp: byte_prefix.simps utf8_width_def)
qed (simp add: byte_prefix.simps)

lemma valid_client_id_prefix:
  assumes "valid_client_id cid"
  shows "byte_prefix 8 cid = Some (take 8 cid)"
proof -
  have "\<forall>b \<in> set (as_bytes cid). b < 128" using assms hex_value_ascii by (auto simp: valid_client_id_def list_all_iff)
  then have "as_bytes cid = cid" by (rule as_bytes_small)
  then have "\<forall>c \<in> set cid. c < 128" "length cid = 32"
    using \<open>\<forall>b \<in> set (as_bytes cid). b < 128\<close> assms length_as_bytes [of cid] by (auto simp: valid_client_id_def)
  then show ?thesis by (intro byte_prefix_ascii) simp_all
qed

text \<open>
  C23. However requests interleave, at most 256 browser flows are open, and an exchange of a code never
  panics: every pending code belongs to a client identifier of 32 hexadecimal digits, so the slice that
  labels the token is in range and the mutex of the codes is not poisoned by it.
\<close>

theorem oauth_machine_safe:
  assumes "oauth_start M" "oauth_step\<^sup>*\<^sup>* M ((st, s), cs)"
  shows "(\<forall>requests. os_browser_requests st = Some requests \<longrightarrow> length requests \<le> 256) \<and>
    fst (exchange_code E rnd ps now (st, s)) \<noteq> Panics"
proof -
  have inv: "oauth_inv ((st, s), cs)" using oauth.inv_run [OF assms] .
  obtain r S' where ex: "exchange_code E rnd ps now (st, s) = (r, S')" by (meson surj_pair)
  then have "r \<noteq> Panics"
  proof (cases rule: exchange_cases)
    case (panic code codes pending)
    have "valid_client_id (pc_client_id pending)"
      using inv panic(2,3) map_of_SomeD by (fastforce simp: oauth_inv_def oauth_state_ok_def codes_ok_def list_all_iff)
    with valid_client_id_prefix panic(4) show ?thesis by simp
  qed auto
  with ex inv show ?thesis by (simp add: oauth_inv_def oauth_state_ok_def requests_ok_def MAX_BROWSER_CONSENTS_def)
qed

text \<open>
  A browser flow is confirmed at most once: when two confirmations of the same flow have both passed
  their checks, the first to act takes the flow, and the second, acting at any later time before a flow
  of that identifier is started again, answers an error and changes nothing.
\<close>

theorem flow_confirmed_once:
  assumes "confirm_finish E rnd now c st = (r, st')" "\<exists>l. r = Redirect l" "cf_flow_id c' = cf_flow_id c"
    and "os_browser_requests st'' = os_browser_requests st'"
  shows "\<exists>resp. confirm_finish E' rnd' now' c' st'' = (Http resp, st'') \<and> hr_status resp = 400"
proof -
  have "\<exists>requests. os_browser_requests st' = Some (AList.delete (cf_flow_id c) requests)"
    using assms(1)
  proof (cases rule: confirm_finish_cases)
    case (approved requests)
    from approved(4) show ?thesis by (cases rule: issue_code_cases) auto
  qed (use assms(2) in auto)
  then obtain requests where "os_browser_requests st' = Some (AList.delete (cf_flow_id c) requests)" by blast
  then show ?thesis using assms(3,4)
    by (simp add: confirm_finish_def AList.delete_conv' error_response_def json_response_def del: lit_simps)
qed

section \<open>An environment\<close>

text \<open>A registered client, a digest that is the identity and an encoder that keeps its bytes.\<close>

definition demo_client :: ustring where
  "demo_client = replicate 32 97"

definition demo_verifier :: ustring where
  "demo_verifier = replicate 43 98"

definition demo_oauth_codec :: registry_codec where
  "demo_oauth_codec = demo_codec\<lparr>rc_oauth_decode := (\<lambda>b. Inr \<lparr>of_version = 1, of_clients =
     [(demo_client, Some \<lparr>oc_client_id = demo_client, oc_redirect_uris = [lit ''http://localhost/cb''], oc_created_at = [],
        oc_ttl_seconds = None, oc_expires_at = None\<rparr>)]\<rparr>)\<rparr>"

definition demo_oauth_env :: "consent_decision \<Rightarrow> (ustring \<Rightarrow> open_result) oauth_env" where
  "demo_oauth_env d =
     \<lparr>oe_time = utc_calendar, oe_codec = demo_oauth_codec, oe_fs = demo_fs, oe_consent = (\<lambda>_ _. d),
      oe_verify_passphrase = (\<lambda>p. p = lit ''pw''), oe_registry_hash = Some [], oe_sha256 = (\<lambda>b. b), oe_base64url = (\<lambda>b. b),
      oe_parse_rfc3339 = (\<lambda>_. None), oe_registration = (\<lambda>_. None), oe_json = (\<lambda>_. [])\<rparr>"

definition demo_oauth_random :: oauth_random where
  "demo_oauth_random = \<lparr>or_code = Inr [1], or_flow = Inr [2], or_client = Inr [3], or_token = demo_random\<rparr>"

definition demo_files :: "ustring \<Rightarrow> open_result" where
  "demo_files f = (if f = OAUTH_CLIENTS_FILE then Loaded [] else Absent)"

definition demo_fields :: "(ustring \<times> ustring) list" where
  "demo_fields = [(lit ''response_type'', lit ''code''), (lit ''code_challenge_method'', lit ''S256''),
     (lit ''redirect_uri'', lit ''http://localhost/cb''), (lit ''client_id'', demo_client), (lit ''code_challenge'', demo_verifier)]"

definition demo_call :: oauth_call where
  "demo_call = \<lparr>ca_method = lit ''GET'', ca_path = AUTHORIZE @ 63 # print_form demo_fields, ca_content_type = [], ca_origin = [],
     ca_host = lit ''localhost'', ca_body = [], ca_local = [], ca_secure = False\<rparr>"

definition demo_pending :: pending_code where
  "demo_pending = \<lparr>pc_client_id = demo_client, pc_code_challenge = demo_verifier,
     pc_expires_at = utc_of_nanos 1709210396500000000\<rparr>"

definition demo_issued :: oauth_state where
  "demo_issued = (oauth_new (lit ''bot''))\<lparr>os_codes := Some [(lit ''01'', demo_pending)]\<rparr>"

lemma demo_form: "parse_form (print_form demo_fields) = Some demo_fields"
  by (rule parse_print_form) (simp add: fields_ok_def demo_fields_def demo_client_def demo_verifier_def is_scalar_def list_all_iff)

lemma demo_params:
  "param demo_fields ''client_id'' = demo_client" "param demo_fields ''redirect_uri'' = lit ''http://localhost/cb''"
  "param demo_fields ''code_challenge'' = demo_verifier" "param demo_fields ''state'' = []" "param demo_fields ''scope'' = []"
  "map_of demo_fields (lit ''response_type'') = Some (lit ''code'')"
  "map_of demo_fields (lit ''code_challenge_method'') = Some (lit ''S256'')"
  by (simp_all add: param_def demo_fields_def)

lemma demo_client_ok: "valid_client_id demo_client" "demo_client \<noteq> []" "demo_verifier \<noteq> []"
proof -
  have "\<forall>c \<in> set demo_client. c < 128" by (simp add: demo_client_def)
  from as_bytes_ascii [OF this] show "valid_client_id demo_client"
    using length_as_bytes [of demo_client]
    by (simp add: valid_client_id_def list_all_iff demo_client_def hex_value_def)
qed (simp_all add: demo_client_def demo_verifier_def)

lemma demo_lookup:
  "get_oauth_client utc_calendar demo_oauth_codec demo_fs demo_client now demo_files =
     Inr (Some \<lparr>oc_client_id = demo_client, oc_redirect_uris = [lit ''http://localhost/cb''], oc_created_at = [],
        oc_ttl_seconds = None, oc_expires_at = None\<rparr>)"
  by (simp add: get_oauth_client_def read_oauth_clients_def demo_fs_def demo_files_def demo_oauth_codec_def del: lit_simps)

lemma demo_issue:
  "issue_code (demo_oauth_env d) demo_oauth_random demo_client (lit ''http://localhost/cb'') [] demo_verifier demo_now (oauth_new (lit ''bot'')) =
     (Redirect (lit ''http://localhost/cb?code=01''), demo_issued)"
proof -
  have "tl_checked_add utc_calendar demo_now AUTH_CODE_TTL = Some (utc_of_nanos 1709210396500000000)"
    by (simp add: utc_calendar_def stamp_range_def AUTH_CODE_TTL_def)
  moreover have "redirect_uri_with_code (lit ''http://localhost/cb'') (encode_hex [1]) [] = lit ''http://localhost/cb?code=01''"
    "encode_hex [1] = lit ''01''"
    by code_simp+
  ultimately show ?thesis
    by (simp add: issue_code_def demo_oauth_env_def demo_oauth_random_def demo_issued_def demo_pending_def oauth_new_def
        del: lit_simps encode_hex_simps)
qed

lemma demo_authorize:
  "oauth_handle (demo_oauth_env Approved) demo_oauth_random demo_call demo_now (oauth_new (lit ''bot''), demo_files) =
     Some (Redirect (lit ''http://localhost/cb?code=01''), demo_issued, demo_files)"
proof -
  have origin: "allowed_origin_for_transport [] (lit ''localhost'') False" by code_simp
  have path: "split_once 63 (AUTHORIZE @ 63 # print_form demo_fields) = Some (AUTHORIZE, print_form demo_fields)"
    by (rule split_once_append) (simp add: AUTHORIZE_def)
  have route: "AUTHORIZE \<noteq> DISCOVERY" "AUTHORIZE \<noteq> REGISTER" "lit ''GET'' \<noteq> lit ''HEAD''"
    by (simp_all add: AUTHORIZE_def DISCOVERY_def REGISTER_def)
  have nonempty: "lit ''http://localhost/cb'' \<noteq> []" by simp
  have allowed: "is_allowed_redirect_uri (lit ''http://localhost/cb'') [lit ''http://localhost/cb'']"
    by (simp add: is_allowed_redirect_uri_def del: lit_simps)
  have "authorize_request (demo_oauth_env Approved) demo_oauth_random (print_form demo_fields) demo_now False (oauth_new (lit ''bot''), demo_files) =
      (Redirect (lit ''http://localhost/cb?code=01''), demo_issued, demo_files)"
    using demo_issue [of Approved] demo_lookup allowed demo_client_ok nonempty
    by (simp add: authorize_request_def demo_form demo_params Let_def demo_oauth_env_def del: lit_simps)
  then show ?thesis
    by (simp add: oauth_handle_def demo_call_def path Let_def route origin del: lit_simps)
qed


theorem oauth_machine_safe_witness:
  "fst (exchange_code (demo_oauth_env Approved) demo_oauth_random [] demo_now (demo_issued, demo_files)) \<noteq> Panics"
proof -
  have "oauth_start ((oauth_new (lit ''bot''), demo_files), [])" by (auto simp: oauth_start_def)
  moreover have "oauth_step\<^sup>*\<^sup>* ((oauth_new (lit ''bot''), demo_files), []) ((demo_issued, demo_files), [])"
    by (rule r_into_rtranclp) (rule oauth_step.request [OF demo_authorize])
  ultimately show ?thesis by (rule oauth_machine_safe [THEN conjunct2])
qed

definition demo_exchange :: "(ustring \<times> ustring) list" where
  "demo_exchange = [(lit ''code'', lit ''01''), (lit ''code_verifier'', demo_verifier)]"

lemma demo_verified: "verify_s256_code_verifier (\<lambda>b. b) (\<lambda>b. b) demo_verifier demo_verifier"
proof -
  have "as_bytes demo_verifier = demo_verifier" by (rule as_bytes_ascii) (simp add: demo_verifier_def)
  moreover have "byte_difference demo_verifier demo_verifier = 0" by (rule byte_difference_zero [THEN iffD2]) (simp_all add: demo_verifier_def)
  moreover have "list_all verifier_byte demo_verifier" by (simp add: demo_verifier_def verifier_byte_def list_all_iff)
  ultimately show ?thesis using length_as_bytes [of demo_verifier] demo_client_ok(3)
    by (simp add: verify_s256_code_verifier_def) (simp add: demo_verifier_def)
qed


theorem flow_confirmed_once_witness:
  "\<exists>resp. confirm_finish (demo_oauth_env Browser) demo_oauth_random demo_now
     \<lparr>cf_flow_id = [50], cf_request = \<lparr>br_client_id = demo_client, br_redirect_uri = [], br_state = [], br_code_challenge = [],
        br_expires_at = demo_now\<rparr>, cf_denied = True\<rparr> (oauth_new []) = (Http resp, oauth_new []) \<and> hr_status resp = 400"
proof -
  let ?c = "\<lparr>cf_flow_id = [50], cf_request = \<lparr>br_client_id = demo_client, br_redirect_uri = [], br_state = [], br_code_challenge = [],
        br_expires_at = demo_now\<rparr>, cf_denied = True\<rparr>"
  let ?st = "(oauth_new [])\<lparr>os_browser_requests := Some [([50], cf_request ?c)]\<rparr>"
  have "confirm_finish (demo_oauth_env Browser) demo_oauth_random demo_now ?c ?st =
      (Redirect (redirect_uri_with_error [] (lit ''access_denied'') []), oauth_new [])"
    by (simp add: confirm_finish_def oauth_new_def del: lit_simps)
  from flow_confirmed_once [OF this] show ?thesis by blast
qed

end
