(* ===== verification/Huffman_Table.thy ===== *)
theory Huffman_Table
  imports Prelude
begin

unbundle bit_operations_syntax

text \<open>
  The Huffman tables of \<^verbatim>\<open>symvault-sync/src/goflate.rs\<close>: their construction from a list of code lengths and
  the lookup of a cell. The lemmas compare the two-level tables with the canonical code of RFC 1951, and
  show that neither the construction nor a lookup indexes out of range.
\<close>

section \<open>Construction and lookup\<close>

definition MAX_CODE_LEN :: nat where "MAX_CODE_LEN = 16"
definition HUFFMAN_CHUNK_BITS :: nat where "HUFFMAN_CHUNK_BITS = 9"
definition HUFFMAN_NUM_CHUNKS :: nat where "HUFFMAN_NUM_CHUNKS = 512"

text \<open>A cell holds a value above four bits of code length.\<close>

definition cell :: "nat \<Rightarrow> nat \<Rightarrow> nat" where
  "cell v n = push_bit 4 v OR n"

definition cell_count :: "nat \<Rightarrow> nat" where "cell_count c = c AND 15"
definition cell_value :: "nat \<Rightarrow> nat" where "cell_value c = drop_bit 4 c"

record huffman =
  hu_min :: nat
  hu_chunks :: "nat list"
  hu_links :: "nat list list"
  hu_link_mask :: nat

definition huffman_empty :: huffman where
  "huffman_empty = \<lparr>hu_min = 0, hu_chunks = replicate HUFFMAN_NUM_CHUNKS 0, hu_links = [], hu_link_mask = 0\<rparr>"

fun reverse_bits :: "nat \<Rightarrow> nat \<Rightarrow> nat" where
  "reverse_bits 0 v = 0"
| "reverse_bits (Suc w) v = v mod 2 * 2 ^ w + reverse_bits w (v div 2)"

text \<open>The number of codes of each length; a length that is no index of the counters panics.\<close>

fun count_lengths :: "nat list \<Rightarrow> nat list \<Rightarrow> nat list option" where
  "count_lengths [] count = Some count"
| "count_lengths (n # ns) count =
     (if n = 0 then count_lengths ns count
      else if n < MAX_CODE_LEN then count_lengths ns (count[n := count ! n + 1])
      else None)"

text \<open>The first code of each length from \<open>i\<close> on, and the number of codes in the end.\<close>

fun next_codes :: "nat \<Rightarrow> nat \<Rightarrow> nat list \<Rightarrow> nat \<Rightarrow> nat list \<Rightarrow> nat \<times> nat list" where
  "next_codes 0 i count code nextcode = (code, nextcode)"
| "next_codes (Suc k) i count code nextcode =
     next_codes k (i + 1) count (2 * code + count ! i) (nextcode[i := 2 * code])"

text \<open>Every step-th cell from an offset on.\<close>

function fill_cells :: "nat \<Rightarrow> nat \<Rightarrow> nat \<Rightarrow> nat list \<Rightarrow> nat list" where
  "fill_cells off step v cells =
     (if off < length cells \<and> 0 < step then fill_cells (off + step) step v (cells[off := v]) else cells)"
  by pat_completeness auto
termination
  by (relation "measure (\<lambda>(off, step, v, cells). length cells - off)") auto

declare fill_cells.simps [simp del]

definition link_cells :: "nat \<Rightarrow> nat list \<Rightarrow> nat list" where
  "link_cells link chunks =
     fold (\<lambda>j cs. cs[reverse_bits 9 j := cell (j - link) (HUFFMAN_CHUNK_BITS + 1)]) [link ..< HUFFMAN_NUM_CHUNKS] chunks"

definition insert_code :: "nat \<Rightarrow> nat \<Rightarrow> nat \<Rightarrow> huffman \<Rightarrow> huffman option" where
  "insert_code i n code h =
     (let chunk = cell i n; reverse = reverse_bits n code
      in if n \<le> HUFFMAN_CHUNK_BITS
         then Some (h\<lparr>hu_chunks := fill_cells reverse (2 ^ n) chunk (hu_chunks h)\<rparr>)
         else (let v = cell_value (hu_chunks h ! (reverse AND (HUFFMAN_NUM_CHUNKS - 1)))
               in if v < length (hu_links h)
                  then Some (h\<lparr>hu_links := (hu_links h)[v :=
                         fill_cells (drop_bit HUFFMAN_CHUNK_BITS reverse) (2 ^ (n - HUFFMAN_CHUNK_BITS)) chunk (hu_links h ! v)]\<rparr>)
                  else None))"

fun insert_codes :: "nat \<Rightarrow> nat list \<Rightarrow> nat list \<Rightarrow> huffman \<Rightarrow> huffman option" where
  "insert_codes i [] nextcode h = Some h"
| "insert_codes i (n # ns) nextcode h =
     (if n = 0 then insert_codes (i + 1) ns nextcode h
      else (case insert_code i n (nextcode ! n) h of
              None \<Rightarrow> None
            | Some h' \<Rightarrow> insert_codes (i + 1) ns (nextcode[n := nextcode ! n + 1]) h'))"

definition min_length :: "nat list \<Rightarrow> nat" where
  "min_length lengths = (case filter (\<lambda>n. n \<noteq> 0) lengths of [] \<Rightarrow> 0 | n # ns \<Rightarrow> fold min ns n)"

definition max_length :: "nat list \<Rightarrow> nat" where
  "max_length lengths = fold max lengths 0"

datatype init_result = InitPanic | InitBad | InitOk huffman

definition huffman_init :: "nat list \<Rightarrow> init_result" where
  "huffman_init lengths =
     (case count_lengths lengths (replicate MAX_CODE_LEN 0) of
        None \<Rightarrow> InitPanic
      | Some count \<Rightarrow>
          (let mn = min_length lengths; mx = max_length lengths
           in if mx = 0 then InitOk huffman_empty
              else (let (code, nextcode) = next_codes (mx + 1 - mn) mn count 0 (replicate MAX_CODE_LEN 0)
                    in if code \<noteq> 2 ^ mx \<and> \<not> (code = 1 \<and> mx = 1) then InitBad
                       else (let h0 = huffman_empty\<lparr>hu_min := mn\<rparr>;
                                 link = nextcode ! (HUFFMAN_CHUNK_BITS + 1) div 2;
                                 num_links = 2 ^ (mx - HUFFMAN_CHUNK_BITS)
                             in if HUFFMAN_CHUNK_BITS < mx \<and> HUFFMAN_NUM_CHUNKS < link then InitPanic
                                else (let h1 = (if HUFFMAN_CHUNK_BITS < mx
                                                then h0\<lparr>hu_link_mask := num_links - 1, hu_chunks := link_cells link (hu_chunks h0),
                                                        hu_links := replicate (HUFFMAN_NUM_CHUNKS - link) (replicate num_links 0)\<rparr>
                                                else h0)
                                      in case insert_codes 0 lengths nextcode h1 of
                                           None \<Rightarrow> InitPanic
                                         | Some h \<Rightarrow> InitOk h)))))"

definition fixed_lengths :: "nat list" where
  "fixed_lengths = replicate 144 8 @ replicate 112 9 @ replicate 24 7 @ replicate 8 8"

definition fixed_decoder :: huffman where
  "fixed_decoder = (case huffman_init fixed_lengths of InitOk h \<Rightarrow> h | _ \<Rightarrow> huffman_empty)"

text \<open>A cell that counts more than nine bits points to a second table, which the next bits index.\<close>

definition huff_lookup :: "huffman \<Rightarrow> nat \<Rightarrow> nat option" where
  "huff_lookup h b =
     (let i = b AND (HUFFMAN_NUM_CHUNKS - 1)
      in if length (hu_chunks h) \<le> i then None
         else (let chunk = hu_chunks h ! i
               in if HUFFMAN_CHUNK_BITS < cell_count chunk
                  then (let v = cell_value chunk; j = drop_bit HUFFMAN_CHUNK_BITS b AND hu_link_mask h
                        in if v < length (hu_links h) \<and> j < length (hu_links h ! v)
                           then Some (hu_links h ! v ! j) else None)
                  else Some chunk))"

section \<open>Reversed bits\<close>

lemma and_low_mod: "(x :: nat) AND (2 ^ n - 1) = x mod 2 ^ n"
  by (metis mask_eq_exp_minus_1 take_bit_eq_mask take_bit_eq_mod)

lemma reverse_bits_less: "reverse_bits w v < 2 ^ w"
proof (induction w v rule: reverse_bits.induct)
  case (2 w v)
  have "v mod 2 * 2 ^ w \<le> 1 * 2 ^ w" by (rule mult_le_mono1) auto
  with 2 show ?case unfolding reverse_bits.simps power_Suc by linarith
qed simp

lemma bit_add_high: "y < 2 ^ w \<Longrightarrow> bit (x * 2 ^ w + y :: nat) i \<longleftrightarrow> (if i < w then bit y i else bit x (i - w))"
proof (cases "i < w")
  case True
  then obtain k where w: "w = i + Suc k" using less_imp_Suc_add by auto
  have "x * 2 ^ w + y = x * 2 ^ Suc k * 2 ^ i + y" by (simp add: w power_add algebra_simps)
  then have "(x * 2 ^ w + y) div 2 ^ i = x * 2 ^ Suc k + y div 2 ^ i" by (simp only: div_mult_self3) simp
  then show ?thesis using True by (simp add: bit_iff_odd)
next
  case False
  assume y: "y < 2 ^ w"
  from False obtain k where i: "i = w + k" using le_Suc_ex by (metis not_less)
  have "(x * 2 ^ w + y) div 2 ^ i = x div 2 ^ k" using y by (simp add: i power_add div_mult2_eq)
  then show ?thesis using i by (simp add: bit_iff_odd)
qed

lemma bit_reverse_bits [bit_simps]: "bit (reverse_bits w v) i \<longleftrightarrow> i < w \<and> bit v (w - Suc i)"
proof (induction w v arbitrary: i rule: reverse_bits.induct)
  case (2 w v)
  have "bit (reverse_bits (Suc w) v) i = (if i < w then bit (reverse_bits w (v div 2)) i else bit (v mod 2) (i - w))"
    using bit_add_high [OF reverse_bits_less] by simp
  moreover have "bit (v mod 2) (i - w) \<longleftrightarrow> i - w = 0 \<and> odd v"
    by (cases "i - w") (auto simp: bit_Suc bit_0)
  moreover have "bit (reverse_bits w (v div 2)) i \<longleftrightarrow> bit v (w - i)" if "i < w"
    using 2 that by (simp add: Suc_diff_Suc flip: bit_Suc)
  ultimately show ?case by (cases "i < w"; cases "i = w") (simp_all add: bit_0)
qed simp

lemma reverse_bits_mod [simp]: "reverse_bits n (v mod 2 ^ n) = reverse_bits n v"
  by (rule bit_eqI) (auto simp: bit_simps simp flip: take_bit_eq_mod)

lemma reverse_bits_twice: "reverse_bits n (reverse_bits n v) = v mod 2 ^ n"
  by (rule bit_eqI) (auto simp: bit_simps simp flip: take_bit_eq_mod)

lemma reverse_bits_div: "n \<le> w \<Longrightarrow> reverse_bits w v div 2 ^ (w - n) = reverse_bits n v"
  by (rule bit_eqI) (auto simp: bit_simps simp flip: drop_bit_eq_div)

lemma reverse_bits_match: "c < 2 ^ n \<Longrightarrow> b mod 2 ^ n = reverse_bits n c \<longleftrightarrow> reverse_bits n b = c"
  by (metis mod_less reverse_bits_mod reverse_bits_twice)

lemma reverse_bits_link:
  "9 \<le> n \<Longrightarrow> c < 2 ^ n \<Longrightarrow> reverse_bits 9 (reverse_bits n c) = c div 2 ^ (n - 9)"
  using reverse_bits_div [of 9 n "reverse_bits n c"] by (simp add: reverse_bits_twice)

text \<open>A code of more than nine bits is the entry of its first nine bits, and the index of the others.\<close>

lemma reverse_bits_split:
  assumes "9 \<le> n" "c < 2 ^ n"
  shows "reverse_bits n b = c \<longleftrightarrow>
    reverse_bits 9 b = c div 2 ^ (n - 9) \<and> (b div 512) mod 2 ^ (n - 9) = reverse_bits n c div 512"
proof -
  have n: "(2 :: nat) ^ n = 512 * 2 ^ (n - 9)" using assms(1) power_add [of "2 :: nat" 9 "n - 9"] by simp
  have "reverse_bits n b = c \<longleftrightarrow> b mod 2 ^ n = reverse_bits n c" using reverse_bits_match [OF assms(2)] by simp
  also have "\<dots> \<longleftrightarrow> b mod 512 = reverse_bits n c mod 512 \<and> (b div 512) mod 2 ^ (n - 9) = reverse_bits n c div 512"
  proof -
    have split512: "512 * q + s = r \<longleftrightarrow> s = r mod 512 \<and> q = r div 512" if "s < 512" for q s r :: nat
      using that by auto
    have "b mod 2 ^ n = 512 * (b div 512 mod 2 ^ (n - 9)) + b mod 512" unfolding n by (rule mod_mult2_eq)
    then show ?thesis using split512 [of "b mod 512"] by simp
  qed
  also have "b mod 512 = reverse_bits n c mod 512 \<longleftrightarrow> reverse_bits 9 b = c div 2 ^ (n - 9)"
  proof -
    have "reverse_bits 9 b = c div 2 ^ (n - 9) \<longleftrightarrow> reverse_bits 9 b = reverse_bits 9 (reverse_bits n c)"
      by (simp add: reverse_bits_link [OF assms])
    also have "\<dots> \<longleftrightarrow> b mod 2 ^ 9 = reverse_bits n c mod 2 ^ 9"
      by (metis reverse_bits_mod reverse_bits_twice)
    finally show ?thesis by simp
  qed
  finally show ?thesis .
qed

section \<open>Cells\<close>

lemma cell_arith: "n < 16 \<Longrightarrow> cell v n = v * 16 + n"
proof -
  assume n: "n < 16"
  have "push_bit 4 v AND n = 0"
  proof (rule bit_eqI)
    fix i
    have "n = take_bit 4 n" using n by (simp add: take_bit_eq_mod)
    then have "bit n i \<Longrightarrow> i < 4" by (metis bit_take_bit_iff)
    then show "bit (push_bit 4 v AND n) i = bit 0 i" by (auto simp: bit_simps)
  qed
  then have "push_bit 4 v + n = push_bit 4 v OR n" by (rule disjunctive_add_eq_or)
  then show ?thesis by (simp add: cell_def push_bit_eq_mult)
qed

lemma cell_count_mod: "cell_count c = c mod 16"
  using and_low_mod [of c 4] by (simp add: cell_count_def)

lemma cell_value_div: "cell_value c = c div 16"
  by (simp add: cell_value_def drop_bit_eq_div)

lemma cell_simps [simp]: "n < 16 \<Longrightarrow> cell_count (cell v n) = n" "n < 16 \<Longrightarrow> cell_value (cell v n) = v"
  by (simp_all add: cell_count_mod cell_value_div cell_arith)

lemma cell_zero [simp]: "cell_count 0 = 0"
  by (simp add: cell_count_def)

lemma length_fill_cells [simp]: "length (fill_cells off step v cells) = length cells"
proof (induction off step v cells rule: fill_cells.induct)
  case (1 off step v cells)
  then show ?case by (subst fill_cells.simps) simp
qed

lemma nth_fill_cells:
  "0 < step \<Longrightarrow> k < length cells \<Longrightarrow>
   fill_cells off step v cells ! k = (if off \<le> k \<and> (k - off) mod step = 0 then v else cells ! k)"
proof (induction off step v cells rule: fill_cells.induct)
  case (1 off step v cells)
  show ?case
  proof (cases "off < length cells")
    case True
    have *: "off + step \<le> k \<and> (k - (off + step)) mod step = 0 \<longleftrightarrow> off < k \<and> (k - off) mod step = 0"
    proof (cases "off + step \<le> k")
      case True
      then have "k - off = (k - (off + step)) + step" by simp
      then show ?thesis using True 1(2) by (metis mod_add_self2 less_add_same_cancel1 less_le_trans)
    next
      case False
      then show ?thesis by (auto simp: mod_less)
    qed
    from True 1 * show ?thesis by (subst fill_cells.simps) (auto simp: nth_list_update)
  next
    case False
    with 1(3) show ?thesis by (subst fill_cells.simps) auto
  qed
qed

lemma nth_fill_cells_mod:
  assumes "off < step" "k < length cells"
  shows "fill_cells off step v cells ! k = (if k mod step = off then v else cells ! k)"
proof -
  have "off \<le> k \<and> (k - off) mod step = 0 \<longleftrightarrow> k mod step = off"
    using assms(1) by (metis mod_eq_dvd_iff_nat mod_less mod_less_eq_dividend mod_eq_0_iff_dvd)
  with assms show ?thesis by (simp add: nth_fill_cells)
qed

section \<open>Well-formed tables\<close>

text \<open>
  The entries from \<open>link\<close> on, in the order of the codes, point to second tables; the entries below hold
  cells of at most nine bits.
\<close>

definition wf_table :: "nat \<Rightarrow> nat \<Rightarrow> huffman \<Rightarrow> bool" where
  "wf_table link m h \<longleftrightarrow>
     length (hu_chunks h) = 512 \<and>
     (\<forall>k < 512. if link \<le> reverse_bits 9 k then hu_chunks h ! k = cell (reverse_bits 9 k - link) 10
                else cell_count (hu_chunks h ! k) \<le> 9) \<and>
     link \<le> 512 \<and> length (hu_links h) = 512 - link \<and>
     (\<forall>l \<in> set (hu_links h). length l = 2 ^ m) \<and> hu_link_mask h = 2 ^ m - 1"

lemma wf_table_lookup:
  assumes "wf_table link m h"
  shows "huff_lookup h b =
    Some (if link \<le> reverse_bits 9 b then hu_links h ! (reverse_bits 9 b - link) ! (b div 512 mod 2 ^ m)
          else hu_chunks h ! (b mod 512))"
proof -
  have i: "b AND 511 = b mod 512" using and_low_mod [of b 9] by simp
  have j: "drop_bit 9 b AND (2 ^ m - Suc 0) = b div 512 mod 2 ^ m"
    using and_low_mod [of "drop_bit 9 b" m] by (simp add: drop_bit_eq_div)
  have r: "reverse_bits 9 (b mod 512) = reverse_bits 9 b" using reverse_bits_mod [of 9 b] by simp
  have lt: "reverse_bits 9 b < 512" using reverse_bits_less [of 9 b] by simp
  have c: "if link \<le> reverse_bits 9 b then hu_chunks h ! (b mod 512) = cell (reverse_bits 9 b - link) 10
           else cell_count (hu_chunks h ! (b mod 512)) \<le> 9"
    using assms unfolding wf_table_def by (metis r mod_less_divisor zero_less_numeral)
  show ?thesis
  proof (cases "link \<le> reverse_bits 9 b")
    case True
    with assms lt have "reverse_bits 9 b - link < length (hu_links h)" by (simp add: wf_table_def)
    moreover from this have "length (hu_links h ! (reverse_bits 9 b - link)) = 2 ^ m"
      using assms by (simp add: wf_table_def)
    ultimately show ?thesis
      using True c assms i j
      by (simp add: huff_lookup_def Let_def HUFFMAN_NUM_CHUNKS_def HUFFMAN_CHUNK_BITS_def wf_table_def)
  next
    case False
    with c assms i show ?thesis
      by (simp add: huff_lookup_def Let_def HUFFMAN_NUM_CHUNKS_def HUFFMAN_CHUNK_BITS_def wf_table_def)
  qed
qed

text \<open>A code that belongs where it is put: below the links, or into one of them.\<close>

definition code_fits :: "nat \<Rightarrow> nat \<Rightarrow> nat \<Rightarrow> nat \<Rightarrow> bool" where
  "code_fits link m n c \<longleftrightarrow>
     n < 16 \<and> c < 2 ^ n \<and>
     (if n \<le> 9 then (c + 1) * 2 ^ (9 - n) \<le> link else link \<le> c div 2 ^ (n - 9) \<and> n \<le> 9 + m)"

definition table_update :: "nat \<Rightarrow> nat \<Rightarrow> nat \<Rightarrow> huffman \<Rightarrow> huffman \<Rightarrow> bool" where
  "table_update i n c h h' \<longleftrightarrow>
     hu_min h' = hu_min h \<and>
     (\<forall>b. huff_lookup h' b = (if reverse_bits n b = c then Some (cell i n) else huff_lookup h b))"

lemma short_code_below:
  assumes "code_fits link m n c" "n \<le> 9" "link \<le> reverse_bits 9 k"
  shows "reverse_bits n k \<noteq> c"
proof
  assume "reverse_bits n k = c"
  then have "reverse_bits 9 k div 2 ^ (9 - n) = c" using reverse_bits_div [OF assms(2)] by simp
  then have "reverse_bits 9 k < (c + 1) * 2 ^ (9 - n)"
    by (metis Suc_eq_plus1 div_less_iff_less_mult lessI zero_less_numeral zero_less_power)
  with assms show False by (simp add: code_fits_def)
qed

lemma insert_short:
  assumes wf: "wf_table link m h" and fits: "code_fits link m n c" and n: "n \<le> 9"
  obtains h' where "insert_code i n c h = Some h'" "wf_table link m h'" "table_update i n c h h'"
proof
  let ?cs = "fill_cells (reverse_bits n c) (2 ^ n) (cell i n) (hu_chunks h)"
  let ?h = "h\<lparr>hu_chunks := ?cs\<rparr>"
  have c: "c < 2 ^ n" "n < 16" using fits by (simp_all add: code_fits_def)
  have nth: "?cs ! k = (if reverse_bits n k = c then cell i n else hu_chunks h ! k)" if "k < 512" for k
    using nth_fill_cells_mod [OF reverse_bits_less, of k "hu_chunks h" n c] that wf reverse_bits_match [OF c(1)]
    by (simp add: wf_table_def)
  show "insert_code i n c h = Some ?h" using n by (simp add: insert_code_def HUFFMAN_CHUNK_BITS_def Let_def)
  show wf': "wf_table link m ?h"
    unfolding wf_table_def using wf nth c n short_code_below [OF fits n]
    by (auto simp: wf_table_def)
  have "huff_lookup ?h b = (if reverse_bits n b = c then Some (cell i n) else huff_lookup h b)" for b
  proof (cases "link \<le> reverse_bits 9 b")
    case True
    then show ?thesis
      using short_code_below [OF fits n] wf_table_lookup [OF wf] wf_table_lookup [OF wf'] by simp
  next
    case False
    have "reverse_bits n (b mod 512) = reverse_bits n b"
      using reverse_bits_div [OF n, of "b mod 512"] reverse_bits_div [OF n, of b] reverse_bits_mod [of 9 b] by simp
    with False nth [of "b mod 512"] show ?thesis using wf_table_lookup [OF wf] wf_table_lookup [OF wf'] by simp
  qed
  then show "table_update i n c h ?h" by (simp add: table_update_def)
qed

lemma insert_long:
  assumes wf: "wf_table link m h" and fits: "code_fits link m n c" and n: "9 < n"
  obtains h' where "insert_code i n c h = Some h'" "wf_table link m h'" "table_update i n c h h'"
proof
  let ?v = "c div 2 ^ (n - 9) - link"
  let ?l = "fill_cells (reverse_bits n c div 512) (2 ^ (n - 9)) (cell i n) (hu_links h ! ?v)"
  let ?h = "h\<lparr>hu_links := (hu_links h)[?v := ?l]\<rparr>"
  have c: "c < 2 ^ n" "n < 16" "link \<le> c div 2 ^ (n - 9)" "n - 9 \<le> m" using fits n unfolding code_fits_def by auto
  have r: "reverse_bits 9 (reverse_bits n c) = c div 2 ^ (n - 9)" using reverse_bits_link [of n c] n c by simp
  have lt: "c div 2 ^ (n - 9) < 512" using reverse_bits_less [of 9 "reverse_bits n c"] r by simp
  have v: "?v < length (hu_links h)" using wf lt c by (simp add: wf_table_def)
  have len: "length (hu_links h ! ?v) = 2 ^ m" using wf v by (simp add: wf_table_def)
  have "reverse_bits 9 (reverse_bits n c mod 512) = c div 2 ^ (n - 9)" using r reverse_bits_mod [of 9 "reverse_bits n c"] by simp
  then have chunk: "hu_chunks h ! (reverse_bits n c mod 512) = cell ?v 10"
    using wf c unfolding wf_table_def by (metis mod_less_divisor zero_less_numeral)
  show "insert_code i n c h = Some ?h"
    using n chunk v and_low_mod [of "reverse_bits n c" 9]
    by (simp add: insert_code_def HUFFMAN_CHUNK_BITS_def HUFFMAN_NUM_CHUNKS_def Let_def drop_bit_eq_div)
  show wf': "wf_table link m ?h"
    using wf len v by (auto simp: wf_table_def dest!: set_update_subset_insert [THEN subsetD])
  have step: "reverse_bits n c div 512 < 2 ^ (n - 9)"
    using reverse_bits_less [of n c] n power_add [of "2 :: nat" 9 "n - 9"] by (simp add: less_mult_imp_div_less mult.commute)
  have "huff_lookup ?h b = (if reverse_bits n b = c then Some (cell i n) else huff_lookup h b)" for b
  proof (cases "reverse_bits 9 b = c div 2 ^ (n - 9)")
    case True
    have "(b div 512 mod 2 ^ m) mod 2 ^ (n - 9) = b div 512 mod 2 ^ (n - 9)"
      using c(4) by (simp add: mod_mod_cancel le_imp_power_dvd)
    then have "?l ! (b div 512 mod 2 ^ m) =
        (if b div 512 mod 2 ^ (n - 9) = reverse_bits n c div 512 then cell i n else hu_links h ! ?v ! (b div 512 mod 2 ^ m))"
      using nth_fill_cells_mod [OF step, of "b div 512 mod 2 ^ m"] len by simp
    with True v c reverse_bits_split [of n c b] n show ?thesis
      using wf_table_lookup [OF wf] wf_table_lookup [OF wf'] by simp
  next
    case False
    then have "reverse_bits n b \<noteq> c" using reverse_bits_split [of n c b] n c by simp
    moreover have "link \<le> reverse_bits 9 b \<Longrightarrow> ?v \<noteq> reverse_bits 9 b - link" using False c(3) by linarith
    ultimately show ?thesis using wf_table_lookup [OF wf] wf_table_lookup [OF wf'] by simp
  qed
  then show "table_update i n c h ?h" by (simp add: table_update_def)
qed

lemma insert_code_ok:
  assumes "wf_table link m h" "code_fits link m n c"
  obtains h' where "insert_code i n c h = Some h'" "wf_table link m h'" "table_update i n c h h'"
proof (cases "n \<le> 9")
  case True
  from insert_short [OF assms True] that show thesis by metis
next
  case False
  then have "9 < n" by simp
  from insert_long [OF assms this] that show thesis by metis
qed

section \<open>The canonical code\<close>

text \<open>RFC 1951, 3.2.2: the number of codes of a length, the first of them, and the code of a symbol.\<close>

definition bl_count :: "nat list \<Rightarrow> nat \<Rightarrow> nat" where
  "bl_count ls n = (if n = 0 then 0 else length (filter ((=) n) ls))"

fun first_code :: "nat list \<Rightarrow> nat \<Rightarrow> nat" where
  "first_code ls 0 = 0"
| "first_code ls (Suc n) = 2 * (first_code ls n + bl_count ls n)"

definition canonical_code :: "nat list \<Rightarrow> nat \<Rightarrow> nat" where
  "canonical_code ls k = first_code ls (ls ! k) + bl_count (take k ls) (ls ! k)"

definition code_matches :: "nat list \<Rightarrow> nat \<Rightarrow> nat \<Rightarrow> bool" where
  "code_matches ls k b \<longleftrightarrow> k < length ls \<and> ls ! k \<noteq> 0 \<and> reverse_bits (ls ! k) b = canonical_code ls k"

lemma bl_count_append: "bl_count (xs @ ys) n = bl_count xs n + bl_count ys n"
  by (simp add: bl_count_def)

lemma bl_count_Cons: "bl_count (x # xs) n = (if x = n \<and> n \<noteq> 0 then 1 else 0) + bl_count xs n"
  by (simp add: bl_count_def)

lemma bl_count_Nil [simp]: "bl_count [] n = 0"
  by (simp add: bl_count_def)

lemma first_code_grows:
  "n \<le> n' \<Longrightarrow> (first_code ls n + bl_count ls n) * 2 ^ (n' - n) \<le> first_code ls n' + bl_count ls n'"
proof (induction n' rule: nat_induct)
  case (Suc n')
  show ?case
  proof (cases "n \<le> n'")
    case True
    with Suc have "2 * ((first_code ls n + bl_count ls n) * 2 ^ (n' - n)) \<le> first_code ls (Suc n')" by simp
    then show ?thesis using True by (simp add: Suc_diff_le algebra_simps)
  next
    case False
    with Suc.prems have "n = Suc n'" by simp
    then show ?thesis by simp
  qed
qed simp

lemma first_code_after:
  "n < n' \<Longrightarrow> (first_code ls n + bl_count ls n) * 2 ^ (n' - n) \<le> first_code ls n'"
proof -
  assume "n < n'"
  then obtain p where p: "n' = Suc p" "n \<le> p" by (metis Suc_le_eq Suc_le_mono not0_implies_Suc less_nat_zero_code)
  with first_code_grows [OF p(2), of ls] show ?thesis by (simp add: Suc_diff_le algebra_simps)
qed

lemma canonical_code_bounds:
  assumes "k < length ls" "ls ! k \<noteq> 0"
  shows "first_code ls (ls ! k) \<le> canonical_code ls k"
    "canonical_code ls k < first_code ls (ls ! k) + bl_count ls (ls ! k)"
proof -
  have "ls = take k ls @ ls ! k # drop (Suc k) ls" by (simp add: assms id_take_nth_drop)
  then have "bl_count ls (ls ! k) = bl_count (take k ls) (ls ! k) + bl_count (ls ! k # drop (Suc k) ls) (ls ! k)"
    by (metis bl_count_append)
  then show "canonical_code ls k < first_code ls (ls ! k) + bl_count ls (ls ! k)"
    using assms(2) by (simp add: canonical_code_def bl_count_Cons)
  show "first_code ls (ls ! k) \<le> canonical_code ls k" by (simp add: canonical_code_def)
qed

lemma bl_count_take_less:
  assumes "k < k'" "k' \<le> length ls" "ls ! k \<noteq> 0"
  shows "bl_count (take k ls) (ls ! k) < bl_count (take k' ls) (ls ! k)"
proof -
  have "take k' ls = take k ls @ ls ! k # drop (Suc k) (take k' ls)"
    using id_take_nth_drop [of k "take k' ls"] assms by (simp add: min.absorb1)
  then have "bl_count (take k' ls) (ls ! k) = bl_count (take k ls) (ls ! k) + bl_count (ls ! k # drop (Suc k) (take k' ls)) (ls ! k)"
    by (metis bl_count_append)
  then show ?thesis using assms(3) by (simp add: bl_count_Cons)
qed

text \<open>No two symbols match the same bits.\<close>

lemma canonical_prefix_free_shorter:
  assumes "code_matches ls k b" "code_matches ls k' b"
  shows "\<not> ls ! k < ls ! k'"
proof
  assume lt: "ls ! k < ls ! k'"
  let ?d = "2 ^ (ls ! k' - ls ! k) :: nat"
  have "canonical_code ls k = canonical_code ls k' div ?d"
    using assms lt reverse_bits_div [of "ls ! k" "ls ! k'" b] by (simp add: code_matches_def)
  moreover have "(first_code ls (ls ! k) + bl_count ls (ls ! k)) * ?d \<le> canonical_code ls k'"
    using first_code_after [OF lt, of ls] canonical_code_bounds(1) [of k' ls] assms(2) by (simp add: code_matches_def)
  then have "first_code ls (ls ! k) + bl_count ls (ls ! k) \<le> canonical_code ls k' div ?d"
    by (simp add: less_eq_div_iff_mult_less_eq)
  ultimately show False using canonical_code_bounds(2) [of k ls] assms(1) by (simp add: code_matches_def)
qed

lemma canonical_prefix_free:
  assumes "code_matches ls k b" "code_matches ls k' b"
  shows "k = k'"
proof (rule ccontr)
  assume ne: "k \<noteq> k'"
  have eq: "ls ! k = ls ! k'" using canonical_prefix_free_shorter assms by (meson linorder_neqE_nat)
  with assms have "canonical_code ls k = canonical_code ls k'" by (auto simp: code_matches_def)
  with eq have c: "bl_count (take k ls) (ls ! k) = bl_count (take k' ls) (ls ! k)" by (simp add: canonical_code_def)
  from ne consider "k < k'" | "k' < k" by linarith
  then show False
    using bl_count_take_less [of k k' ls] bl_count_take_less [of k' k ls] c eq assms
    by cases (auto simp: code_matches_def)
qed

section \<open>The tables implement the canonical code\<close>

lemma count_lengths_counts:
  "\<forall>n \<in> set ns. n < 16 \<Longrightarrow> length cnt = 16 \<Longrightarrow>
   \<exists>cnt'. count_lengths ns cnt = Some cnt' \<and> length cnt' = 16 \<and> (\<forall>n < 16. cnt' ! n = cnt ! n + bl_count ns n)"
proof (induction ns arbitrary: cnt)
  case (Cons n ns)
  show ?case
  proof (cases "n = 0")
    case True
    then have "bl_count (n # ns) = bl_count ns" by (simp add: fun_eq_iff bl_count_def)
    with True Cons show ?thesis by simp
  next
    case False
    from Cons.IH [of "cnt[n := cnt ! n + 1]"] Cons.prems obtain cnt' where
      "count_lengths ns (cnt[n := cnt ! n + 1]) = Some cnt'" "length cnt' = 16"
      "\<forall>j < 16. cnt' ! j = cnt[n := cnt ! n + 1] ! j + bl_count ns j" by auto
    with False Cons.prems show ?thesis
      by (auto simp: MAX_CODE_LEN_def bl_count_Cons nth_list_update)
  qed
qed simp

lemma count_lengths_None: "n \<in> set ns \<Longrightarrow> 16 \<le> n \<Longrightarrow> count_lengths ns cnt = None"
  by (induction ns cnt rule: count_lengths.induct) (auto simp: MAX_CODE_LEN_def)

lemma next_codes_first:
  assumes "\<forall>n < 16. cnt ! n = bl_count ls n"
  shows "i + k \<le> 16 \<Longrightarrow> length nc = 16 \<Longrightarrow> 2 * code = first_code ls i \<Longrightarrow> next_codes k i cnt code nc = (code', nc') \<Longrightarrow>
    2 * code' = first_code ls (i + k) \<and> length nc' = 16 \<and>
    (\<forall>j < 16. nc' ! j = (if i \<le> j \<and> j < i + k then first_code ls j else nc ! j))"
proof (induction k arbitrary: i code nc)
  case (Suc k)
  have "2 * (2 * code + cnt ! i) = first_code ls (i + 1)" using Suc.prems(1,3) assms by simp
  from Suc.IH [OF _ _ this, of "nc[i := 2 * code]"] Suc.prems show ?case
    by (auto simp: nth_list_update not_less_eq_eq dest: le_antisym)
qed auto

lemma fold_min_le: "fold min ns n \<le> n \<and> (\<forall>x \<in> set ns. fold min ns n \<le> x) \<and> fold min ns n \<in> insert n (set ns)"
  for n :: nat
proof -
  have "fold min ns n = Min (insert n (set ns))" using Min.set_eq_fold [of n ns] by simp
  then show ?thesis using Min_in [of "insert n (set ns)"] by (auto simp del: Min_insert Min_in)
qed

lemma min_length_le: "n \<in> set ls \<Longrightarrow> n \<noteq> 0 \<Longrightarrow> min_length ls \<le> n \<and> min_length ls \<noteq> 0 \<and> min_length ls \<in> set ls"
proof -
  assume "n \<in> set ls" "n \<noteq> 0"
  then have n: "n \<in> set (filter (\<lambda>n. n \<noteq> 0) ls)" by simp
  obtain x xs where f: "filter (\<lambda>n. n \<noteq> 0) ls = x # xs" using n by (metis list.exhaust empty_iff list.set(1))
  have "fold min xs x \<in> set (filter (\<lambda>n. n \<noteq> 0) ls)" using fold_min_le [of xs x] f by simp
  then show ?thesis using fold_min_le [of xs x] f n by (auto simp: min_length_def)
qed

lemma fold_max_ge: "n \<le> fold max ns n \<and> (\<forall>x \<in> set ns. x \<le> fold max ns n) \<and> fold max ns n \<in> insert n (set ns)"
  for n :: nat
proof -
  have "fold max ns n = Max (insert n (set ns))" using Max.set_eq_fold [of n ns] by simp
  then show ?thesis using Max_in [of "insert n (set ns)"] by (auto simp del: Max_insert Max_in)
qed

lemma max_length_ge: "n \<in> set ls \<Longrightarrow> n \<le> max_length ls"
  using fold_max_ge [where n = 0 and ns = ls] by (simp add: max_length_def)

lemma max_length_in: "max_length ls \<noteq> 0 \<Longrightarrow> max_length ls \<in> set ls"
  using fold_max_ge [where n = 0 and ns = ls] by (auto simp: max_length_def)

lemma first_code_below_min: "n \<le> min_length ls \<Longrightarrow> first_code ls n = 0"
proof (induction n)
  case (Suc n)
  have "bl_count ls n = 0" using min_length_le [of n ls] Suc.prems by (auto simp: bl_count_def filter_empty_conv)
  with Suc show ?case by simp
qed simp

lemma nth_fold_update:
  "\<forall>j \<in> set js. f j = k \<longrightarrow> j = r \<Longrightarrow> k < length cs \<Longrightarrow>
   fold (\<lambda>j cs. cs[f j := g j]) js cs ! k = (if r \<in> set js \<and> f r = k then g r else cs ! k)"
proof (induction js arbitrary: cs)
  case (Cons j js)
  have IH: "fold (\<lambda>j cs. cs[f j := g j]) js (cs[f j := g j]) ! k =
      (if r \<in> set js \<and> f r = k then g r else cs[f j := g j] ! k)"
    using Cons.prems by (intro Cons.IH) simp_all
  show ?case
  proof (cases "f j = k")
    case True
    with Cons.prems(1) have "j = r" by simp
    with IH True Cons.prems(2) show ?thesis by simp
  next
    case False
    with IH show ?thesis by auto
  qed
qed simp

lemma length_fold_update [simp]: "length (fold (\<lambda>j cs. cs[f j := g j]) js cs) = length cs"
  by (induction js arbitrary: cs) auto

lemma nth_link_cells:
  assumes "k < 512" "length cs = 512"
  shows "link_cells link cs ! k = (if link \<le> reverse_bits 9 k then cell (reverse_bits 9 k - link) 10 else cs ! k)"
proof -
  have *: "reverse_bits 9 (reverse_bits 9 j) = j" if "j < 512" for j using reverse_bits_twice [of 9 j] that by simp
  have "reverse_bits 9 k < 512" using reverse_bits_less [of 9 k] by simp
  with assms show ?thesis
    unfolding link_cells_def HUFFMAN_NUM_CHUNKS_def HUFFMAN_CHUNK_BITS_def
    by (subst nth_fold_update [where r = "reverse_bits 9 k"]) (auto simp: *)
qed

lemma code_matches_take: "ls = pre @ n # ns \<Longrightarrow> canonical_code ls (length pre) = first_code ls n + bl_count pre n"
  by (simp add: canonical_code_def)

text \<open>
  Inserting the symbols from a prefix on: every one of them is found by its code, and other bits are
  looked up as before.
\<close>

definition inserts_all :: "nat list \<Rightarrow> nat \<Rightarrow> huffman \<Rightarrow> huffman \<Rightarrow> bool" where
  "inserts_all ls i h h' \<longleftrightarrow>
     hu_min h' = hu_min h \<and>
     (\<forall>b k. i \<le> k \<longrightarrow> code_matches ls k b \<longrightarrow> huff_lookup h' b = Some (cell k (ls ! k))) \<and>
     (\<forall>b. (\<forall>k \<ge> i. \<not> code_matches ls k b) \<longrightarrow> huff_lookup h' b = huff_lookup h b)"

lemma inserts_all_step:
  assumes n: "i < length ls" "ls ! i \<noteq> 0" and upd: "table_update i (ls ! i) (canonical_code ls i) h h1"
    and rest: "inserts_all ls (i + 1) h1 h'"
  shows "inserts_all ls i h h'"
  unfolding inserts_all_def
proof (intro conjI allI impI)
  show "hu_min h' = hu_min h" using upd rest by (simp add: table_update_def inserts_all_def)
next
  fix b k
  assume k: "i \<le> k" "code_matches ls k b"
  show "huff_lookup h' b = Some (cell k (ls ! k))"
  proof (cases "k = i")
    case True
    have "\<not> code_matches ls j b" if "i + 1 \<le> j" for j
      using canonical_prefix_free [OF _ k(2), of j] True that by auto
    then have "huff_lookup h' b = huff_lookup h1 b" using rest by (simp add: inserts_all_def)
    then show ?thesis using upd k True by (simp add: table_update_def code_matches_def)
  next
    case False
    then show ?thesis using rest k by (simp add: inserts_all_def)
  qed
next
  fix b
  assume b: "\<forall>k \<ge> i. \<not> code_matches ls k b"
  then have "huff_lookup h' b = huff_lookup h1 b" using rest by (simp add: inserts_all_def)
  also have "reverse_bits (ls ! i) b \<noteq> canonical_code ls i" using n b by (auto simp: code_matches_def)
  then have "huff_lookup h1 b = huff_lookup h b" using upd by (simp add: table_update_def)
  finally show "huff_lookup h' b = huff_lookup h b" .
qed

lemma insert_codes_ok:
  assumes fits: "\<forall>k < length ls. ls ! k \<noteq> 0 \<longrightarrow> code_fits link m (ls ! k) (canonical_code ls k)"
  shows "ls = pre @ ns \<Longrightarrow> wf_table link m h \<Longrightarrow> length nc = 16 \<Longrightarrow>
    \<forall>n \<in> set ns. n \<noteq> 0 \<longrightarrow> nc ! n = first_code ls n + bl_count pre n \<Longrightarrow>
    \<exists>h'. insert_codes (length pre) ns nc h = Some h' \<and> wf_table link m h' \<and> inserts_all ls (length pre) h h'"
proof (induction ns arbitrary: pre nc h)
  case Nil
  then show ?case by (auto simp: inserts_all_def code_matches_def)
next
  case (Cons n ns)
  have ls: "ls = (pre @ [n]) @ ns" and len: "length pre < length ls" "ls ! length pre = n" using Cons.prems(1) by simp_all
  show ?case
  proof (cases "n = 0")
    case True
    have "bl_count (pre @ [n]) = bl_count pre" using True by (simp add: fun_eq_iff bl_count_def)
    then obtain h' where h': "insert_codes (length (pre @ [n])) ns nc h = Some h'" "wf_table link m h'"
        "inserts_all ls (length (pre @ [n])) h h'"
      using Cons.IH [OF ls Cons.prems(2,3)] Cons.prems(4) by auto
    have "code_matches ls k b \<Longrightarrow> length pre \<le> k \<Longrightarrow> length pre + 1 \<le> k" for k b
      using len True by (cases "k = length pre") (auto simp: code_matches_def)
    with h'(3) have "inserts_all ls (length pre) h h'" unfolding inserts_all_def by (metis length_append_singleton Suc_eq_plus1 Suc_leD)
    with h' True show ?thesis by simp
  next
    case False
    have c: "nc ! n = canonical_code ls (length pre)"
      using Cons.prems(4) False code_matches_take [OF Cons.prems(1)] by simp
    have cf: "code_fits link m n (nc ! n)" using fits len False c by metis
    then have n16: "n < 16" by (simp add: code_fits_def)
    obtain h1 where h1: "insert_code (length pre) n (nc ! n) h = Some h1" "wf_table link m h1"
        "table_update (length pre) n (nc ! n) h h1"
      by (rule insert_code_ok [OF Cons.prems(2) cf])
    have "\<forall>j \<in> set ns. j \<noteq> 0 \<longrightarrow> nc[n := nc ! n + 1] ! j = first_code ls j + bl_count (pre @ [n]) j"
    proof (intro ballI impI)
      fix j assume "j \<in> set ns" "j \<noteq> 0"
      with Cons.prems(3,4) n16 False show "nc[n := nc ! n + 1] ! j = first_code ls j + bl_count (pre @ [n]) j"
        by (cases "j = n") (simp_all add: bl_count_append bl_count_Cons)
    qed
    then obtain h' where h': "insert_codes (length (pre @ [n])) ns (nc[n := nc ! n + 1]) h1 = Some h'" "wf_table link m h'"
        "inserts_all ls (length (pre @ [n])) h1 h'"
      using Cons.IH [OF ls h1(2), of "nc[n := nc ! n + 1]"] Cons.prems(3) by auto
    have "inserts_all ls (length pre) h h'"
      using inserts_all_step [of "length pre" ls h h1 h'] len False h1(3) c h'(3) by simp
    with h' h1 False show ?thesis by simp
  qed
qed

lemma length_link_cells [simp]: "length (link_cells link cs) = length cs"
  by (simp add: link_cells_def)

text \<open>A complete code leaves no room above its longest length.\<close>

definition code_complete :: "nat list \<Rightarrow> bool" where
  "code_complete ls \<longleftrightarrow>
     (let mx = max_length ls; c = first_code ls mx + bl_count ls mx in c = 2 ^ mx \<or> c = 1 \<and> mx = 1)"

lemma code_complete_kraft:
  assumes "code_complete ls" "n \<le> max_length ls"
  shows "first_code ls n + bl_count ls n \<le> 2 ^ n"
proof -
  let ?mx = "max_length ls"
  have "(first_code ls n + bl_count ls n) * 2 ^ (?mx - n) \<le> first_code ls ?mx + bl_count ls ?mx"
    by (rule first_code_grows [OF assms(2)])
  also have "\<dots> \<le> 2 ^ ?mx" using assms(1) by (auto simp: code_complete_def Let_def)
  also have "\<dots> = 2 ^ n * 2 ^ (?mx - n)" using assms(2) by (simp flip: power_add)
  finally show ?thesis by simp
qed

text \<open>The first entry that points to a second table, and the extra bits of the second tables.\<close>

definition link_of :: "nat list \<Rightarrow> nat" where
  "link_of ls = (if 9 < max_length ls then first_code ls 9 + bl_count ls 9 else 512)"

lemma code_fits_complete:
  assumes "code_complete ls" "max_length ls < 16" "k < length ls" "ls ! k \<noteq> 0"
  shows "code_fits (link_of ls) (max_length ls - 9) (ls ! k) (canonical_code ls k)"
proof -
  let ?n = "ls ! k" and ?c = "canonical_code ls k"
  have n: "?n \<le> max_length ls" using assms(3) by (simp add: max_length_ge)
  note b = canonical_code_bounds [OF assms(3,4)]
  have lt: "?c < 2 ^ ?n" using b(2) code_complete_kraft [OF assms(1) n] by linarith
  show ?thesis
  proof (cases "?n \<le> 9")
    case True
    have "(?c + 1) * 2 ^ (9 - ?n) \<le> (first_code ls ?n + bl_count ls ?n) * 2 ^ (9 - ?n)" using b(2) by (intro mult_le_mono1) simp
    moreover have "\<dots> \<le> first_code ls 9 + bl_count ls 9" by (rule first_code_grows [OF True])
    moreover have "(?c + 1) * 2 ^ (9 - ?n) \<le> 2 ^ ?n * 2 ^ (9 - ?n)" using lt by (intro mult_le_mono1) simp
    moreover have "(2 :: nat) ^ ?n * 2 ^ (9 - ?n) = 512" using True by (simp flip: power_add)
    ultimately have "(?c + 1) * 2 ^ (9 - ?n) \<le> link_of ls" unfolding link_of_def by (auto intro: order_trans)
    with True lt n assms(2) show ?thesis by (simp add: code_fits_def)
  next
    case False
    then have "(first_code ls 9 + bl_count ls 9) * 2 ^ (?n - 9) \<le> ?c" using first_code_after [of 9 ?n ls] b(1) by linarith
    then have "link_of ls \<le> ?c div 2 ^ (?n - 9)" using False n by (simp add: link_of_def less_eq_div_iff_mult_less_eq)
    with False lt n assms(2) show ?thesis by (auto simp: code_fits_def)
  qed
qed

definition start_table :: "nat list \<Rightarrow> huffman" where
  "start_table ls =
     (let h0 = huffman_empty\<lparr>hu_min := min_length ls\<rparr>; num_links = 2 ^ (max_length ls - 9)
      in if 9 < max_length ls
         then h0\<lparr>hu_link_mask := num_links - 1, hu_chunks := link_cells (link_of ls) (hu_chunks h0),
                 hu_links := replicate (512 - link_of ls) (replicate num_links 0)\<rparr>
         else h0)"

lemma start_table_wf:
  assumes "code_complete ls"
  shows "wf_table (link_of ls) (max_length ls - 9) (start_table ls)" "hu_min (start_table ls) = min_length ls"
proof -
  have "reverse_bits 9 k < 512" for k using reverse_bits_less [of 9 k] by simp
  then have r: "\<not> 512 \<le> reverse_bits 9 k" for k by (simp add: not_le)
  have "9 < max_length ls \<Longrightarrow> link_of ls \<le> 512"
    using code_complete_kraft [OF assms, of 9] by (simp add: link_of_def)
  then show "wf_table (link_of ls) (max_length ls - 9) (start_table ls)"
    by (cases "9 < max_length ls")
      (auto simp: wf_table_def start_table_def Let_def huffman_empty_def HUFFMAN_NUM_CHUNKS_def nth_link_cells r link_of_def)
  show "hu_min (start_table ls) = min_length ls" by (simp add: start_table_def Let_def)
qed

lemma next_codes_canonical:
  assumes "\<forall>n < 16. cnt ! n = bl_count ls n" "max_length ls < 16" "max_length ls \<noteq> 0"
    "next_codes (max_length ls + 1 - min_length ls) (min_length ls) cnt 0 (replicate 16 0) = (code, nc)"
  shows "code = first_code ls (max_length ls) + bl_count ls (max_length ls)" "length nc = 16"
    "\<forall>n \<le> max_length ls. nc ! n = first_code ls n"
proof -
  have "min_length ls \<le> max_length ls" using min_length_le [OF max_length_in] assms(3) by simp
  then have *: "min_length ls + (max_length ls + 1 - min_length ls) = Suc (max_length ls)" by simp
  note next_codes_first [OF assms(1) _ _ _ assms(4), unfolded *]
  then have nc: "2 * code = first_code ls (Suc (max_length ls))" "length nc = 16"
      "\<forall>j < 16. nc ! j = (if min_length ls \<le> j \<and> j < Suc (max_length ls) then first_code ls j else replicate 16 0 ! j)"
    using assms(2) first_code_below_min [of "min_length ls" ls] by simp_all
  show "code = first_code ls (max_length ls) + bl_count ls (max_length ls)" using nc(1) by simp
  show "length nc = 16" by (rule nc)
  show "\<forall>n \<le> max_length ls. nc ! n = first_code ls n"
    using nc(3) assms(2) first_code_below_min [of _ ls] by (auto simp: not_le)
qed

lemma huffman_init_complete:
  assumes "\<forall>n \<in> set ls. n < 16" "max_length ls \<noteq> 0" "code_complete ls"
  obtains h where "huffman_init ls = InitOk h" "wf_table (link_of ls) (max_length ls - 9) h"
    "inserts_all ls 0 (start_table ls) h"
proof -
  have mx: "max_length ls < 16" using assms(1) max_length_in [OF assms(2)] by simp
  obtain cnt where cnt: "count_lengths ls (replicate 16 0) = Some cnt" "\<forall>n < 16. cnt ! n = bl_count ls n"
    using count_lengths_counts [OF assms(1), of "replicate 16 0"] by auto
  obtain code nc where nc: "next_codes (max_length ls + 1 - min_length ls) (min_length ls) cnt 0 (replicate 16 0) = (code, nc)"
    by fastforce
  note can = next_codes_canonical [OF cnt(2) mx assms(2) nc]
  have code: "\<not> (code \<noteq> 2 ^ max_length ls \<and> \<not> (code = 1 \<and> max_length ls = 1))"
    using assms(3) can(1) by (simp add: code_complete_def Let_def)
  have link: "nc ! 10 div 2 = link_of ls" "link_of ls \<le> 512" if "9 < max_length ls"
  proof -
    have "nc ! 10 = first_code ls (Suc 9)" using can(3) that by (simp add: Suc_le_eq)
    then have "nc ! 10 = 2 * (first_code ls 9 + bl_count ls 9)" by (simp only: first_code.simps(2))
    then show "nc ! 10 div 2 = link_of ls" using that by (simp add: link_of_def)
    show "link_of ls \<le> 512" using start_table_wf(1) [OF assms(3)] by (simp add: wf_table_def)
  qed
  have "\<forall>n \<in> set ls. n \<noteq> 0 \<longrightarrow> nc ! n = first_code ls n + bl_count [] n" using can(3) max_length_ge [of _ ls] by simp
  then obtain h where h: "insert_codes 0 ls nc (start_table ls) = Some h" "wf_table (link_of ls) (max_length ls - 9) h"
      "inserts_all ls 0 (start_table ls) h"
    using insert_codes_ok [of ls "link_of ls" "max_length ls - 9" "[]" ls "start_table ls" nc]
      code_fits_complete [OF assms(3) mx] start_table_wf(1) [OF assms(3)] can(2) by auto
  have "huffman_init ls = InitOk h"
    using cnt(1) nc assms(2) code link h(1)
    by (cases "9 < max_length ls")
      (simp_all add: huffman_init_def MAX_CODE_LEN_def HUFFMAN_CHUNK_BITS_def HUFFMAN_NUM_CHUNKS_def Let_def start_table_def)
  then show thesis using h that by blast
qed

lemma huffman_init_incomplete:
  assumes "\<forall>n \<in> set ls. n < 16" "max_length ls \<noteq> 0" "\<not> code_complete ls"
  shows "huffman_init ls = InitBad"
proof -
  have mx: "max_length ls < 16" using assms(1) max_length_in [OF assms(2)] by simp
  obtain cnt where cnt: "count_lengths ls (replicate 16 0) = Some cnt" "\<forall>n < 16. cnt ! n = bl_count ls n"
    using count_lengths_counts [OF assms(1), of "replicate 16 0"] by auto
  obtain code nc where nc: "next_codes (max_length ls + 1 - min_length ls) (min_length ls) cnt 0 (replicate 16 0) = (code, nc)"
    by fastforce
  have "code \<noteq> 2 ^ max_length ls \<and> \<not> (code = 1 \<and> max_length ls = 1)"
    using assms(3) next_codes_canonical(1) [OF cnt(2) mx assms(2) nc] by (simp add: code_complete_def Let_def)
  with cnt(1) nc assms(2) show ?thesis by (simp add: huffman_init_def MAX_CODE_LEN_def)
qed

lemma huffman_init_zero:
  assumes "\<forall>n \<in> set ls. n < 16" "max_length ls = 0"
  shows "huffman_init ls = InitOk huffman_empty"
  using count_lengths_counts [OF assms(1), of "replicate 16 0"] assms(2)
  by (auto simp: huffman_init_def MAX_CODE_LEN_def)

lemma huffman_empty_wf: "wf_table 512 0 huffman_empty"
proof -
  have "\<not> 512 \<le> reverse_bits 9 k" for k using reverse_bits_less [of 9 k] by (simp add: not_le)
  then show ?thesis by (simp add: wf_table_def huffman_empty_def HUFFMAN_NUM_CHUNKS_def)
qed

text \<open>A table that answers every lookup.\<close>

definition huff_safe :: "huffman \<Rightarrow> bool" where
  "huff_safe h \<longleftrightarrow> (\<forall>b. huff_lookup h b \<noteq> None)"

lemma wf_table_safe: "wf_table link m h \<Longrightarrow> huff_safe h"
  by (simp add: huff_safe_def wf_table_lookup)

text \<open>Lengths below sixteen never make the construction or a later lookup panic.\<close>

lemma huffman_init_safe:
  assumes "\<forall>n \<in> set ls. n < 16"
  shows "huffman_init ls \<noteq> InitPanic \<and> (\<forall>h. huffman_init ls = InitOk h \<longrightarrow> huff_safe h)"
proof (cases "max_length ls = 0")
  case True
  then show ?thesis using huffman_init_zero [OF assms True] wf_table_safe [OF huffman_empty_wf] by simp
next
  case False
  then show ?thesis
    using huffman_init_complete [OF assms False] huffman_init_incomplete [OF assms False] wf_table_safe
    by (cases "code_complete ls") (metis init_result.inject init_result.distinct)+
qed

lemma huffman_init_lengths: "huffman_init ls = InitOk h \<Longrightarrow> \<forall>n \<in> set ls. n < 16"
  using count_lengths_None [of _ ls "replicate MAX_CODE_LEN 0"] by (force simp: huffman_init_def not_less)

lemma huffman_init_ok:
  assumes "huffman_init ls = InitOk h" "k < length ls" "ls ! k \<noteq> 0"
  shows "code_complete ls" "wf_table (link_of ls) (max_length ls - 9) h" "inserts_all ls 0 (start_table ls) h"
proof -
  have small: "\<forall>n \<in> set ls. n < 16" by (rule huffman_init_lengths [OF assms(1)])
  have mx: "max_length ls \<noteq> 0" using max_length_ge [OF nth_mem [OF assms(2)]] assms(3) by simp
  show c: "code_complete ls" using huffman_init_incomplete [OF small mx] assms(1) by auto
  show "wf_table (link_of ls) (max_length ls - 9) h" "inserts_all ls 0 (start_table ls) h"
    using huffman_init_complete [OF small mx c] assms(1) by (metis init_result.inject)+
qed

lemma canonical_code_less:
  assumes "code_complete ls" "k < length ls" "ls ! k \<noteq> 0"
  shows "canonical_code ls k < 2 ^ (ls ! k)"
  using canonical_code_bounds(2) [OF assms(2,3)] code_complete_kraft [OF assms(1) max_length_ge [OF nth_mem [OF assms(2)]]]
  by linarith

lemma huffman_init_min:
  assumes "huffman_init ls = InitOk h" "k < length ls" "ls ! k \<noteq> 0"
  shows "hu_min h \<le> ls ! k"
  using huffman_init_ok(3) [OF assms] start_table_wf(2) [OF huffman_init_ok(1) [OF assms]] min_length_le [of "ls ! k" ls] assms
  by (simp add: inserts_all_def)

text \<open>A complete code has a symbol for all bits.\<close>

lemma bl_count_rank:
  "r < bl_count ls n \<Longrightarrow> \<exists>k < length ls. ls ! k = n \<and> bl_count (take k ls) n = r"
proof (induction ls arbitrary: r)
  case (Cons x xs)
  show ?case
  proof (cases "x = n \<and> n \<noteq> 0")
    case True
    show ?thesis
    proof (cases r)
      case 0
      with True show ?thesis by (intro exI [of _ 0]) simp
    next
      case (Suc r')
      with True Cons obtain k where "k < length xs" "xs ! k = n" "bl_count (take k xs) n = r'"
        by (auto simp: bl_count_Cons)
      with True Suc show ?thesis by (intro exI [of _ "Suc k"]) (simp add: bl_count_Cons)
    qed
  next
    case False
    with Cons obtain k where "k < length xs" "xs ! k = n" "bl_count (take k xs) n = r"
      by (auto simp: bl_count_Cons split: if_splits)
    with False show ?thesis by (intro exI [of _ "Suc k"]) (auto simp: bl_count_Cons)
  qed
qed simp

lemma reverse_bits_Suc_div: "reverse_bits (Suc n) b div 2 = reverse_bits n b"
  using reverse_bits_div [of n "Suc n" b] by simp

lemma code_matches_below:
  "reverse_bits n b < first_code ls n + bl_count ls n \<Longrightarrow> \<exists>k. code_matches ls k b"
proof (induction n)
  case (Suc n)
  show ?case
  proof (cases "reverse_bits (Suc n) b < first_code ls (Suc n)")
    case True
    then have "reverse_bits n b < first_code ls n + bl_count ls n"
      using reverse_bits_Suc_div [of n b] by simp
    then show ?thesis by (rule Suc.IH)
  next
    case False
    then have "reverse_bits (Suc n) b - first_code ls (Suc n) < bl_count ls (Suc n)" using Suc.prems by simp
    then obtain k where "k < length ls" "ls ! k = Suc n"
        "bl_count (take k ls) (Suc n) = reverse_bits (Suc n) b - first_code ls (Suc n)"
      using bl_count_rank by blast
    then have "code_matches ls k b"
      using False unfolding code_matches_def canonical_code_def by (metis Suc_neq_Zero le_add_diff_inverse not_less)
    then show ?thesis by blast
  qed
qed (simp add: bl_count_def)

lemma complete_code_matches:
  assumes "first_code ls (max_length ls) + bl_count ls (max_length ls) = 2 ^ max_length ls"
  obtains k where "code_matches ls k b"
  using code_matches_below [of "max_length ls" b ls] reverse_bits_less [of "max_length ls" b] assms by auto

text \<open>
  C32. The tables built from a list of code lengths decode the canonical code of RFC 1951: whenever the
  construction succeeds, the bits that start with the code of a symbol, sent from its highest bit on,
  look up the cell of exactly this symbol and its length, in the first table or through a link.
\<close>

theorem huffman_table_canonical:
  assumes "huffman_init ls = InitOk h" "k < length ls" "ls ! k \<noteq> 0"
    "b mod 2 ^ (ls ! k) = reverse_bits (ls ! k) (canonical_code ls k)"
  shows "huff_lookup h b = Some (cell k (ls ! k))"
proof -
  have "code_matches ls k b"
    using assms reverse_bits_match [OF canonical_code_less [OF huffman_init_ok(1) [OF assms(1-3)] assms(2,3)]]
    by (simp add: code_matches_def)
  then show ?thesis using huffman_init_ok(3) [OF assms(1-3)] by (simp add: inserts_all_def)
qed

lemma first_code_numeral:
  "first_code ls (numeral n) = 2 * (first_code ls (pred_numeral n) + bl_count ls (pred_numeral n))"
  by (simp add: numeral_eq_Suc)

lemma reverse_bits_numeral:
  "reverse_bits (numeral n) v = v mod 2 * 2 ^ pred_numeral n + reverse_bits (pred_numeral n) (v div 2)"
  by (simp add: numeral_eq_Suc)

theorem huffman_table_canonical_witness:
  "\<exists>h. huffman_init [1, 2, 3, 4, 5, 6, 7, 8, 9, 10, 10] = InitOk h \<and> huff_lookup h 1023 = Some (cell 10 10)"
proof -
  let ?ls = "[1, 2, 3, 4, 5, 6, 7, 8, 9, 10, 10] :: nat list"
  have mx: "max_length ?ls = 10" by (simp add: max_length_def)
  have "code_complete ?ls" unfolding code_complete_def mx Let_def by (simp add: bl_count_def first_code_numeral)
  then obtain h where h: "huffman_init ?ls = InitOk h" using huffman_init_complete [of ?ls] mx by auto
  have "canonical_code ?ls 10 = 1023" by (simp add: canonical_code_def bl_count_def first_code_numeral)
  moreover have "reverse_bits 10 1023 = 1023" by (simp add: reverse_bits_numeral)
  ultimately have "huff_lookup h 1023 = Some (cell 10 10)" using huffman_table_canonical [OF h, of 10 1023] by simp
  with h show ?thesis by blast
qed

end
