(* ===== verification/Inflate.thy ===== *)
theory Inflate
  imports Huffman_Table
begin

unbundle bit_operations_syntax

text \<open>
  \<^verbatim>\<open>symvault-sync/src/goflate.rs\<close>: the decompressor for deflate streams, with its lazy bit reader, its
  blocks and its output cap; the Huffman tables are in the theory before this one. Bits are natural
  numbers; where the source could lose bits (\<open>u32\<close> shifts) the truncation is written out. An index out of
  range is the outcome \<open>FlatePanic\<close>, which is no variant of the source. A step that can stop returns the
  reason on the left, with the state it leaves behind.
\<close>

section \<open>Constants and outcomes\<close>

definition MAX_NUM_LIT :: nat where "MAX_NUM_LIT = 286"
definition MAX_NUM_DIST :: nat where "MAX_NUM_DIST = 30"
definition NUM_CODES :: nat where "NUM_CODES = 19"
definition END_BLOCK_MARKER :: nat where "END_BLOCK_MARKER = 256"
definition HISTORY :: nat where "HISTORY = 32 * 1024"

definition CODE_ORDER :: "nat list" where
  "CODE_ORDER = [16, 17, 18, 0, 8, 7, 9, 6, 10, 5, 11, 4, 12, 3, 13, 2, 14, 1, 15]"

datatype flate_end = Eof | UnexpectedEof | Corrupt nat | Capped | FlatePanic

section \<open>The bit reader\<close>

record inflater =
  fl_input :: "nat list"
  fl_roffset :: nat
  fl_b :: nat
  fl_nb :: nat
  fl_out :: "nat list"
  fl_max_out :: nat
  fl_h1 :: huffman
  fl_h2 :: huffman
  fl_bits :: "nat list"
  fl_codebits :: "nat list"

type_synonym 'a flate_step = "(flate_end + 'a) \<times> inflater"

definition read_byte :: "inflater \<Rightarrow> nat option \<times> inflater" where
  "read_byte S =
     (if fl_roffset S < length (fl_input S)
      then (Some (fl_input S ! fl_roffset S), S\<lparr>fl_roffset := fl_roffset S + 1\<rparr>) else (None, S))"

definition more_bits :: "inflater \<Rightarrow> unit flate_step" where
  "more_bits S =
     (case read_byte S of
        (None, S') \<Rightarrow> (Inl UnexpectedEof, S')
      | (Some c, S') \<Rightarrow>
          (Inr (), S'\<lparr>fl_b := fl_b S' OR take_bit 32 (push_bit (fl_nb S' AND 31) c), fl_nb := fl_nb S' + 8\<rparr>))"

function need :: "nat \<Rightarrow> inflater \<Rightarrow> unit flate_step" where
  "need bits S =
     (if fl_nb S < bits
      then (case more_bits S of (Inl e, S') \<Rightarrow> (Inl e, S') | (Inr _, S') \<Rightarrow> need bits S')
      else (Inr (), S))"
  by pat_completeness auto
termination
  by (relation "measure (\<lambda>(bits, S). bits - fl_nb S)")
    (auto simp: more_bits_def read_byte_def split: if_splits)

declare need.simps [simp del]

text \<open>The bits and bytes that are left.\<close>

definition bytes_left :: "inflater \<Rightarrow> nat" where
  "bytes_left S = length (fl_input S) - fl_roffset S"

definition bits_left :: "inflater \<Rightarrow> nat" where
  "bits_left S = 8 * bytes_left S + fl_nb S"

text \<open>What reading does not touch.\<close>

definition same_frame :: "inflater \<Rightarrow> inflater \<Rightarrow> bool" where
  "same_frame S S' \<longleftrightarrow>
     fl_input S' = fl_input S \<and> fl_max_out S' = fl_max_out S \<and> fl_out S' = fl_out S \<and>
     fl_h1 S' = fl_h1 S \<and> fl_h2 S' = fl_h2 S \<and> fl_bits S' = fl_bits S \<and> fl_codebits S' = fl_codebits S"

definition offset_ok :: "inflater \<Rightarrow> bool" where
  "offset_ok S \<longleftrightarrow> fl_roffset S \<le> length (fl_input S)"

text \<open>The states a reader reaches by fetching bytes only.\<close>

inductive fetches :: "inflater \<Rightarrow> inflater \<Rightarrow> bool" where
  none: "fetches S S"
| more: "more_bits S = (Inr u, T) \<Longrightarrow> fetches T U \<Longrightarrow> fetches S U"

lemma fetches_trans: "fetches S T \<Longrightarrow> fetches T U \<Longrightarrow> fetches S U"
  by (induction rule: fetches.induct) (auto intro: fetches.intros)

lemma more_bits_left:
  "more_bits S = (Inr u, S') \<Longrightarrow> bits_left S' = bits_left S \<and> bytes_left S' < bytes_left S \<and> fl_nb S' = fl_nb S + 8"
  by (auto simp: more_bits_def read_byte_def bits_left_def bytes_left_def split: if_splits)

lemma more_bits_frame: "more_bits S = (r, S') \<Longrightarrow> same_frame S S' \<and> offset_ok S' = offset_ok S"
  by (auto simp: more_bits_def read_byte_def same_frame_def offset_ok_def split: if_splits)

lemma more_bits_stop: "more_bits S = (Inl e, S') \<Longrightarrow> e = UnexpectedEof \<and> S' = S \<and> bytes_left S = 0"
  by (auto simp: more_bits_def read_byte_def bytes_left_def split: if_splits)

lemma fetches_left: "fetches S T \<Longrightarrow> bits_left T = bits_left S \<and> bytes_left T \<le> bytes_left S"
  by (induction rule: fetches.induct) (fastforce dest: more_bits_left)+

lemma fetches_frame: "fetches S T \<Longrightarrow> same_frame S T \<and> offset_ok T = offset_ok S"
  by (induction rule: fetches.induct) (auto simp: same_frame_def dest!: more_bits_frame)

text \<open>Reading up to a number of bits fetches them all, or ends at the end of the input.\<close>

lemma need_cases:
  "need n S = (r, T) \<Longrightarrow>
   fetches S T \<and> (case r of Inl e \<Rightarrow> e = UnexpectedEof \<and> bytes_left T = 0 \<and> fl_nb T < n | Inr _ \<Rightarrow> n \<le> fl_nb T)"
proof (induction n S rule: need.induct)
  case (1 n S)
  consider "\<not> fl_nb S < n" | e U where "fl_nb S < n" "more_bits S = (Inl e, U)"
    | u U where "fl_nb S < n" "more_bits S = (Inr u, U)"
    by (cases "more_bits S") (metis sum.exhaust)
  then show ?case
  proof cases
    case 1
    with "1.prems" show ?thesis by (subst (asm) need.simps) (auto intro: fetches.none)
  next
    case 2
    with "1.prems" show ?thesis
      by (subst (asm) need.simps) (auto intro: fetches.none dest!: more_bits_stop)
  next
    case 3
    with "1.prems" have "need n U = (r, T)" by (subst (asm) need.simps) simp
    with "1.IH" [OF 3(1) 3(2) [symmetric]] 3(2) show ?thesis by (auto intro: fetches.more)
  qed
qed

lemma need_fetches: "need n S = (Inr u, T) \<Longrightarrow> fetches S T \<and> n \<le> fl_nb T"
  by (drule need_cases) simp

lemma need_grows: "need n S = (Inr u, T) \<Longrightarrow> fl_nb S < n \<Longrightarrow> bytes_left T < bytes_left S"
  using need_cases [of n S "Inr u" T] fetches_left [of S T] by (auto simp: bits_left_def)

text \<open>The low bits, and the state without them.\<close>

definition low_bits :: "nat \<Rightarrow> inflater \<Rightarrow> nat" where
  "low_bits n S = fl_b S AND (2 ^ n - 1)"

definition drop_bits :: "nat \<Rightarrow> inflater \<Rightarrow> inflater" where
  "drop_bits n S = S\<lparr>fl_b := drop_bit n (fl_b S), fl_nb := fl_nb S - n\<rparr>"

lemma drop_bits_left: "n \<le> fl_nb S \<Longrightarrow> bits_left (drop_bits n S) + n = bits_left S"
  by (simp add: drop_bits_def bits_left_def bytes_left_def)

lemma drop_bits_frame [simp]: "same_frame S (drop_bits n S)" "offset_ok (drop_bits n S) = offset_ok S"
  by (simp_all add: drop_bits_def same_frame_def offset_ok_def)

text \<open>The question mark operator: a step that stopped keeps its reason and its state.\<close>

definition flate_bind :: "'a flate_step \<Rightarrow> ('a \<Rightarrow> inflater \<Rightarrow> 'b flate_step) \<Rightarrow> 'b flate_step" where
  "flate_bind m k = (case m of (Inl e, S) \<Rightarrow> (Inl e, S) | (Inr x, S) \<Rightarrow> k x S)"

lemma flate_bind_cong [fundef_cong]:
  "m = m' \<Longrightarrow> (\<And>x S. m' = (Inr x, S) \<Longrightarrow> k x S = k' x S) \<Longrightarrow> flate_bind m k = flate_bind m' k'"
  by (simp add: flate_bind_def split: prod.splits sum.splits)

lemma flate_bind_simps [simp]:
  "flate_bind (Inl e, S) k = (Inl e, S)" "flate_bind (Inr x, S) k = k x S"
  by (simp_all add: flate_bind_def)

lemma flate_bind_eqE:
  assumes "flate_bind m k = (r, S')"
  obtains (stop) e where "m = (Inl e, S')" "r = Inl e"
  | (step) x S where "m = (Inr x, S)" "k x S = (r, S')"
  using assms by (auto simp: flate_bind_def split: prod.splits sum.splits)

section \<open>Decoding a symbol\<close>

function huff_loop :: "huffman \<Rightarrow> nat \<Rightarrow> inflater \<Rightarrow> nat flate_step" where
  "huff_loop h n S =
     flate_bind (need n S) (\<lambda>_ S.
       case huff_lookup h (fl_b S) of
         None \<Rightarrow> (Inl FlatePanic, S)
       | Some chunk \<Rightarrow>
           (if cell_count chunk \<le> fl_nb S
            then (if cell_count chunk = 0 then (Inl (Corrupt (fl_roffset S)), S)
                  else (Inr (cell_value chunk), drop_bits (cell_count chunk) S))
            else huff_loop h (cell_count chunk) S))"
  by pat_completeness auto
termination
proof (relation "measure (\<lambda>(h, n, S). 2 * bytes_left S + (if fl_nb S < n then 0 else 1))", goal_cases)
  case (2 h n S u S' chunk)
  then show ?case using need_fetches [OF 2(1)] need_grows [OF 2(1)] fetches_left [of S S'] by auto
qed simp

declare huff_loop.simps [simp del]

definition huff_sym :: "huffman \<Rightarrow> inflater \<Rightarrow> nat flate_step" where
  "huff_sym h S = huff_loop h (hu_min h) S"

text \<open>
  Decoding fetches bytes, and then either runs out of input or looks up a cell whose bits it has.
\<close>

lemma huff_loop_cases:
  assumes "huff_loop h n S = (r, S')"
  obtains (eof) "fetches S S'" "bytes_left S' = 0" "r = Inl UnexpectedEof"
  | (panic) "fetches S S'" "huff_lookup h (fl_b S') = None" "r = Inl FlatePanic"
  | (corrupt) c where "fetches S S'" "huff_lookup h (fl_b S') = Some c" "cell_count c = 0" "r = Inl (Corrupt (fl_roffset S'))"
  | (symbol) c T where "fetches S T" "huff_lookup h (fl_b T) = Some c" "0 < cell_count c" "cell_count c \<le> fl_nb T"
      "r = Inr (cell_value c)" "S' = drop_bits (cell_count c) T"
  using assms
proof (induction h n S arbitrary: thesis rule: huff_loop.induct)
  case (1 h n S)
  from "1.prems"(5) show ?case
  proof (subst (asm) huff_loop.simps, elim flate_bind_eqE)
    fix e assume "need n S = (Inl e, S')" "r = Inl e"
    then show thesis using need_cases [of n S "Inl e" S'] "1.prems"(1) by simp
  next
    fix u T
    assume T: "need n S = (Inr u, T)"
      and k: "(case huff_lookup h (fl_b T) of None \<Rightarrow> (Inl FlatePanic, T)
         | Some chunk \<Rightarrow>
             if cell_count chunk \<le> fl_nb T
             then if cell_count chunk = 0 then (Inl (Corrupt (fl_roffset T)), T)
                  else (Inr (cell_value chunk), drop_bits (cell_count chunk) T)
             else huff_loop h (cell_count chunk) T) = (r, S')"
    have f: "fetches S T" using need_fetches [OF T] by simp
    show thesis
    proof (cases "huff_lookup h (fl_b T)")
      case None
      with k f show thesis using "1.prems"(2) by simp
    next
      case (Some c)
      show thesis
      proof (cases "cell_count c \<le> fl_nb T")
        case True
        with k f Some show thesis using "1.prems"(3) [of c] "1.prems"(4) [of T c] by (auto split: if_splits)
      next
        case False
        with k Some have "huff_loop h (cell_count c) T = (r, S')" by simp
        from "1.IH" [OF T Some False _ _ _ _ this] show thesis
          using "1.prems"(1,2,3,4) fetches_trans [OF f] by metis
      qed
    qed
  qed
qed

text \<open>A decoded symbol costs at least one bit.\<close>

lemma huff_loop_ok: "huff_loop h n S = (Inr v, S') \<Longrightarrow> bits_left S' < bits_left S"
  by (erule huff_loop_cases) (auto dest!: fetches_left drop_bits_left)

lemma huff_loop_frame: "huff_loop h n S = (r, S') \<Longrightarrow> same_frame S S' \<and> offset_ok S' = offset_ok S"
  by (erule huff_loop_cases) (auto dest!: fetches_frame simp: same_frame_def drop_bits_def offset_ok_def)

section \<open>The tables of a dynamic block\<close>

definition corrupt :: "inflater \<Rightarrow> 'a flate_step" where
  "corrupt S = (Inl (Corrupt (fl_roffset S)), S)"

text \<open>Three bits for each of the slots.\<close>

fun read_codebits :: "nat list \<Rightarrow> inflater \<Rightarrow> unit flate_step" where
  "read_codebits [] S = (Inr (), S)"
| "read_codebits (slot # slots) S =
     flate_bind (need 3 S) (\<lambda>_ S.
       read_codebits slots (drop_bits 3 (S\<lparr>fl_codebits := (fl_codebits S)[slot := low_bits 3 S]\<rparr>)))"

definition clear_codebits :: "nat list \<Rightarrow> inflater \<Rightarrow> inflater" where
  "clear_codebits slots S = S\<lparr>fl_codebits := fold (\<lambda>slot bits. bits[slot := 0]) slots (fl_codebits S)\<rparr>"

text \<open>A repetition code: its least number of repeats, its extra bits and the length it repeats.\<close>

definition repeat_code :: "nat \<Rightarrow> nat \<Rightarrow> nat list \<Rightarrow> nat \<times> nat \<times> nat" where
  "repeat_code x i bits =
     (if x = 16 then (3, 2, bits ! (i - 1)) else if x = 17 then (3, 3, 0) else (11, 7, 0))"

definition set_lengths :: "nat \<Rightarrow> nat \<Rightarrow> nat \<Rightarrow> nat list \<Rightarrow> nat list" where
  "set_lengths i rep b bits = fold (\<lambda>k bs. bs[k := b]) [i ..< i + rep] bits"

text \<open>The lengths one symbol stands for; the value is the index after them.\<close>

definition length_step :: "nat \<Rightarrow> nat \<Rightarrow> inflater \<Rightarrow> nat flate_step" where
  "length_step n i S =
     flate_bind (huff_sym (fl_h1 S) S) (\<lambda>x S.
       if x < 16 then (Inr (i + 1), S\<lparr>fl_bits := (fl_bits S)[i := x]\<rparr>)
       else if x = 16 \<and> i = 0 then corrupt S
       else (let (rep0, nb, b) = repeat_code x i (fl_bits S)
             in flate_bind (need nb S) (\<lambda>_ S.
                  let rep = rep0 + low_bits nb S; S' = drop_bits nb S
                  in if n < i + rep then corrupt S'
                     else (Inr (i + rep), S'\<lparr>fl_bits := set_lengths i rep b (fl_bits S')\<rparr>))))"

lemma length_step_index: "length_step n i S = (Inr j, T) \<Longrightarrow> i < n \<Longrightarrow> i < j \<and> j \<le> n"
  by (auto simp: length_step_def corrupt_def repeat_code_def Let_def elim!: flate_bind_eqE split: if_splits prod.splits)

function read_lengths :: "nat \<Rightarrow> nat \<Rightarrow> inflater \<Rightarrow> unit flate_step" where
  "read_lengths n i S =
     (if i < n then flate_bind (length_step n i S) (\<lambda>j S. read_lengths n j S) else (Inr (), S))"
  by pat_completeness auto
termination
  by (relation "measure (\<lambda>(n, i, S). n - i)") (auto dest: length_step_index)

declare read_lengths.simps [simp del]

definition raise_min :: "nat \<Rightarrow> huffman \<Rightarrow> huffman" where
  "raise_min m h = (if hu_min h < m then h\<lparr>hu_min := m\<rparr> else h)"

definition init_h1 :: "nat list \<Rightarrow> inflater \<Rightarrow> unit flate_step" where
  "init_h1 lengths S =
     (case huffman_init lengths of
        InitPanic \<Rightarrow> (Inl FlatePanic, S)
      | InitBad \<Rightarrow> corrupt (S\<lparr>fl_h1 := huffman_empty\<rparr>)
      | InitOk h \<Rightarrow> (Inr (), S\<lparr>fl_h1 := h\<rparr>))"

definition init_h2 :: "nat list \<Rightarrow> inflater \<Rightarrow> unit flate_step" where
  "init_h2 lengths S =
     (case huffman_init lengths of
        InitPanic \<Rightarrow> (Inl FlatePanic, S)
      | InitBad \<Rightarrow> corrupt (S\<lparr>fl_h2 := huffman_empty\<rparr>)
      | InitOk h \<Rightarrow> (Inr (), S\<lparr>fl_h2 := h\<rparr>))"

definition init_tables :: "nat \<Rightarrow> nat \<Rightarrow> inflater \<Rightarrow> unit flate_step" where
  "init_tables nlit ndist S =
     flate_bind (init_h1 (take nlit (fl_bits S)) S) (\<lambda>_ S.
     flate_bind (init_h2 (take ndist (drop nlit (fl_bits S))) S) (\<lambda>_ S.
       (Inr (), S\<lparr>fl_h1 := raise_min (fl_bits S ! END_BLOCK_MARKER) (fl_h1 S)\<rparr>)))"

definition shift_b :: "nat \<Rightarrow> inflater \<Rightarrow> inflater" where
  "shift_b n S = S\<lparr>fl_b := drop_bit n (fl_b S)\<rparr>"

text \<open>The numbers of literal lengths, distance lengths and code lengths.\<close>

definition read_header :: "inflater \<Rightarrow> (nat \<times> nat \<times> nat) flate_step" where
  "read_header S =
     flate_bind (need (5 + 5 + 4) S) (\<lambda>_ S.
       let nlit = low_bits 5 S + 257
       in if MAX_NUM_LIT < nlit then corrupt S
          else (let S = shift_b 5 S; ndist = low_bits 5 S + 1
                in if MAX_NUM_DIST < ndist then corrupt S
                   else (let S = shift_b 5 S; nclen = low_bits 4 S + 4; S = shift_b 4 S
                         in (Inr (nlit, ndist, nclen), S\<lparr>fl_nb := fl_nb S - (5 + 5 + 4)\<rparr>))))"

definition read_code_table :: "nat \<Rightarrow> inflater \<Rightarrow> unit flate_step" where
  "read_code_table nclen S =
     flate_bind (read_codebits (take nclen CODE_ORDER) S) (\<lambda>_ S.
       let S = clear_codebits (drop nclen CODE_ORDER) S in init_h1 (fl_codebits S) S)"

definition read_huffman :: "inflater \<Rightarrow> unit flate_step" where
  "read_huffman S =
     flate_bind (read_header S) (\<lambda>(nlit, ndist, nclen) S.
     flate_bind (read_code_table nclen S) (\<lambda>_ S.
     flate_bind (read_lengths (nlit + ndist) 0 S) (\<lambda>_ S. init_tables nlit ndist S)))"

section \<open>A block of symbols\<close>

definition full :: "inflater \<Rightarrow> bool" where
  "full S \<longleftrightarrow> fl_max_out S < length (fl_out S)"

text \<open>The length a symbol starts from, and its extra bits.\<close>

definition match_length :: "nat \<Rightarrow> (nat \<times> nat) option" where
  "match_length v =
     (if v \<le> 264 then Some (v - (257 - 3), 0)
      else if v \<le> 268 then Some (v * 2 - (265 * 2 - 11), 1)
      else if v \<le> 272 then Some (v * 4 - (269 * 4 - 19), 2)
      else if v \<le> 276 then Some (v * 8 - (273 * 8 - 35), 3)
      else if v \<le> 280 then Some (v * 16 - (277 * 16 - 67), 4)
      else if v \<le> 284 then Some (v * 32 - (281 * 32 - 131), 5)
      else if v = 285 then Some (258, 0)
      else None)"

definition read_length :: "nat \<Rightarrow> inflater \<Rightarrow> nat flate_step" where
  "read_length v S =
     (case match_length v of
        None \<Rightarrow> corrupt S
      | Some (len, n) \<Rightarrow>
          (if 0 < n then flate_bind (need n S) (\<lambda>_ S. (Inr (len + low_bits n S), drop_bits n S))
           else (Inr len, S)))"

definition read_dist_code :: "huffman option \<Rightarrow> inflater \<Rightarrow> nat flate_step" where
  "read_dist_code hdist S =
     (case hdist of
        None \<Rightarrow> flate_bind (need 5 S) (\<lambda>_ S. (Inr (reverse_bits 8 (take_bit 8 (push_bit 3 (low_bits 5 S)))), drop_bits 5 S))
      | Some h \<Rightarrow> huff_sym h S)"

definition read_dist_extra :: "nat \<Rightarrow> inflater \<Rightarrow> nat flate_step" where
  "read_dist_extra dist S =
     (if dist < 4 then (Inr (dist + 1), S)
      else if dist < MAX_NUM_DIST
      then (let nb = drop_bit 1 (dist - 2); extra = push_bit nb (dist AND 1)
            in flate_bind (need nb S) (\<lambda>_ S. (Inr (2 ^ (nb + 1) + 1 + (extra OR low_bits nb S)), drop_bits nb S)))
      else corrupt S)"

fun copy_loop :: "nat \<Rightarrow> nat \<Rightarrow> nat list \<Rightarrow> nat list" where
  "copy_loop 0 start out = out"
| "copy_loop (Suc k) start out = copy_loop k (start + 1) (out @ [out ! start])"

definition copy_match :: "nat \<Rightarrow> nat \<Rightarrow> nat list \<Rightarrow> nat list" where
  "copy_match dist len out =
     (let start = length out - dist
      in if dist = 1 then out @ replicate len (out ! start)
         else if len \<le> dist then out @ take len (drop start out)
         else copy_loop len start out)"

text \<open>The distance and the length of a copy, whose source must lie within the history.\<close>

definition read_match :: "huffman option \<Rightarrow> nat \<Rightarrow> inflater \<Rightarrow> (nat \<times> nat) flate_step" where
  "read_match hdist v S =
     flate_bind (read_length v S) (\<lambda>len S.
     flate_bind (read_dist_code hdist S) (\<lambda>code S.
     flate_bind (read_dist_extra code S) (\<lambda>dist S.
       if min (length (fl_out S)) HISTORY < dist then corrupt S else (Inr (dist, len), S))))"

text \<open>One round of the loop; the value says whether another follows.\<close>

definition block_step :: "huffman \<Rightarrow> huffman option \<Rightarrow> inflater \<Rightarrow> bool flate_step" where
  "block_step hlit hdist S =
     (if full S then (Inl Capped, S)
      else flate_bind (huff_sym hlit S) (\<lambda>v S.
        if v \<le> 255 then (Inr True, S\<lparr>fl_out := fl_out S @ [v]\<rparr>)
        else if v = 256 then (Inr False, S)
        else flate_bind (read_match hdist v S) (\<lambda>(dist, len) S.
               (Inr True, S\<lparr>fl_out := copy_match dist len (fl_out S)\<rparr>))))"

section \<open>What reading keeps\<close>

definition reads :: "inflater \<Rightarrow> inflater \<Rightarrow> bool" where
  "reads S T \<longleftrightarrow> same_frame S T \<and> offset_ok T = offset_ok S \<and> bits_left T \<le> bits_left S"

text \<open>Why a step may stop.\<close>

definition stops :: "(flate_end \<Rightarrow> bool) \<Rightarrow> 'a flate_step \<Rightarrow> bool" where
  "stops P m \<longleftrightarrow> (case fst m of Inl e \<Rightarrow> P e | Inr _ \<Rightarrow> True)"

lemma reads_refl [simp]: "reads S S"
  by (simp add: reads_def same_frame_def)

lemma reads_trans: "reads S T \<Longrightarrow> reads T U \<Longrightarrow> reads S U"
  by (simp add: reads_def same_frame_def)

lemma reads_fetches: "fetches S T \<Longrightarrow> reads S T"
  by (auto simp: reads_def dest: fetches_left fetches_frame)

lemma reads_drop_bits [simp]: "reads S (drop_bits n S)"
  by (simp add: reads_def) (simp add: drop_bits_def bits_left_def bytes_left_def)

lemma flate_bind_reads:
  "reads S (snd m) \<Longrightarrow> (\<And>x T. m = (Inr x, T) \<Longrightarrow> reads T (snd (k x T))) \<Longrightarrow> reads S (snd (flate_bind m k))"
  by (cases m; cases "fst m") (auto intro: reads_trans)

lemma flate_bind_stops:
  "stops P m \<Longrightarrow> (\<And>x T. m = (Inr x, T) \<Longrightarrow> stops P (k x T)) \<Longrightarrow> stops P (flate_bind m k)"
  by (cases m; cases "fst m") (auto simp: stops_def)

lemma stops_corrupt [simp]: "stops P (corrupt S) = P (Corrupt (fl_roffset S))"
  by (simp add: stops_def corrupt_def)

lemma stops_pair [simp]: "stops P (Inr x, S)" "stops P (Inl e, S) = P e"
  by (simp_all add: stops_def)

lemma corrupt_reads [simp]: "snd (corrupt S) = S"
  by (simp add: corrupt_def)

lemma need_reads [simp]: "reads S (snd (need n S))"
  by (cases "need n S") (auto dest!: need_cases reads_fetches)

lemma need_stops: "P UnexpectedEof \<Longrightarrow> stops P (need n S)"
  by (cases "need n S") (auto simp: stops_def dest!: need_cases split: sum.splits)

lemma huff_sym_reads [simp]: "reads S (snd (huff_sym h S))"
proof -
  obtain r T where "huff_loop h (hu_min h) S = (r, T)" by fastforce
  moreover from this have "reads S T"
    by (cases rule: huff_loop_cases) (auto dest: reads_fetches intro: reads_trans)
  ultimately show ?thesis by (simp add: huff_sym_def)
qed

lemma read_length_reads [simp]: "reads S (snd (read_length v S))"
  by (auto simp: read_length_def intro!: flate_bind_reads split: option.splits)

lemma read_dist_code_reads [simp]: "reads S (snd (read_dist_code hdist S))"
  by (auto simp: read_dist_code_def intro!: flate_bind_reads split: option.splits)

lemma read_dist_extra_reads [simp]: "reads S (snd (read_dist_extra code S))"
  by (auto simp: read_dist_extra_def Let_def intro!: flate_bind_reads)

lemma read_match_reads [simp]: "reads S (snd (read_match hdist v S))"
  by (auto simp: read_match_def intro!: flate_bind_reads)

text \<open>Reading never reaches the end of the stream nor the output cap.\<close>

definition reading_end :: "flate_end \<Rightarrow> bool" where
  "reading_end e \<longleftrightarrow> e \<noteq> Eof \<and> e \<noteq> Capped"

lemma reading_end_simps [simp]:
  "reading_end UnexpectedEof" "reading_end (Corrupt n)" "reading_end FlatePanic" "\<not> reading_end Eof" "\<not> reading_end Capped"
  by (simp_all add: reading_end_def)

lemma huff_sym_stops [simp]: "stops reading_end (huff_sym h S)"
proof -
  obtain r T where "huff_loop h (hu_min h) S = (r, T)" by fastforce
  moreover from this have "stops reading_end (r, T)" by (cases rule: huff_loop_cases) simp_all
  ultimately show ?thesis by (simp add: huff_sym_def)
qed

lemma read_match_stops [simp]:
  "stops reading_end (read_length v S)" "stops reading_end (read_dist_code hdist S)" "stops reading_end (read_dist_extra code S)"
  "stops reading_end (read_match hdist v S)"
  by (auto simp: read_length_def read_dist_code_def read_dist_extra_def read_match_def Let_def
      intro!: flate_bind_stops need_stops split: option.splits)

section \<open>Copies\<close>

lemma length_copy_loop [simp]: "length (copy_loop k start out) = length out + k"
  by (induction k start out rule: copy_loop.induct) simp_all

lemma length_copy_match: "dist \<le> length out \<Longrightarrow> length (copy_match dist len out) = length out + len"
  by (auto simp: copy_match_def Let_def)

text \<open>A round reads, and then it adds one byte, ends the block or copies at most 258 bytes.\<close>

lemma match_length_le: "match_length v = Some (len, n) \<Longrightarrow> len + 2 ^ n \<le> 259"
  by (auto simp: match_length_def split: if_splits)

lemma low_bits_mod: "low_bits n S = fl_b S mod 2 ^ n"
  unfolding low_bits_def by (rule and_low_mod)

lemma low_bits_less: "low_bits n S < 2 ^ n"
  by (simp add: low_bits_mod)

lemma read_length_le:
  assumes "read_length v S = (Inr len, T)"
  shows "len \<le> 258"
  using assms
  apply (auto simp: read_length_def corrupt_def split: option.splits if_splits elim!: flate_bind_eqE dest!: match_length_le)
  subgoal for a b U
    using low_bits_less [of b U] by linarith
  done

lemma bits_left_out [simp]: "bits_left (S\<lparr>fl_out := xs\<rparr>) = bits_left S" "offset_ok (S\<lparr>fl_out := xs\<rparr>) = offset_ok S"
  by (simp_all add: bits_left_def bytes_left_def offset_ok_def)

lemma readsD: "m = (r, T) \<Longrightarrow> reads S (snd m) \<Longrightarrow> reads S T"
  by simp

lemma stopsD: "m = (Inl e, T) \<Longrightarrow> stops P m \<Longrightarrow> P e"
  by simp

lemma readsE:
  assumes "m = (r, T)" "reads S (snd m)"
  obtains "reads S T" "fl_out T = fl_out S" "bits_left T \<le> bits_left S"
  using assms by (auto simp: reads_def same_frame_def)

lemma read_match_le: "read_match hdist v S = (Inr (dist, len), T) \<Longrightarrow> len \<le> 258 \<and> dist \<le> length (fl_out T)"
  by (auto simp: read_match_def corrupt_def elim!: flate_bind_eqE split: if_splits dest!: read_length_le)

text \<open>What a round does: it stops with the output as it was, or it reads on and adds output.\<close>

lemma block_step_cases:
  assumes "block_step hlit hdist S = (r, T)"
  obtains (capped) "full S" "r = Inl Capped" "T = S"
  | (stop) e where "\<not> full S" "r = Inl e" "reading_end e" "reads S T"
  | (last) "\<not> full S" "r = Inr False" "reads S T" "bits_left T < bits_left S"
  | (literal) v U where "\<not> full S" "r = Inr True" "huff_sym hlit S = (Inr v, U)" "v \<le> 255" "reads S U"
      "bits_left U < bits_left S" "T = U\<lparr>fl_out := fl_out S @ [v]\<rparr>"
  | (match) dist len U where "\<not> full S" "r = Inr True" "reads S U" "bits_left U < bits_left S" "len \<le> 258"
      "dist \<le> length (fl_out S)" "T = U\<lparr>fl_out := copy_match dist len (fl_out S)\<rparr>"
proof (cases "full S")
  case True
  with assms have "r = Inl Capped" "T = S" by (simp_all add: block_step_def)
  with True show thesis by (rule capped)
next
  case nf: False
  obtain r1 S1 where sym: "huff_sym hlit S = (r1, S1)" by fastforce
  obtain "reads S S1" "fl_out S1 = fl_out S" by (rule readsE [OF sym huff_sym_reads])
  note S1 = this
  show thesis
  proof (cases r1)
    case (Inl e)
    with sym nf assms have rT: "r = Inl e" "T = S1" by (auto simp: block_step_def)
    have "reading_end e" using stopsD [OF _ huff_sym_stops] sym Inl by metis
    from stop [OF nf rT(1) this] S1 rT(2) show thesis by simp
  next
    case (Inr v)
    have lt: "bits_left S1 < bits_left S" using sym Inr huff_loop_ok by (simp add: huff_sym_def)
    show thesis
    proof (cases "v \<le> 256")
      case True
      consider "v \<le> 255" | "v = 256" using True by linarith
      then show thesis
      proof cases
        case 1
        with assms nf sym Inr S1 have "r = Inr True" "T = S1\<lparr>fl_out := fl_out S @ [v]\<rparr>" by (auto simp: block_step_def)
        from literal [OF nf this(1) _ 1 S1(1) lt this(2)] sym Inr show thesis by simp
      next
        case 2
        with assms nf sym Inr have rT: "r = Inr False" "T = S1" by (auto simp: block_step_def)
        from last [OF nf rT(1)] S1 lt rT(2) show thesis by simp
      qed
    next
      case False
      obtain r2 S2 where m: "read_match hdist v S1 = (r2, S2)" by fastforce
      obtain S2: "reads S1 S2" "fl_out S2 = fl_out S1" "bits_left S2 \<le> bits_left S1" by (rule readsE [OF m read_match_reads])
      show thesis
      proof (cases r2)
        case (Inl e)
        with False m sym Inr nf assms have rT: "r = Inl e" "T = S2" by (auto simp: block_step_def)
        have "reading_end e" using stopsD [OF _ read_match_stops(4)] m Inl by metis
        from stop [OF nf rT(1) this] reads_trans [OF S1(1) S2(1)] rT(2) show thesis by simp
      next
        case i2: (Inr p)
        obtain dist len where p: "p = (dist, len)" by fastforce
        with m i2 read_match_le [of hdist v S1 dist len S2] S1 S2 have "len \<le> 258" "dist \<le> length (fl_out S)" by simp_all
        moreover from False m sym Inr i2 p S1 S2 nf assms
        have "r = Inr True" "T = S2\<lparr>fl_out := copy_match dist len (fl_out S)\<rparr>" by (auto simp: block_step_def)
        ultimately show thesis using match [OF nf _ reads_trans [OF S1(1) S2(1)]] S2(3) lt by simp
      qed
    qed
  qed
qed

text \<open>The loop of a block consumes bits in every round, so it ends.\<close>

lemma block_step_left: "block_step hlit hdist S = (Inr c, T) \<Longrightarrow> bits_left T < bits_left S"
  by (erule block_step_cases) simp_all

function huffman_loop :: "huffman \<Rightarrow> huffman option \<Rightarrow> inflater \<Rightarrow> unit flate_step" where
  "huffman_loop hlit hdist S =
     flate_bind (block_step hlit hdist S) (\<lambda>again S. if again then huffman_loop hlit hdist S else (Inr (), S))"
  by pat_completeness auto
termination
  by (relation "measure (\<lambda>(hlit, hdist, S). bits_left S)") (auto dest: block_step_left)

declare huffman_loop.simps [simp del]

definition huffman_block :: "bool \<Rightarrow> inflater \<Rightarrow> unit flate_step" where
  "huffman_block fixed S =
     (if fixed then huffman_loop fixed_decoder None S else huffman_loop (fl_h1 S) (Some (fl_h2 S)) S)"

section \<open>Stored blocks\<close>

text \<open>The size of the block and its complement, from the next whole byte on.\<close>

definition data_header :: "inflater \<Rightarrow> nat flate_step" where
  "data_header S =
     (let S = S\<lparr>fl_nb := 0, fl_b := 0\<rparr>; nr = min (length (fl_input S) - fl_roffset S) 4
      in if length (fl_input S) < fl_roffset S then (Inl FlatePanic, S)
         else (let header = take nr (drop (fl_roffset S) (fl_input S)); S = S\<lparr>fl_roffset := fl_roffset S + nr\<rparr>
               in if nr < 4 then (Inl UnexpectedEof, S)
                  else (let n = header ! 0 OR push_bit 8 (header ! 1); nn = header ! 2 OR push_bit 8 (header ! 3)
                        in if take_bit 16 nn \<noteq> 65535 - take_bit 16 n then corrupt S else (Inr n, S))))"

definition data_copy :: "nat \<Rightarrow> inflater \<Rightarrow> unit flate_step" where
  "data_copy n S =
     (let cnt = min (length (fl_input S) - fl_roffset S) n;
          room = (fl_max_out S + 1) - length (fl_out S);
          S = S\<lparr>fl_out := fl_out S @ take (min cnt room) (drop (fl_roffset S) (fl_input S)),
                fl_roffset := fl_roffset S + cnt\<rparr>
      in if full S then (Inl Capped, S) else if cnt < n then (Inl UnexpectedEof, S) else (Inr (), S))"

definition data_block :: "inflater \<Rightarrow> unit flate_step" where
  "data_block S = flate_bind (data_header S) (\<lambda>n S. if n = 0 then (Inr (), S) else data_copy n S)"

section \<open>The decoder\<close>

definition decode_block :: "nat \<Rightarrow> inflater \<Rightarrow> unit flate_step" where
  "decode_block typ S =
     (if typ = 0 then data_block S
      else if typ = 1 then huffman_block True S
      else if typ = 2 then flate_bind (read_huffman S) (\<lambda>_ S. huffman_block False S)
      else corrupt S)"

text \<open>The last-block flag and the type of a block.\<close>

definition block_header :: "inflater \<Rightarrow> (bool \<times> nat) flate_step" where
  "block_header S =
     flate_bind (need (1 + 2) S) (\<lambda>_ S.
       let final_block = (fl_b S AND 1 = 1); S = shift_b 1 S; typ = fl_b S AND 3; S = shift_b 2 S
       in (Inr (final_block, typ), S\<lparr>fl_nb := fl_nb S - (1 + 2)\<rparr>))"

text \<open>One block; the value says whether it was the last.\<close>

definition run_step :: "inflater \<Rightarrow> bool flate_step" where
  "run_step S =
     (if full S then (Inl Capped, S)
      else flate_bind (block_header S) (\<lambda>(final_block, typ) S.
           flate_bind (decode_block typ S) (\<lambda>_ S. (Inr final_block, S))))"

text \<open>Every step keeps the input and the cap, and never gives bits back; most leave the output alone.\<close>

definition advances :: "inflater \<Rightarrow> inflater \<Rightarrow> bool" where
  "advances S T \<longleftrightarrow>
     fl_input T = fl_input S \<and> fl_max_out T = fl_max_out S \<and> offset_ok T = offset_ok S \<and> bits_left T \<le> bits_left S"

definition quiet :: "inflater \<Rightarrow> inflater \<Rightarrow> bool" where
  "quiet S T \<longleftrightarrow> advances S T \<and> fl_out T = fl_out S"

lemma advances_refl [simp]: "advances S S"
  by (simp add: advances_def)

lemma quiet_refl [simp]: "quiet S S"
  by (simp add: quiet_def)

lemma advances_trans: "advances S T \<Longrightarrow> advances T U \<Longrightarrow> advances S U"
  by (simp add: advances_def)

lemma quiet_trans: "quiet S T \<Longrightarrow> quiet T U \<Longrightarrow> quiet S U"
  by (auto simp: quiet_def intro: advances_trans)

lemma reads_quiet: "reads S T \<Longrightarrow> quiet S T"
  by (simp add: reads_def quiet_def advances_def same_frame_def)

lemma flate_bind_quiet:
  "quiet S (snd m) \<Longrightarrow> (\<And>x T. m = (Inr x, T) \<Longrightarrow> quiet T (snd (k x T))) \<Longrightarrow> quiet S (snd (flate_bind m k))"
  by (cases m; cases "fst m") (auto intro: quiet_trans)

lemma flate_bind_advances:
  "advances S (snd m) \<Longrightarrow> (\<And>x T. m = (Inr x, T) \<Longrightarrow> advances T (snd (k x T))) \<Longrightarrow> advances S (snd (flate_bind m k))"
  by (cases m; cases "fst m") (auto intro: advances_trans)

lemma quiet_update [simp]:
  "quiet S (S\<lparr>fl_h1 := h\<rparr>)" "quiet S (S\<lparr>fl_h2 := h\<rparr>)" "quiet S (S\<lparr>fl_bits := xs\<rparr>)" "quiet S (S\<lparr>fl_codebits := xs\<rparr>)"
  "quiet S (drop_bits n S)" "quiet S (shift_b n S)" "quiet S (S\<lparr>fl_nb := fl_nb S - n\<rparr>)" "quiet S (clear_codebits slots S)"
  by (simp_all add: quiet_def advances_def offset_ok_def bits_left_def bytes_left_def drop_bits_def shift_b_def clear_codebits_def)

lemma need_quiet [simp]: "quiet S (snd (need n S))"
  by (rule reads_quiet) simp

lemma huff_sym_quiet [simp]: "quiet S (snd (huff_sym h S))"
  by (rule reads_quiet) simp

lemma init_quiet [simp]: "quiet S (snd (init_h1 lengths S))" "quiet S (snd (init_h2 lengths S))"
  by (simp_all add: init_h1_def init_h2_def split: init_result.splits)

lemma init_tables_quiet [simp]: "quiet S (snd (init_tables nlit ndist S))"
  unfolding init_tables_def by (intro flate_bind_quiet) simp_all

lemma read_codebits_quiet [simp]: "quiet S (snd (read_codebits slots S))"
proof (induction slots S rule: read_codebits.induct)
  case (2 slot slots S)
  show ?case
    by (simp, rule flate_bind_quiet) (auto intro!: quiet_trans [OF _ 2] quiet_trans [OF quiet_update(4) quiet_update(5)])
qed simp

lemma length_step_quiet [simp]: "quiet S (snd (length_step n i S))"
  unfolding length_step_def
  by (auto simp: Let_def split: prod.splits intro!: flate_bind_quiet quiet_trans [OF quiet_update(5) quiet_update(3)])

lemma read_lengths_quiet [simp]: "quiet S (snd (read_lengths n i S))"
proof (induction n i S rule: read_lengths.induct)
  case (1 n i S)
  then show ?case by (subst read_lengths.simps) (auto intro!: flate_bind_quiet)
qed

lemma quiet_shift_header: "quiet S (shift_b k (shift_b m (shift_b l S))\<lparr>fl_nb := fl_nb (shift_b k (shift_b m (shift_b l S))) - n\<rparr>)"
  by (simp add: quiet_def advances_def offset_ok_def bits_left_def bytes_left_def shift_b_def)

lemma read_header_quiet [simp]: "quiet S (snd (read_header S))"
  unfolding read_header_def Let_def by (rule flate_bind_quiet) (simp_all add: quiet_shift_header)

lemma read_code_table_quiet [simp]: "quiet S (snd (read_code_table nclen S))"
  unfolding read_code_table_def Let_def
  by (rule flate_bind_quiet) (auto intro: quiet_trans [OF quiet_update(8) init_quiet(1)])

lemma read_huffman_quiet [simp]: "quiet S (snd (read_huffman S))"
  unfolding read_huffman_def by (auto split: prod.splits intro!: flate_bind_quiet)

lemma init_stops [simp]: "stops reading_end (init_h1 lengths S)" "stops reading_end (init_h2 lengths S)"
  by (simp_all add: init_h1_def init_h2_def split: init_result.splits)

lemma init_tables_stops [simp]: "stops reading_end (init_tables nlit ndist S)"
  unfolding init_tables_def by (intro flate_bind_stops) simp_all

lemma read_codebits_stops [simp]: "stops reading_end (read_codebits slots S)"
  by (induction slots S rule: read_codebits.induct) (auto intro!: flate_bind_stops need_stops)

lemma length_step_stops [simp]: "stops reading_end (length_step n i S)"
  unfolding length_step_def by (auto simp: Let_def split: prod.splits intro!: flate_bind_stops need_stops)

lemma read_lengths_stops [simp]: "stops reading_end (read_lengths n i S)"
proof (induction n i S rule: read_lengths.induct)
  case (1 n i S)
  then show ?case by (subst read_lengths.simps) (auto intro!: flate_bind_stops)
qed

lemma read_huffman_stops [simp]: "stops reading_end (read_huffman S)"
  unfolding read_huffman_def read_header_def read_code_table_def
  by (auto simp: Let_def split: prod.splits intro!: flate_bind_stops need_stops)

text \<open>The output cap: a block ends at the cap exactly when its output passed it.\<close>

definition capped_ok :: "'a flate_step \<Rightarrow> bool" where
  "capped_ok m \<longleftrightarrow>
     length (fl_out (snd m)) \<le> fl_max_out (snd m) + 258 \<and> (fst m = Inl Capped \<longleftrightarrow> full (snd m)) \<and> fst m \<noteq> Inl Eof"

lemma advances_out [simp]: "advances S (T\<lparr>fl_out := xs\<rparr>) = advances S T"
  by (simp add: advances_def)

lemma block_step_advances [simp]: "advances S (snd (block_step hlit hdist S))"
proof -
  obtain r T where *: "block_step hlit hdist S = (r, T)" by fastforce
  then have "advances S T" by (cases rule: block_step_cases) (auto dest: reads_quiet simp: quiet_def)
  with * show ?thesis by simp
qed

lemma huffman_loop_advances [simp]: "advances S (snd (huffman_loop hlit hdist S))"
proof (induction hlit hdist S rule: huffman_loop.induct)
  case (1 hlit hdist S)
  then show ?case by (subst huffman_loop.simps) (auto intro!: flate_bind_advances)
qed

lemma huffman_loop_capped:
  "length (fl_out S) \<le> fl_max_out S + 258 \<Longrightarrow> capped_ok (huffman_loop hlit hdist S)"
proof (induction hlit hdist S rule: huffman_loop.induct)
  case (1 hlit hdist S)
  obtain r T where *: "block_step hlit hdist S = (r, T)" by fastforce
  have next_round: "capped_ok (huffman_loop hlit hdist T)"
    if "r = Inr True" "length (fl_out T) \<le> fl_max_out T + 258"
    using 1(1) [OF _ _ that(2)] * that(1) by simp
  from * show ?case
  proof (cases rule: block_step_cases)
    case capped
    with * 1(2) show ?thesis by (subst huffman_loop.simps) (simp add: capped_ok_def)
  next
    case (stop e)
    with * 1(2) show ?thesis
      by (subst huffman_loop.simps) (auto simp: capped_ok_def full_def reads_def same_frame_def reading_end_def)
  next
    case last
    with * 1(2) show ?thesis
      by (subst huffman_loop.simps) (auto simp: capped_ok_def full_def reads_def same_frame_def)
  next
    case (literal v U)
    then have "length (fl_out T) \<le> fl_max_out T + 258" by (simp add: full_def reads_def same_frame_def)
    with * literal(2) next_round show ?thesis by (subst huffman_loop.simps) simp
  next
    case (match dist len U)
    then have "length (fl_out T) \<le> fl_max_out T + 258"
      by (simp add: full_def reads_def same_frame_def length_copy_match)
    with * match(2) next_round show ?thesis by (subst huffman_loop.simps) simp
  qed
qed

lemma data_header_quiet [simp]: "quiet S (snd (data_header S))"
  by (auto simp: data_header_def Let_def corrupt_def quiet_def advances_def offset_ok_def bits_left_def bytes_left_def)

lemma data_header_stops [simp]: "stops reading_end (data_header S)"
  by (simp add: data_header_def Let_def)

lemma data_copy_advances [simp]: "advances S (snd (data_copy n S))"
  by (auto simp: data_copy_def Let_def advances_def offset_ok_def bits_left_def bytes_left_def)

lemma data_copy_capped: "\<not> full S \<Longrightarrow> capped_ok (data_copy n S)"
  by (auto simp: data_copy_def Let_def capped_ok_def full_def)

lemma data_block_advances [simp]: "advances S (snd (data_block S))"
  unfolding data_block_def using data_header_quiet by (auto simp: quiet_def intro!: flate_bind_advances)

text \<open>A step that leaves the output alone and may follow another that does.\<close>

lemma quiet_capped:
  "quiet S (snd m) \<Longrightarrow> stops reading_end m \<Longrightarrow> \<not> full S \<Longrightarrow> capped_ok m"
  by (cases m; cases "fst m") (auto simp: capped_ok_def quiet_def advances_def full_def reading_end_def)

lemma flate_bind_capped:
  "quiet S (snd m) \<Longrightarrow> stops reading_end m \<Longrightarrow> \<not> full S \<Longrightarrow>
   (\<And>x T. m = (Inr x, T) \<Longrightarrow> \<not> full T \<Longrightarrow> capped_ok (k x T)) \<Longrightarrow> capped_ok (flate_bind m k)"
  by (cases m; cases "fst m") (auto simp: capped_ok_def quiet_def advances_def full_def reading_end_def)

lemma capped_ok_done: "\<not> full S \<Longrightarrow> capped_ok (Inr x, S)"
  by (simp add: capped_ok_def full_def)

lemma data_block_capped: "\<not> full S \<Longrightarrow> capped_ok (data_block S)"
  unfolding data_block_def
  by (rule flate_bind_capped) (simp_all add: data_copy_capped capped_ok_done)

lemma huffman_block_capped: "\<not> full S \<Longrightarrow> capped_ok (huffman_block fixed S)"
  by (simp add: huffman_block_def huffman_loop_capped full_def)

lemma dynamic_block_capped: "\<not> full S \<Longrightarrow> capped_ok (flate_bind (read_huffman S) (\<lambda>_ S. huffman_block False S))"
  by (rule flate_bind_capped) (simp_all add: huffman_block_capped)

lemma decode_block_capped: "\<not> full S \<Longrightarrow> capped_ok (decode_block typ S)"
  unfolding decode_block_def
  by (simp add: data_block_capped huffman_block_capped dynamic_block_capped quiet_capped [of S "corrupt S"])

lemma decode_block_advances [simp]: "advances S (snd (decode_block typ S))"
  unfolding decode_block_def using read_huffman_quiet
  by (auto simp: huffman_block_def quiet_def intro!: flate_bind_advances)

lemma block_header_quiet [simp]: "quiet S (snd (block_header S))"
  unfolding block_header_def Let_def
proof (rule flate_bind_quiet)
  show "quiet T (snd (Inr (fl_b T AND 1 = 1, fl_b (shift_b 1 T) AND 3),
      shift_b 2 (shift_b 1 T)\<lparr>fl_nb := fl_nb (shift_b 2 (shift_b 1 T)) - (1 + 2)\<rparr>))" for T
    by (simp add: quiet_def advances_def offset_ok_def bits_left_def bytes_left_def shift_b_def)
qed simp

lemma block_header_stops [simp]: "stops reading_end (block_header S)"
  by (auto simp: block_header_def Let_def intro!: flate_bind_stops need_stops)

lemma block_header_left: "block_header S = (Inr x, T) \<Longrightarrow> bits_left T + 3 = bits_left S"
  by (auto simp: block_header_def shift_b_def bits_left_def bytes_left_def elim!: flate_bind_eqE dest!: need_fetches fetches_left)

lemma run_step_advances [simp]: "advances S (snd (run_step S))"
  unfolding run_step_def using block_header_quiet
  by (auto simp: quiet_def split: prod.splits intro!: flate_bind_advances)

lemma run_step_left:
  assumes "run_step S = (Inr x, T)"
  shows "bits_left T < bits_left S"
proof -
  obtain fin bt U where U: "block_header S = (Inr (fin, bt), U)" "decode_block bt U = (Inr (), T)"
    using assms by (auto simp: run_step_def elim!: flate_bind_eqE split: if_splits)
  have "bits_left T \<le> bits_left U" using decode_block_advances [of U bt] U(2) by (simp add: advances_def)
  with block_header_left [OF U(1)] show ?thesis by simp
qed

lemma flate_bind_capped_value: "capped_ok m \<Longrightarrow> capped_ok (flate_bind m (\<lambda>_ S. (Inr x, S)))"
  by (cases m; cases "fst m") (auto simp: capped_ok_def)

lemma run_step_capped: "length (fl_out S) \<le> fl_max_out S + 258 \<Longrightarrow> capped_ok (run_step S)"
  unfolding run_step_def
  by (auto simp: capped_ok_def [of "(Inl Capped, S)"] split: prod.splits
      intro!: flate_bind_capped flate_bind_capped_value decode_block_capped)

text \<open>Every block consumes bits, so the loop over the blocks ends.\<close>

function run :: "inflater \<Rightarrow> flate_end \<times> inflater" where
  "run S =
     (case run_step S of
        (Inl e, S) \<Rightarrow> (e, S)
      | (Inr final_block, S) \<Rightarrow> (if final_block then (Eof, S) else run S))"
  by pat_completeness auto
termination
  by (relation "measure bits_left") (auto dest!: run_step_left [OF sym])

declare run.simps [simp del]

definition inflater_init :: "nat list \<Rightarrow> nat \<Rightarrow> inflater" where
  "inflater_init inp max_out =
     \<lparr>fl_input = inp, fl_roffset = 0, fl_b = 0, fl_nb = 0, fl_out = [], fl_max_out = max_out,
      fl_h1 = huffman_empty, fl_h2 = huffman_empty,
      fl_bits = replicate (MAX_NUM_LIT + MAX_NUM_DIST) 0, fl_codebits = replicate NUM_CODES 0\<rparr>"

definition inflate :: "nat list \<Rightarrow> nat \<Rightarrow> nat list \<times> flate_end" where
  "inflate inp max_out = (let (e, S) = run (inflater_init inp max_out) in (fl_out S, e))"

lemma runE:
  assumes "run S = (e, T)"
  obtains (stop) "run_step S = (Inl e, T)"
  | (last_block) "run_step S = (Inr True, T)" "e = Eof"
  | (next_block) U where "run_step S = (Inr False, U)" "run U = (e, T)"
  using assms by (subst (asm) run.simps) (auto split: prod.splits sum.splits if_splits)

lemma run_capped:
  "length (fl_out S) \<le> fl_max_out S + 258 \<Longrightarrow> run S = (e, T) \<Longrightarrow>
   fl_max_out T = fl_max_out S \<and> length (fl_out T) \<le> fl_max_out S + 258 \<and> (e = Capped \<longleftrightarrow> full T)"
proof (induction S rule: run.induct)
  case (1 S)
  have c: "capped_ok (run_step S)" "fl_max_out (snd (run_step S)) = fl_max_out S"
    using run_step_capped [OF "1.prems"(1)] run_step_advances [of S] by (simp_all add: advances_def)
  from "1.prems"(2) show ?case
  proof (cases rule: runE)
    case stop
    with c show ?thesis by (simp add: capped_ok_def)
  next
    case last_block
    with c show ?thesis by (simp add: capped_ok_def)
  next
    case (next_block U)
    with c "1.IH" [of "Inr False" U False] show ?thesis by (simp add: capped_ok_def)
  qed
qed

section \<open>No index out of range\<close>

definition flate_inv :: "inflater \<Rightarrow> bool" where
  "flate_inv S \<longleftrightarrow>
     offset_ok S \<and> huff_safe (fl_h1 S) \<and> huff_safe (fl_h2 S) \<and>
     length (fl_bits S) = MAX_NUM_LIT + MAX_NUM_DIST \<and> (\<forall>n \<in> set (fl_bits S). n < 16) \<and>
     length (fl_codebits S) = NUM_CODES \<and> (\<forall>n \<in> set (fl_codebits S). n < 16)"

definition safe_step :: "'a flate_step \<Rightarrow> bool" where
  "safe_step m \<longleftrightarrow> (case fst m of Inl e \<Rightarrow> e \<noteq> FlatePanic | Inr _ \<Rightarrow> flate_inv (snd m))"

lemma safe_step_simps [simp]:
  "safe_step (Inl e, S) = (e \<noteq> FlatePanic)" "safe_step (Inr x, S) = flate_inv S" "safe_step (corrupt S)"
  by (simp_all add: safe_step_def corrupt_def)

lemma flate_bind_safe:
  "safe_step m \<Longrightarrow> (\<And>x T. m = (Inr x, T) \<Longrightarrow> flate_inv T \<Longrightarrow> safe_step (k x T)) \<Longrightarrow> safe_step (flate_bind m k)"
  by (cases m; cases "fst m") auto

lemma flate_inv_frame: "same_frame S T \<Longrightarrow> offset_ok T = offset_ok S \<Longrightarrow> flate_inv S \<Longrightarrow> flate_inv T"
  by (simp add: flate_inv_def same_frame_def)

lemma flate_inv_reads: "reads S T \<Longrightarrow> flate_inv S \<Longrightarrow> flate_inv T"
  by (auto simp: reads_def intro: flate_inv_frame)

lemma flate_inv_updates [simp]:
  "flate_inv (drop_bits n S) = flate_inv S" "flate_inv (shift_b n S) = flate_inv S" "flate_inv (S\<lparr>fl_nb := k\<rparr>) = flate_inv S"
  "flate_inv (S\<lparr>fl_out := xs\<rparr>) = flate_inv S"
  by (simp_all add: flate_inv_def offset_ok_def drop_bits_def shift_b_def)

lemma flate_inv_tables:
  "flate_inv S \<Longrightarrow> huff_safe h \<Longrightarrow> flate_inv (S\<lparr>fl_h1 := h\<rparr>)"
  "flate_inv S \<Longrightarrow> huff_safe h \<Longrightarrow> flate_inv (S\<lparr>fl_h2 := h\<rparr>)"
  by (simp_all add: flate_inv_def offset_ok_def)

lemma list_update_small: "\<forall>n \<in> set xs. n < 16 \<Longrightarrow> v < 16 \<Longrightarrow> \<forall>n \<in> set (xs[i := v]). n < (16 :: nat)"
  using set_update_subset_insert [of xs i v] by auto

lemma fold_update_small:
  "\<forall>n \<in> set xs. n < 16 \<Longrightarrow> v < 16 \<Longrightarrow> \<forall>n \<in> set (fold (\<lambda>k xs. xs[k := v]) ks xs). n < (16 :: nat)"
  by (induction ks arbitrary: xs) (auto dest: list_update_small)

lemma need_safe: "flate_inv S \<Longrightarrow> safe_step (need n S)"
  using need_stops [of "\<lambda>e. e \<noteq> FlatePanic" n S] need_reads [of S n]
  by (cases "need n S") (auto simp: safe_step_def stops_def split: sum.splits intro: flate_inv_reads)

lemma huff_sym_safe: "flate_inv S \<Longrightarrow> huff_safe h \<Longrightarrow> safe_step (huff_sym h S)"
proof -
  assume inv: "flate_inv S" and h: "huff_safe h"
  obtain r T where *: "huff_sym h S = (r, T)" by fastforce
  have "flate_inv T" using huff_sym_reads [of S h] * inv by (auto intro: flate_inv_reads)
  moreover have "r \<noteq> Inl FlatePanic"
    using * h unfolding huff_sym_def huff_safe_def by (elim huff_loop_cases) (metis sum.inject(1) flate_end.distinct Inl_Inr_False)+
  ultimately show ?thesis using * by (auto simp: safe_step_def split: sum.splits)
qed

lemma init_safe:
  "flate_inv S \<Longrightarrow> \<forall>n \<in> set lengths. n < 16 \<Longrightarrow> safe_step (init_h1 lengths S)"
  "flate_inv S \<Longrightarrow> \<forall>n \<in> set lengths. n < 16 \<Longrightarrow> safe_step (init_h2 lengths S)"
  using huffman_init_safe [of lengths]
  by (auto simp: init_h1_def init_h2_def flate_inv_tables split: init_result.splits)

lemma raise_min_lookup [simp]: "huff_lookup (raise_min m h) b = huff_lookup h b"
  by (simp add: raise_min_def huff_lookup_def Let_def)

lemma raise_min_safe: "huff_safe h \<Longrightarrow> huff_safe (raise_min m h)"
  by (simp add: huff_safe_def)

lemma flate_inv_small:
  "flate_inv S \<Longrightarrow> \<forall>n \<in> set (fl_codebits S). n < 16"
  "flate_inv S \<Longrightarrow> \<forall>n \<in> set (take k (fl_bits S)). n < 16"
  "flate_inv S \<Longrightarrow> \<forall>n \<in> set (take k (drop j (fl_bits S))). n < 16"
  by (auto simp: flate_inv_def dest: in_set_takeD in_set_dropD)

lemma init_tables_safe: "flate_inv S \<Longrightarrow> safe_step (init_tables nlit ndist S)"
  unfolding init_tables_def
proof (intro flate_bind_safe init_safe flate_inv_small)
  fix T
  assume "flate_inv T"
  then show "safe_step (Inr (), T\<lparr>fl_h1 := raise_min (fl_bits T ! END_BLOCK_MARKER) (fl_h1 T)\<rparr>)"
    using flate_inv_tables(1) [of T] raise_min_safe by (simp add: flate_inv_def [of T])
qed

lemma flate_inv_lengths:
  assumes "flate_inv S" "length xs = length (fl_codebits S)" "\<forall>n \<in> set xs. n < 16"
  shows "flate_inv (S\<lparr>fl_codebits := xs\<rparr>)"
  using assms by (simp add: flate_inv_def offset_ok_def)

lemma flate_inv_bits:
  assumes "flate_inv S" "length xs = length (fl_bits S)" "\<forall>n \<in> set xs. n < 16"
  shows "flate_inv (S\<lparr>fl_bits := xs\<rparr>)"
  using assms by (simp add: flate_inv_def offset_ok_def)

lemma low_bits_small: "n \<le> 4 \<Longrightarrow> low_bits n S < 16"
  using low_bits_less [of n S] power_increasing [of n 4 "2 :: nat"] by simp

lemma read_codebits_safe: "flate_inv S \<Longrightarrow> safe_step (read_codebits slots S)"
proof (induction slots S rule: read_codebits.induct)
  case (2 slot slots S)
  have "flate_inv (drop_bits 3 (T\<lparr>fl_codebits := (fl_codebits T)[slot := low_bits 3 T]\<rparr>))" if "flate_inv T" for T
    unfolding flate_inv_updates using that low_bits_small [of 3 T]
    by (intro flate_inv_lengths list_update_small flate_inv_small(1)) simp_all
  with 2 show ?case by (auto intro!: flate_bind_safe need_safe)
qed simp

lemma clear_codebits_safe: "flate_inv S \<Longrightarrow> flate_inv (clear_codebits slots S)"
  unfolding clear_codebits_def by (intro flate_inv_lengths fold_update_small flate_inv_small) simp_all

lemma read_code_table_safe: "flate_inv S \<Longrightarrow> safe_step (read_code_table nclen S)"
  unfolding read_code_table_def Let_def
  by (intro flate_bind_safe read_codebits_safe init_safe clear_codebits_safe flate_inv_small) assumption+

lemma set_lengths_safe:
  assumes "flate_inv S" "b < 16"
  shows "flate_inv (S\<lparr>fl_bits := set_lengths i rep b (fl_bits S)\<rparr>)"
  unfolding set_lengths_def using assms
  by (intro flate_inv_bits fold_update_small) (simp_all, simp add: flate_inv_def)

lemma repeat_code_small:
  assumes "flate_inv S" "i < MAX_NUM_LIT + MAX_NUM_DIST" "repeat_code x i (fl_bits S) = (rep, nb, b)"
  shows "b < 16"
proof -
  have "i - 1 < length (fl_bits S)" using assms(1,2) by (simp add: flate_inv_def)
  then have "fl_bits S ! (i - 1) < 16" using assms(1) nth_mem by (fastforce simp: flate_inv_def)
  with assms(3) show ?thesis by (auto simp: repeat_code_def split: if_splits)
qed

lemma length_step_safe:
  assumes "flate_inv S" "i < n" "n \<le> MAX_NUM_LIT + MAX_NUM_DIST"
  shows "safe_step (length_step n i S)"
  unfolding length_step_def
proof (rule flate_bind_safe, goal_cases)
  case 1
  show ?case using assms by (intro huff_sym_safe) (simp_all add: flate_inv_def)
next
  case (2 x T)
  obtain rep nb b where r: "repeat_code x i (fl_bits T) = (rep, nb, b)" by (rule prod_cases3)
  have b: "b < 16" using repeat_code_small [OF 2(2) _ r] assms by simp
  have x: "x < 16 \<Longrightarrow> flate_inv (T\<lparr>fl_bits := (fl_bits T)[i := x]\<rparr>)"
    using 2(2) by (intro flate_inv_bits list_update_small) (simp_all, simp add: flate_inv_def)
  have "safe_step (flate_bind (need nb T) (\<lambda>_ S. let rep = rep + low_bits nb S; S' = drop_bits nb S
      in if n < i + rep then corrupt S' else (Inr (i + rep), S'\<lparr>fl_bits := set_lengths i rep b (fl_bits S')\<rparr>)))"
    unfolding Let_def using 2(2) b by (intro flate_bind_safe need_safe) (simp_all add: set_lengths_safe)
  with r x show ?case by simp
qed

lemma read_lengths_safe: "flate_inv S \<Longrightarrow> n \<le> MAX_NUM_LIT + MAX_NUM_DIST \<Longrightarrow> safe_step (read_lengths n i S)"
proof (induction n i S rule: read_lengths.induct)
  case (1 n i S)
  then show ?case by (subst read_lengths.simps) (auto intro!: flate_bind_safe length_step_safe)
qed

lemma read_header_safe: "flate_inv S \<Longrightarrow> safe_step (read_header S)"
  unfolding read_header_def Let_def by (auto intro!: flate_bind_safe need_safe)

lemma read_header_sizes:
  "read_header S = (Inr (nlit, ndist, nclen), T) \<Longrightarrow> nlit \<le> MAX_NUM_LIT \<and> ndist \<le> MAX_NUM_DIST"
  by (auto simp: read_header_def Let_def corrupt_def elim!: flate_bind_eqE split: if_splits)

lemma read_huffman_safe: "flate_inv S \<Longrightarrow> safe_step (read_huffman S)"
  unfolding read_huffman_def
  by (auto intro!: flate_bind_safe read_header_safe read_code_table_safe read_lengths_safe init_tables_safe
      dest!: read_header_sizes)

lemma read_match_safe:
  assumes "flate_inv S" "case hdist of None \<Rightarrow> True | Some h \<Rightarrow> huff_safe h"
  shows "safe_step (read_match hdist v S)"
proof -
  have "safe_step (read_length v T)" if "flate_inv T" for T v
    using that by (auto simp: read_length_def split: option.splits intro!: flate_bind_safe need_safe)
  moreover have "safe_step (read_dist_code hdist T)" if "flate_inv T" for T
    using that assms(2) by (auto simp: read_dist_code_def split: option.splits intro!: flate_bind_safe need_safe huff_sym_safe)
  moreover have "safe_step (read_dist_extra code T)" if "flate_inv T" for T code
    using that by (auto simp: read_dist_extra_def Let_def intro!: flate_bind_safe need_safe)
  ultimately show ?thesis using assms(1) unfolding read_match_def by (auto intro!: flate_bind_safe)
qed

lemma block_step_safe:
  assumes "flate_inv S" "huff_safe hlit" "case hdist of None \<Rightarrow> True | Some h \<Rightarrow> huff_safe h"
  shows "safe_step (block_step hlit hdist S)"
  using assms unfolding block_step_def by (auto intro!: flate_bind_safe huff_sym_safe read_match_safe)

lemma huffman_loop_safe:
  "flate_inv S \<Longrightarrow> huff_safe hlit \<Longrightarrow> case hdist of None \<Rightarrow> True | Some h \<Rightarrow> huff_safe h \<Longrightarrow> safe_step (huffman_loop hlit hdist S)"
proof (induction hlit hdist S rule: huffman_loop.induct)
  case (1 hlit hdist S)
  show ?case
    by (subst huffman_loop.simps, rule flate_bind_safe [OF block_step_safe]) (use 1 in auto)
qed

lemma fixed_decoder_safe: "huff_safe fixed_decoder"
  using huffman_init_safe [of fixed_lengths] wf_table_safe [OF huffman_empty_wf]
  by (auto simp: fixed_decoder_def fixed_lengths_def split: init_result.splits)

lemma huffman_block_safe: "flate_inv S \<Longrightarrow> safe_step (huffman_block fixed S)"
  using fixed_decoder_safe by (auto simp: huffman_block_def flate_inv_def [of S] intro: huffman_loop_safe)

lemma data_block_safe: "flate_inv S \<Longrightarrow> safe_step (data_block S)"
proof -
  assume inv: "flate_inv S"
  have "safe_step (data_header S)"
    using inv by (auto simp: data_header_def Let_def flate_inv_def offset_ok_def)
  moreover have "safe_step (data_copy n T)" if "flate_inv T" for n T
    using that by (auto simp: data_copy_def Let_def flate_inv_def offset_ok_def)
  ultimately show ?thesis unfolding data_block_def by (auto intro!: flate_bind_safe)
qed

lemma decode_block_safe: "flate_inv S \<Longrightarrow> safe_step (decode_block bt S)"
  unfolding decode_block_def by (auto intro!: data_block_safe huffman_block_safe flate_bind_safe read_huffman_safe)

lemma run_step_safe: "flate_inv S \<Longrightarrow> safe_step (run_step S)"
  unfolding run_step_def block_header_def Let_def
  by (auto intro!: flate_bind_safe decode_block_safe need_safe)

lemma run_safe: "flate_inv S \<Longrightarrow> run S = (e, T) \<Longrightarrow> e \<noteq> FlatePanic"
proof (induction S rule: run.induct)
  case (1 S)
  have safe: "safe_step (run_step S)" by (rule run_step_safe [OF 1(2)])
  from 1(3) show ?case
  proof (cases rule: runE)
    case stop
    with safe show ?thesis by simp
  next
    case (next_block U)
    with safe "1.IH" [of "Inr False" U False] show ?thesis by simp
  qed simp
qed

lemma flate_inv_init: "flate_inv (inflater_init inp max_out)"
  using wf_table_safe [OF huffman_empty_wf] by (simp add: inflater_init_def flate_inv_def offset_ok_def)


text \<open>
  C30. The output cap bounds memory and is reported truthfully: the decoder keeps at most 258 bytes beyond
  the cap, the longest copy, and its outcome is \<open>Capped\<close> exactly when the output passed the cap. Both the
  loop over the symbols and the loop over the blocks end on every input.
\<close>

theorem inflate_capped:
  "length (fst (inflate inp max_out)) \<le> max_out + 258 \<and>
   (snd (inflate inp max_out) = Capped \<longleftrightarrow> max_out < length (fst (inflate inp max_out)))"
proof -
  obtain e S where run: "run (inflater_init inp max_out) = (e, S)" by fastforce
  with run_capped [of "inflater_init inp max_out" e S] show ?thesis
    by (simp add: inflate_def inflater_init_def full_def)
qed

end
