(* ===== verification/Inflate_Roundtrip.thy ===== *)
theory Inflate_Roundtrip
  imports Inflate
begin

unbundle bit_operations_syntax

text \<open>
  What the deflate decoder returns on encoded data: stored blocks, and a block of literals in the fixed
  Huffman code. The encoders are the formats of RFC 1951; they are no part of the source. The second
  proof views the lazy bit reader as one number, the bits it holds below the bytes it has yet to fetch.
\<close>

section \<open>Copies\<close>

lemma copy_loop_periodic:
  "start < length out \<Longrightarrow> copy_loop k start out = out @ map (\<lambda>j. out ! (start + j mod (length out - start))) [0 ..< k]"
proof (induction k arbitrary: start out)
  case (Suc k)
  let ?d = "length out - start" and ?out = "out @ [out ! start]"
  have d: "0 < ?d" using Suc.prems by simp
  have "?out ! (start + 1 + j mod ?d) = out ! (start + Suc j mod ?d)" for j
  proof (cases "Suc (j mod ?d) = ?d")
    case True
    then have "start + 1 + j mod ?d = length out" using Suc.prems by simp
    with True show ?thesis by (simp add: mod_Suc nth_append)
  next
    case False
    with d have "Suc (j mod ?d) < ?d" by (meson Suc_lessI mod_less_divisor)
    then have "start + 1 + j mod ?d < length out" by simp
    with False show ?thesis by (simp add: mod_Suc nth_append)
  qed
  then have "map (\<lambda>j. ?out ! (start + 1 + j mod (length ?out - (start + 1)))) [0 ..< k] =
      map (\<lambda>j. out ! (start + j mod ?d)) (map Suc [0 ..< k])"
    using Suc.prems by simp
  with Suc.IH [of "start + 1" ?out] Suc.prems d show ?case
    by (simp add: map_Suc_upt upt_conv_Cons del: upt_Suc)
qed simp

text \<open>
  The three ways of copying a match, a run of one byte, a copy of a separate range and a copy that
  overlaps its own output, all append the periodic repetition of the last \<open>dist\<close> bytes.
\<close>

theorem copy_match_periodic:
  assumes "0 < dist" "dist \<le> length out"
  shows "copy_match dist len out = out @ map (\<lambda>j. out ! (length out - dist + j mod dist)) [0 ..< len]"
proof -
  consider "dist = 1" | "dist \<noteq> 1" "len \<le> dist" | "dist \<noteq> 1" "dist < len" by linarith
  then show ?thesis
  proof cases
    case 1
    then show ?thesis by (simp add: copy_match_def map_replicate_const)
  next
    case 2
    have "take len (drop (length out - dist) out) = map (\<lambda>j. out ! (length out - dist + j mod dist)) [0 ..< len]"
      using 2 assms by (intro nth_equalityI) simp_all
    with 2 show ?thesis by (simp add: copy_match_def)
  next
    case 3
    with copy_loop_periodic [of "length out - dist" out len] assms show ?thesis by (simp add: copy_match_def Let_def)
  qed
qed

theorem copy_match_periodic_witness: "copy_match 2 5 [7, 8, 9] = [7, 8, 9, 8, 9, 8, 9, 8]"
  using copy_match_periodic [of 2 "[7, 8, 9]" 5] by (simp add: upt_rec)

section \<open>Stored blocks\<close>

text \<open>A stored block of RFC 1951: its flag, its size, the complement of the size, its bytes.\<close>

definition stored_block :: "bool \<Rightarrow> nat list \<Rightarrow> nat list" where
  "stored_block final_block xs =
     (let n = length xs
      in [if final_block then 1 else 0, n mod 256, n div 256, (65535 - n) mod 256, (65535 - n) div 256] @ xs)"

fun stored_stream :: "nat list list \<Rightarrow> nat list" where
  "stored_stream [] = stored_block True []"
| "stored_stream [xs] = stored_block True xs"
| "stored_stream (xs # ys # zs) = stored_block False xs @ stored_stream (ys # zs)"

lemma byte_pair: "x mod 256 OR push_bit 8 (x div 256) = (x :: nat)"
proof -
  have "take_bit 8 x OR push_bit 8 (drop_bit 8 x) = x" by (rule bit_eqI) (auto simp: bit_simps, metis le_add_diff_inverse leI)
  then show ?thesis by (simp add: take_bit_eq_mod drop_bit_eq_div)
qed

text \<open>A reader at the first byte of the rest of its input.\<close>

definition reader_at :: "inflater \<Rightarrow> nat list \<Rightarrow> bool" where
  "reader_at S rest \<longleftrightarrow> offset_ok S \<and> drop (fl_roffset S) (fl_input S) = rest"

lemma need_first_byte:
  assumes "reader_at S (c # rest)" "fl_nb S = 0" "fl_b S = 0" "c < 256" "0 < n" "n \<le> 8"
  shows "need n S = (Inr (), S\<lparr>fl_roffset := fl_roffset S + 1, fl_b := c, fl_nb := 8\<rparr>)"
proof -
  have lt: "fl_roffset S < length (fl_input S)" and c: "fl_input S ! fl_roffset S = c"
    using assms(1) unfolding reader_at_def
    by (metis drop_all leI list.distinct(1)) (metis assms(1) reader_at_def nth_via_drop)
  have "more_bits S = (Inr (), S\<lparr>fl_roffset := fl_roffset S + 1, fl_b := c, fl_nb := 8\<rparr>)"
    using assms lt c by (simp add: more_bits_def read_byte_def take_bit_eq_mod)
  then show ?thesis using assms by (subst need.simps) (simp add: need.simps)
qed

text \<open>The header of a stored block, and its bytes.\<close>

lemma reader_at_split:
  assumes "reader_at S (xs @ rest)"
  shows "reader_at (S\<lparr>fl_roffset := fl_roffset S + length xs\<rparr>) rest" "take (length xs) (drop (fl_roffset S) (fl_input S)) = xs"
    "length xs \<le> length (fl_input S) - fl_roffset S"
proof -
  have d: "drop (fl_roffset S) (fl_input S) = xs @ rest" using assms by (simp add: reader_at_def)
  then show t: "take (length xs) (drop (fl_roffset S) (fl_input S)) = xs" by simp
  have "length (drop (fl_roffset S) (fl_input S)) = length xs + length rest" using d by simp
  then show l: "length xs \<le> length (fl_input S) - fl_roffset S" by simp
  have "drop (fl_roffset S + length xs) (fl_input S) = rest" using d by (metis append_eq_conv_conj drop_drop add.commute)
  moreover have "fl_roffset S + length xs \<le> length (fl_input S)" using l assms by (simp add: reader_at_def offset_ok_def le_diff_conv2 add.commute)
  ultimately show "reader_at (S\<lparr>fl_roffset := fl_roffset S + length xs\<rparr>) rest" by (simp add: reader_at_def offset_ok_def)
qed

lemma data_header_bytes:
  assumes "reader_at S ([x0, x1, x2, x3] @ rest)"
  shows "data_header S =
    (let n = x0 OR push_bit 8 x1; nn = x2 OR push_bit 8 x3; T = S\<lparr>fl_nb := 0, fl_b := 0, fl_roffset := fl_roffset S + 4\<rparr>
     in if take_bit 16 nn \<noteq> 65535 - take_bit 16 n then corrupt T else (Inr n, T))"
proof -
  have off: "fl_roffset S \<le> length (fl_input S)" and d: "drop (fl_roffset S) (fl_input S) = [x0, x1, x2, x3] @ rest"
    using assms by (simp_all add: reader_at_def offset_ok_def)
  have nth: "fl_input S ! (fl_roffset S + i) = ([x0, x1, x2, x3] @ rest) ! i" for i
    using nth_drop [OF off, of i] d by simp
  have "min (length (fl_input S) - fl_roffset S) 4 = 4" using reader_at_split(3) [OF assms] by simp
  with off nth [of 0] nth [of 1] nth [of 2] nth [of 3] show ?thesis
    by (simp add: data_header_def Let_def)
qed

lemma reader_at_header:
  "reader_at S ([x0, x1, x2, x3] @ rest) \<Longrightarrow> reader_at (S\<lparr>fl_nb := 0, fl_b := 0, fl_roffset := fl_roffset S + 4\<rparr>) rest"
  using reader_at_split(1) [of S "[x0, x1, x2, x3]" rest] by (simp add: reader_at_def offset_ok_def numeral_eq_Suc)

lemma data_header_stored:
  assumes "reader_at S ([n mod 256, n div 256, (65535 - n) mod 256, (65535 - n) div 256] @ rest)" "n \<le> 65535"
  shows "data_header S = (Inr n, S\<lparr>fl_nb := 0, fl_b := 0, fl_roffset := fl_roffset S + 4\<rparr>)"
  using assms(2) by (simp add: data_header_bytes [OF assms(1)] byte_pair Let_def take_bit_eq_mod)

lemma data_block_stored:
  assumes "reader_at S (drop 1 (stored_block final_block xs) @ rest)" "length xs \<le> 65535"
    "length (fl_out S) + length xs \<le> fl_max_out S"
  shows "\<exists>T. data_block S = (Inr (), T) \<and> reader_at T rest \<and> fl_nb T = 0 \<and> fl_b T = 0 \<and>
    fl_out T = fl_out S @ xs \<and> fl_max_out T = fl_max_out S"
proof -
  let ?n = "length xs"
  let ?T = "S\<lparr>fl_nb := 0, fl_b := 0, fl_roffset := fl_roffset S + 4\<rparr>"
  have r: "reader_at S ([?n mod 256, ?n div 256, (65535 - ?n) mod 256, (65535 - ?n) div 256] @ (xs @ rest))"
    using assms(1) by (simp add: stored_block_def Let_def)
  have "reader_at ?T (xs @ rest)" by (rule reader_at_header [OF r])
  note t = reader_at_split [OF this]
  have "reader_at (?T\<lparr>fl_out := fl_out S @ xs, fl_roffset := fl_roffset ?T + ?n\<rparr>) rest"
    using t(1) by (simp add: reader_at_def offset_ok_def)
  moreover have "data_copy ?n ?T = (Inr (), ?T\<lparr>fl_out := fl_out S @ xs, fl_roffset := fl_roffset ?T + ?n\<rparr>)"
  proof -
    have cnt: "min (length (fl_input ?T) - fl_roffset ?T) ?n = ?n" using t(3) by (rule min.absorb2)
    have room: "min ?n (fl_max_out ?T + 1 - length (fl_out ?T)) = ?n" using assms(3) by simp
    show ?thesis unfolding data_copy_def Let_def cnt room t(2) using assms(3) by (simp add: full_def)
  qed
  moreover have "?n = 0 \<Longrightarrow> reader_at ?T rest" using t(1) by (simp add: reader_at_def offset_ok_def)
  ultimately show ?thesis
    unfolding data_block_def data_header_stored [OF r assms(2)]
    by (cases "?n = 0") simp_all
qed

lemma run_step_stored:
  assumes "reader_at S (stored_block final_block xs @ rest)" "fl_nb S = 0" "fl_b S = 0" "length xs \<le> 65535"
    "length (fl_out S) + length xs \<le> fl_max_out S"
  shows "\<exists>T. run_step S = (Inr final_block, T) \<and> reader_at T rest \<and> fl_nb T = 0 \<and> fl_b T = 0 \<and>
    fl_out T = fl_out S @ xs \<and> fl_max_out T = fl_max_out S"
proof -
  let ?c = "if final_block then 1 else 0 :: nat"
  let ?U = "S\<lparr>fl_roffset := fl_roffset S + 1, fl_b := 0, fl_nb := 5\<rparr>"
  have r: "reader_at S (?c # drop 1 (stored_block final_block xs) @ rest)" using assms(1) by (simp add: stored_block_def Let_def)
  have h: "block_header S = (Inr (final_block, 0), ?U)"
  proof -
    have "need (1 + 2) S = (Inr (), S\<lparr>fl_roffset := fl_roffset S + 1, fl_b := ?c, fl_nb := 8\<rparr>)"
      by (rule need_first_byte [OF r assms(2,3)]) simp_all
    then show ?thesis unfolding block_header_def Let_def by (simp add: shift_b_def drop_bit_eq_div)
  qed
  have "reader_at ?U (drop 1 (stored_block final_block xs) @ rest)"
    using reader_at_split(1) [of S "[?c]"] r by (simp add: reader_at_def offset_ok_def)
  from data_block_stored [OF this assms(4)] assms(5) obtain T where
    "data_block ?U = (Inr (), T)" "reader_at T rest" "fl_nb T = 0" "fl_b T = 0" "fl_out T = fl_out S @ xs" "fl_max_out T = fl_max_out S"
    by auto
  with h assms(5) show ?thesis by (simp add: run_step_def full_def decode_block_def)
qed

lemma run_stored:
  "reader_at S (stored_stream bs @ rest) \<Longrightarrow> fl_nb S = 0 \<Longrightarrow> fl_b S = 0 \<Longrightarrow> \<forall>xs \<in> set bs. length xs \<le> 65535 \<Longrightarrow>
   length (fl_out S @ concat bs) \<le> fl_max_out S \<Longrightarrow> \<exists>T. run S = (Eof, T) \<and> fl_out T = fl_out S @ concat bs"
proof (induction bs arbitrary: S rule: stored_stream.induct)
  case 1
  with run_step_stored [of S True "[]" rest] show ?case by (subst run.simps) auto
next
  case (2 xs)
  with run_step_stored [of S True xs rest] show ?case by (subst run.simps) auto
next
  case (3 xs ys zs)
  have "reader_at S (stored_block False xs @ (stored_stream (ys # zs) @ rest))" using 3(2) by simp
  from run_step_stored [OF this 3(3,4)] 3(5,6) obtain T where
    T: "run_step S = (Inr False, T)" "reader_at T (stored_stream (ys # zs) @ rest)" "fl_nb T = 0" "fl_b T = 0"
      "fl_out T = fl_out S @ xs" "fl_max_out T = fl_max_out S"
    by auto
  from 3(1) [OF T(2-4)] 3(5,6) T(5,6) obtain U where "run T = (Eof, U)" "fl_out U = fl_out S @ concat (xs # ys # zs)" by auto
  with T(1) show ?case by (subst run.simps) simp
qed

text \<open>
  Stored blocks round trip: a sequence of stored blocks of at most 65535 bytes each, followed by
  anything, inflates to the bytes of all blocks when they fit under the cap, and the decoder stops at the
  end of the last block.
\<close>

theorem inflate_stored:
  assumes "\<forall>xs \<in> set bs. length xs \<le> 65535" "length (concat bs) \<le> max_out"
  shows "inflate (stored_stream bs @ rest) max_out = (concat bs, Eof)"
proof -
  let ?S = "inflater_init (stored_stream bs @ rest) max_out"
  have "reader_at ?S (stored_stream bs @ rest)" by (simp add: reader_at_def offset_ok_def inflater_init_def)
  from run_stored [OF this _ _ assms(1)] assms(2) obtain T where "run ?S = (Eof, T)" "fl_out T = concat bs"
    by (auto simp: inflater_init_def)
  then show ?thesis by (simp add: inflate_def)
qed

theorem inflate_stored_witness: "inflate (stored_stream [[1, 2], [], [3]] @ [9]) 3 = ([1, 2, 3], Eof)"
  using inflate_stored [of "[[1, 2], [], [3]]" 3 "[9]"] by simp

section \<open>The bits as one number\<close>

fun bytes_val :: "nat list \<Rightarrow> nat" where
  "bytes_val [] = 0"
| "bytes_val (c # cs) = c + 256 * bytes_val cs"

definition stream_val :: "inflater \<Rightarrow> nat" where
  "stream_val S = fl_b S + 2 ^ fl_nb S * bytes_val (drop (fl_roffset S) (fl_input S))"

definition stream_ok :: "inflater \<Rightarrow> bool" where
  "stream_ok S \<longleftrightarrow> fl_b S < 2 ^ fl_nb S \<and> fl_nb S \<le> 24 \<and> offset_ok S \<and> (\<forall>c \<in> set (fl_input S). c < 256)"

text \<open>Consuming bits divides the number.\<close>

definition consumes :: "nat \<Rightarrow> inflater \<Rightarrow> inflater \<Rightarrow> bool" where
  "consumes n S T \<longleftrightarrow>
     stream_ok T \<and> stream_val T = stream_val S div 2 ^ n \<and> bits_left T + n = bits_left S \<and> same_frame S T"

lemma consumes_trans: "consumes 0 S T \<Longrightarrow> consumes n T U \<Longrightarrow> consumes n S U"
  by (simp add: consumes_def same_frame_def)

lemma or_push_bit: "b < 2 ^ n \<Longrightarrow> b OR push_bit n c = b + 2 ^ n * (c :: nat)"
proof -
  assume b: "b < 2 ^ n"
  have "bit b i \<Longrightarrow> i < n" for i using bit_add_high [OF b, of 0 i] by (auto split: if_splits)
  then have "b OR push_bit n c = c * 2 ^ n + b"
    by (intro bit_eqI) (auto simp: bit_add_high [OF b] bit_simps)
  then show ?thesis by simp
qed

lemma more_bits_stream:
  assumes "stream_ok S" "fl_nb S \<le> 16" "0 < bytes_left S"
  obtains T where "more_bits S = (Inr (), T)" "consumes 0 S T" "fl_nb T = fl_nb S + 8"
proof -
  let ?c = "fl_input S ! fl_roffset S"
  let ?T = "S\<lparr>fl_roffset := fl_roffset S + 1, fl_b := fl_b S + 2 ^ fl_nb S * ?c, fl_nb := fl_nb S + 8\<rparr>"
  have lt: "fl_roffset S < length (fl_input S)" using assms(3) by (simp add: bytes_left_def)
  then have c: "?c < 256" using assms(1) nth_mem by (auto simp: stream_ok_def)
  have nb: "fl_nb S AND 31 = fl_nb S" using and_low_mod [of "fl_nb S" 5] assms(2) by simp
  have p: "push_bit (fl_nb S) ?c < 2 ^ 32"
  proof -
    have "?c * 2 ^ fl_nb S < 256 * 2 ^ fl_nb S" using c by simp
    also have "\<dots> \<le> 256 * 2 ^ 16" using assms(2) by (intro mult_le_mono2 power_increasing) simp_all
    finally show ?thesis by (simp add: push_bit_eq_mult)
  qed
  have b: "fl_b S OR take_bit 32 (push_bit (fl_nb S) ?c) = fl_b S + 2 ^ fl_nb S * ?c"
    using p assms(1) or_push_bit [of "fl_b S" "fl_nb S" ?c] by (simp add: take_bit_nat_eq_self stream_ok_def)
  have m: "more_bits S = (Inr (), ?T)" using lt nb b by (simp add: more_bits_def read_byte_def)
  have "drop (fl_roffset S) (fl_input S) = ?c # drop (fl_roffset S + 1) (fl_input S)" using lt Cons_nth_drop_Suc by fastforce
  then have "stream_val ?T = stream_val S" by (simp add: stream_val_def power_add algebra_simps)
  moreover have "stream_ok ?T"
  proof -
    have "fl_b S + 2 ^ fl_nb S * ?c < 2 ^ fl_nb S + 2 ^ fl_nb S * ?c" using assms(1) by (simp add: stream_ok_def)
    also have "\<dots> = 2 ^ fl_nb S * (?c + 1)" by simp
    also have "\<dots> \<le> 2 ^ fl_nb S * 2 ^ 8" using c by (intro mult_le_mono2) simp
    finally show ?thesis using assms lt by (simp add: stream_ok_def offset_ok_def power_add)
  qed
  moreover have "bits_left ?T = bits_left S" using more_bits_left [OF m] by simp
  ultimately have "consumes 0 S ?T" using m more_bits_frame [OF m] by (simp add: consumes_def)
  with m show thesis using that [of ?T] by simp
qed

lemma need_stream:
  "stream_ok S \<Longrightarrow> n \<le> 16 \<Longrightarrow> n \<le> bits_left S \<Longrightarrow> \<exists>T. need n S = (Inr (), T) \<and> consumes 0 S T \<and> n \<le> fl_nb T"
proof (induction n S rule: need.induct)
  case (1 n S)
  show ?case
  proof (cases "fl_nb S < n")
    case True
    then have "0 < bytes_left S" using 1(4) by (simp add: bits_left_def)
    then obtain T where T: "more_bits S = (Inr (), T)" "consumes 0 S T"
      using more_bits_stream [OF 1(2)] True 1(3) by auto
    with "1.IH" [OF True T(1) [symmetric] refl] 1(3,4) obtain U where "need n T = (Inr (), U)" "consumes 0 T U" "n \<le> fl_nb U"
      by (auto simp: consumes_def)
    with True T show ?thesis by (subst need.simps) (auto intro: consumes_trans)
  next
    case False
    then show ?thesis using 1(2) by (subst need.simps) (simp add: consumes_def same_frame_def)
  qed
qed

lemma stream_low: "stream_ok S \<Longrightarrow> n \<le> fl_nb S \<Longrightarrow> fl_b S mod 2 ^ n = stream_val S mod 2 ^ n"
proof -
  assume "n \<le> fl_nb S"
  then have "(2 :: nat) ^ fl_nb S = 2 ^ n * 2 ^ (fl_nb S - n)" by (simp flip: power_add)
  then show ?thesis by (simp add: stream_val_def mult.assoc)
qed

lemma drop_bits_consumes:
  assumes "stream_ok S" "n \<le> fl_nb S"
  shows "consumes n S (drop_bits n S)"
proof -
  have p: "(2 :: nat) ^ fl_nb S = 2 ^ n * 2 ^ (fl_nb S - n)" using assms(2) by (simp flip: power_add)
  have "stream_val (drop_bits n S) = stream_val S div 2 ^ n"
    by (simp add: stream_val_def drop_bits_def p mult.assoc drop_bit_eq_div)
  moreover have "fl_b S div 2 ^ n < 2 ^ (fl_nb S - n)" using assms(1) p by (simp add: stream_ok_def less_mult_imp_div_less mult.commute)
  ultimately show ?thesis
    using assms drop_bits_left [OF assms(2)]
    by (simp add: consumes_def stream_ok_def) (simp add: drop_bits_def drop_bit_eq_div same_frame_def le_diff_conv)
qed

section \<open>Decoding a symbol\<close>

lemma reverse_bits_cong: "x mod 2 ^ n = y mod 2 ^ n \<Longrightarrow> reverse_bits n x = reverse_bits n y"
  by (metis reverse_bits_mod)

text \<open>
  A lazy reader that looks at too few bits sees a longer code and fetches on; it never takes another
  symbol for the one that was sent.
\<close>

lemma huff_loop_stream:
  assumes h: "huffman_init ls = InitOk h" and k: "k < length ls" "ls ! k \<noteq> 0"
    and full: "first_code ls (max_length ls) + bl_count ls (max_length ls) = 2 ^ max_length ls"
  shows "stream_ok S \<Longrightarrow> code_matches ls k (stream_val S) \<Longrightarrow> m \<le> 15 \<Longrightarrow> m \<le> bits_left S \<Longrightarrow>
    ls ! k \<le> m \<or> 15 \<le> bits_left S \<Longrightarrow> \<exists>T. huff_loop h m S = (Inr k, T) \<and> consumes (ls ! k) S T"
  using h
proof (induction h m S rule: huff_loop.induct)
  case (1 h m S)
  note ok = huffman_init_ok [OF "1.prems"(6) k]
  have small: "ls ! j < 16" if "j < length ls" for j using huffman_init_lengths [OF "1.prems"(6)] that by simp
  have found: "huff_lookup h b = Some (cell j (ls ! j))" if "code_matches ls j b" for j b
    using ok(3) that by (simp add: inserts_all_def)
  obtain T where T: "need m S = (Inr (), T)" "consumes 0 S T" "m \<le> fl_nb T"
    using need_stream [OF "1.prems"(1), of m] "1.prems"(3,4) by auto
  have sT: "stream_ok T" "stream_val T = stream_val S" "bits_left T = bits_left S" using T(2) by (simp_all add: consumes_def)
  have transfer: "code_matches ls j (fl_b T) \<longleftrightarrow> code_matches ls j (stream_val S)" if "ls ! j \<le> fl_nb T" for j
    using reverse_bits_cong [OF stream_low [OF sT(1) that]] sT(2) by (simp add: code_matches_def)
  show ?case
  proof (cases "ls ! k \<le> fl_nb T")
    case True
    then have "huff_lookup h (fl_b T) = Some (cell k (ls ! k))" using found transfer "1.prems"(2) by simp
    then have "huff_loop h m S = (Inr k, drop_bits (ls ! k) T)"
      using T True small [OF k(1)] k(2) by (subst huff_loop.simps) simp
    then show ?thesis using consumes_trans [OF T(2) drop_bits_consumes [OF sT(1) True]] by blast
  next
    case False
    obtain j where j: "code_matches ls j (fl_b T)" using complete_code_matches [OF full] by blast
    have jl: "j < length ls" using j by (simp add: code_matches_def)
    have more: "fl_nb T < ls ! j"
      using False transfer j canonical_prefix_free "1.prems"(2) by (metis leI)
    have e: "cell_count (cell j (ls ! j)) = ls ! j" using small [OF jl] by simp
    have "15 \<le> bits_left S" using False T(3) "1.prems"(5) by linarith
    then obtain U where U: "huff_loop h (ls ! j) T = (Inr k, U)" "consumes (ls ! k) T U"
      using "1.IH" [OF T(1) found [OF j]] sT "1.prems"(2,6) small [OF jl] more e by auto
    then have "huff_loop h m S = (Inr k, U)" using T found [OF j] more e by (subst huff_loop.simps) simp
    then show ?thesis using consumes_trans [OF T(2) U(2)] by blast
  qed
qed

section \<open>The fixed code\<close>

lemma bl_count_replicate [simp]: "bl_count (replicate m x) n = (if x = n \<and> n \<noteq> 0 then m else 0)"
  by (simp add: bl_count_def)

lemma bl_count_fixed:
  "bl_count fixed_lengths n = (if n = 8 then 152 else if n = 9 then 112 else if n = 7 then 24 else 0)"
  by (simp add: fixed_lengths_def bl_count_append)

lemma first_code_fixed: "first_code fixed_lengths 7 = 0" "first_code fixed_lengths 8 = 48" "first_code fixed_lengths 9 = 400"
  by (simp_all add: first_code_numeral bl_count_fixed)

lemma set_fixed_lengths: "set fixed_lengths = {7, 8, 9}"
  by (auto simp: fixed_lengths_def)

lemma max_length_fixed: "max_length fixed_lengths = 9"
proof -
  have "max_length fixed_lengths \<le> 9" using max_length_in [of fixed_lengths] by (cases "max_length fixed_lengths = 0") (auto simp: set_fixed_lengths)
  moreover have "9 \<le> max_length fixed_lengths" by (rule max_length_ge) (simp add: set_fixed_lengths)
  ultimately show ?thesis by simp
qed

lemma fixed_complete:
  "first_code fixed_lengths (max_length fixed_lengths) + bl_count fixed_lengths (max_length fixed_lengths) = 2 ^ max_length fixed_lengths"
  by (simp add: max_length_fixed first_code_fixed bl_count_fixed)

lemma fixed_init: "huffman_init fixed_lengths = InitOk fixed_decoder"
proof -
  have "\<forall>n \<in> set fixed_lengths. n < 16" by (simp add: set_fixed_lengths)
  moreover have "code_complete fixed_lengths" using fixed_complete by (simp add: code_complete_def Let_def)
  ultimately obtain h where "huffman_init fixed_lengths = InitOk h"
    using huffman_init_complete max_length_fixed by (metis zero_neq_numeral)
  then show ?thesis by (simp add: fixed_decoder_def)
qed

text \<open>RFC 1951, 3.2.6: the lengths and codes of the symbols.\<close>

definition fixed_code :: "nat \<Rightarrow> nat \<times> nat" where
  "fixed_code v =
     (if v < 144 then (8, 48 + v) else if v < 256 then (9, 400 + (v - 144))
      else if v < 280 then (7, v - 256) else (8, 192 + (v - 280)))"

lemma fixed_code_canonical:
  assumes "v < 288"
  shows "v < length fixed_lengths" "fixed_code v = (fixed_lengths ! v, canonical_code fixed_lengths v)"
proof -
  show "v < length fixed_lengths" using assms by (simp add: fixed_lengths_def)
  consider "v < 144" | "144 \<le> v" "v < 256" | "256 \<le> v" "v < 280" | "280 \<le> v" "v < 288" using assms by linarith
  then show "fixed_code v = (fixed_lengths ! v, canonical_code fixed_lengths v)"
  proof cases
    case 1
    then have "fixed_lengths ! v = 8" "take v fixed_lengths = replicate v 8"
      by (simp_all add: fixed_lengths_def nth_append min_def)
    with 1 show ?thesis by (simp add: fixed_code_def canonical_code_def first_code_fixed)
  next
    case 2
    then have "fixed_lengths ! v = 9" "take v fixed_lengths = replicate 144 8 @ replicate (v - 144) 9"
      by (auto simp: fixed_lengths_def nth_append min_def)
    with 2 show ?thesis by (simp add: fixed_code_def canonical_code_def first_code_fixed bl_count_append)
  next
    case 3
    then have "fixed_lengths ! v = 7" "take v fixed_lengths = replicate 144 8 @ replicate 112 9 @ replicate (v - 256) 7"
      by (auto simp: fixed_lengths_def nth_append min_def)
    with 3 show ?thesis by (simp add: fixed_code_def canonical_code_def first_code_fixed bl_count_append)
  next
    case 4
    then have "fixed_lengths ! v = 8"
        "take v fixed_lengths = replicate 144 8 @ replicate 112 9 @ replicate 24 7 @ replicate (v - 280) 8"
      by (auto simp: fixed_lengths_def nth_append min_def)
    with 4 show ?thesis by (simp add: fixed_code_def canonical_code_def first_code_fixed bl_count_append)
  qed
qed

lemma fixed_min: "hu_min fixed_decoder = 7"
proof -
  have l: "0 < length fixed_lengths" "fixed_lengths ! 0 \<noteq> 0" by (simp_all add: fixed_lengths_def nth_append)
  have "hu_min fixed_decoder = min_length fixed_lengths"
    using huffman_init_ok(3) [OF fixed_init l] start_table_wf(2) [OF huffman_init_ok(1) [OF fixed_init l]]
    by (simp add: inserts_all_def)
  moreover have "min_length fixed_lengths \<in> {7, 8, 9}" "min_length fixed_lengths \<le> 7"
    using min_length_le [of 7 fixed_lengths] by (auto simp: set_fixed_lengths)
  ultimately show ?thesis by auto
qed

text \<open>A block of literals: its header, the codes from their highest bits on, and the end marker.\<close>

definition code_bits :: "nat \<Rightarrow> nat \<times> nat" where
  "code_bits v = (let (n, c) = fixed_code v in (n, reverse_bits n c))"

fun pack_bits :: "(nat \<times> nat) list \<Rightarrow> nat" where
  "pack_bits [] = 0"
| "pack_bits ((n, v) # ps) = v + 2 ^ n * pack_bits ps"

definition total_bits :: "(nat \<times> nat) list \<Rightarrow> nat" where
  "total_bits ps = sum_list (map fst ps)"

fun to_bytes :: "nat \<Rightarrow> nat \<Rightarrow> nat list" where
  "to_bytes 0 v = []"
| "to_bytes (Suc k) v = v mod 256 # to_bytes k (v div 256)"

definition literal_bits :: "nat list \<Rightarrow> (nat \<times> nat) list" where
  "literal_bits xs = map code_bits xs @ [code_bits 256]"

definition fixed_block :: "(nat \<times> nat) list \<Rightarrow> nat list" where
  "fixed_block ps = to_bytes ((total_bits ((3, 3) # ps) + 7) div 8) (pack_bits ((3, 3) # ps))"

definition fixed_stream :: "nat list \<Rightarrow> nat list" where
  "fixed_stream xs = fixed_block (literal_bits xs)"

lemma bytes_val_to_bytes: "v < 256 ^ k \<Longrightarrow> bytes_val (to_bytes k v) = v"
proof (induction k arbitrary: v)
  case (Suc k)
  then have "bytes_val (to_bytes k (v div 256)) = v div 256" by (intro Suc.IH) (simp add: less_mult_imp_div_less mult.commute)
  then show ?case by simp
qed simp

lemma to_bytes_bytes: "length (to_bytes k v) = k" "c \<in> set (to_bytes k v) \<Longrightarrow> c < 256"
  by (induction k arbitrary: v) auto

lemma pack_bits_less: "\<forall>(n, v) \<in> set ps. v < 2 ^ n \<Longrightarrow> pack_bits ps < 2 ^ total_bits ps"
proof (induction ps rule: pack_bits.induct)
  case (2 n v ps)
  then have "v + 2 ^ n * pack_bits ps < 2 ^ n * (pack_bits ps + 1)" by simp
  also have "\<dots> \<le> 2 ^ n * 2 ^ total_bits ps" using 2 by (intro mult_le_mono2) (simp add: Suc_le_eq)
  finally show ?case by (simp add: total_bits_def power_add)
qed (simp add: total_bits_def)

lemma code_bits_less: "code_bits v = (n, x) \<Longrightarrow> x < 2 ^ n"
  by (auto simp: code_bits_def reverse_bits_less split: prod.splits)

text \<open>A symbol at the front of the bits.\<close>

lemma huff_sym_fixed:
  assumes "v < 288" "stream_ok S" "stream_val S = pack_bits (code_bits v # ps)" "7 \<le> bits_left S"
    "v = 256 \<or> 15 \<le> bits_left S"
  shows "\<exists>T. huff_sym fixed_decoder S = (Inr v, T) \<and> consumes (fst (code_bits v)) S T \<and> stream_val T = pack_bits ps"
proof -
  note can = fixed_code_canonical [OF assms(1)]
  let ?n = "fixed_lengths ! v"
  have bits: "code_bits v = (?n, reverse_bits ?n (canonical_code fixed_lengths v))" using can(2) by (simp add: code_bits_def)
  have nz: "?n \<noteq> 0" using nth_mem [OF can(1)] by (auto simp: set_fixed_lengths)
  have "code_complete fixed_lengths" using huffman_init_ok(1) [OF fixed_init can(1) nz] .
  then have lt: "canonical_code fixed_lengths v < 2 ^ ?n" using canonical_code_less can(1) nz by simp
  have "stream_val S mod 2 ^ ?n = reverse_bits ?n (canonical_code fixed_lengths v)"
    using assms(3) bits reverse_bits_less [of ?n] by simp
  then have m: "code_matches fixed_lengths v (stream_val S)"
    using can(1) nz reverse_bits_match [OF lt] by (simp add: code_matches_def)
  have "v = 256 \<Longrightarrow> ?n = 7" by (simp add: fixed_lengths_def nth_append)
  then obtain T where "huff_loop fixed_decoder 7 S = (Inr v, T)" "consumes ?n S T"
    using huff_loop_stream [OF fixed_init can(1) nz fixed_complete assms(2) m, of 7] assms(4,5) by auto
  moreover have "stream_val S div 2 ^ ?n = pack_bits ps" using assms(3) bits reverse_bits_less [of ?n] by simp
  ultimately show ?thesis using bits by (simp add: huff_sym_def fixed_min consumes_def)
qed

lemma total_bits_Cons: "total_bits (p # ps) = fst p + total_bits ps"
  by (simp add: total_bits_def)

lemma literal_bits_simps: "literal_bits [] = [code_bits 256]" "literal_bits (x # xs) = code_bits x # literal_bits xs"
  by (simp_all add: literal_bits_def)

lemma code_bits_length: "x < 256 \<Longrightarrow> 8 \<le> fst (code_bits x)" "fst (code_bits 256) = 7"
  by (auto simp: code_bits_def fixed_code_def)

lemma total_literal_bits: "7 \<le> total_bits (literal_bits xs)"
  by (induction xs) (simp_all add: literal_bits_simps total_bits_Cons code_bits_length)

lemma stream_ok_out [simp]: "stream_ok (S\<lparr>fl_out := xs\<rparr>) = stream_ok S" "stream_val (S\<lparr>fl_out := xs\<rparr>) = stream_val S"
  by (simp_all add: stream_ok_def stream_val_def)

lemma huffman_loop_literals:
  "stream_ok S \<Longrightarrow> stream_val S = pack_bits (literal_bits xs) \<Longrightarrow> total_bits (literal_bits xs) \<le> bits_left S \<Longrightarrow>
   \<forall>x \<in> set xs. x < 256 \<Longrightarrow> length (fl_out S) + length xs \<le> fl_max_out S \<Longrightarrow>
   \<exists>T. huffman_loop fixed_decoder None S = (Inr (), T) \<and> fl_out T = fl_out S @ xs"
proof (induction xs arbitrary: S)
  case Nil
  have "7 \<le> bits_left S" using Nil.prems(3) total_literal_bits [of "[]"] by simp
  with huff_sym_fixed [of 256 S "[]"] Nil.prems obtain T where
    T: "huff_sym fixed_decoder S = (Inr 256, T)" "consumes (fst (code_bits 256)) S T"
    by (auto simp: literal_bits_simps)
  then have "block_step fixed_decoder None S = (Inr False, T)" using Nil.prems(5) by (simp add: block_step_def full_def)
  then show ?case using T(2) by (subst huffman_loop.simps) (simp add: consumes_def same_frame_def)
next
  case (Cons x xs)
  have total: "fst (code_bits x) + total_bits (literal_bits xs) \<le> bits_left S" "8 \<le> fst (code_bits x)"
    using Cons.prems(3,4) code_bits_length(1) [of x] by (simp_all add: literal_bits_simps total_bits_Cons)
  then have "15 \<le> bits_left S" using total_literal_bits [of xs] by linarith
  with huff_sym_fixed [of x S "literal_bits xs"] Cons.prems obtain T where
    T: "huff_sym fixed_decoder S = (Inr x, T)" "consumes (fst (code_bits x)) S T" "stream_val T = pack_bits (literal_bits xs)"
    by (auto simp: literal_bits_simps)
  let ?U = "T\<lparr>fl_out := fl_out S @ [x]\<rparr>"
  have c: "fl_out T = fl_out S" "fl_max_out T = fl_max_out S" "stream_ok T" "bits_left T + fst (code_bits x) = bits_left S"
    using T(2) by (simp_all add: consumes_def same_frame_def)
  have step: "block_step fixed_decoder None S = (Inr True, ?U)"
    using T(1) c Cons.prems(4,5) by (simp add: block_step_def full_def)
  have "total_bits (literal_bits xs) \<le> bits_left ?U" using total c(4) by simp
  with Cons.IH [of ?U] T(3) c Cons.prems(4,5) obtain V where
    "huffman_loop fixed_decoder None ?U = (Inr (), V)" "fl_out V = fl_out S @ x # xs" by auto
  with step show ?case by (subst huffman_loop.simps) simp
qed

lemma block_header_stream:
  assumes "stream_ok S" "3 \<le> bits_left S" "stream_val S = 3 + 8 * v"
  shows "\<exists>T. block_header S = (Inr (True, 1), T) \<and> consumes 3 S T \<and> stream_val T = v"
proof -
  obtain T where T: "need (1 + 2) S = (Inr (), T)" "consumes 0 S T" "3 \<le> fl_nb T"
    using need_stream [OF assms(1), of "1 + 2"] assms(2) by auto
  have sT: "stream_ok T" "stream_val T = stream_val S" using T(2) by (simp_all add: consumes_def)
  have low: "fl_b T mod 8 = 3" using stream_low [OF sT(1) T(3)] sT(2) assms(3) by simp
  have "fl_b T AND 1 = 1" "drop_bit 1 (fl_b T) AND 3 = 1"
    using low and_low_mod [of "fl_b T" 1] and_low_mod [of "fl_b T div 2" 2] by (simp_all add: drop_bit_eq_div) presburger+
  moreover have "shift_b 2 (shift_b 1 T)\<lparr>fl_nb := fl_nb T - 3\<rparr> = drop_bits 3 T"
    by (simp add: shift_b_def drop_bits_def)
  ultimately have "block_header S = (Inr (True, 1), drop_bits 3 T)"
    unfolding block_header_def Let_def T(1) by (simp add: shift_b_def drop_bits_def)
  moreover have "consumes 3 S (drop_bits 3 T)" by (rule consumes_trans [OF T(2) drop_bits_consumes [OF sT(1) T(3)]])
  moreover from this have "stream_val (drop_bits 3 T) = v" using assms(3) by (simp add: consumes_def)
  ultimately show ?thesis by blast
qed

text \<open>The start of a last block in the fixed code.\<close>

lemma fixed_block_start:
  assumes "\<forall>(n, v) \<in> set ps. v < 2 ^ n"
  obtains T where "block_header (inflater_init (fixed_block ps) max_out) = (Inr (True, 1), T)" "stream_ok T"
    "stream_val T = pack_bits ps" "total_bits ps \<le> bits_left T" "fl_out T = []" "fl_max_out T = max_out"
proof -
  let ?k = "(total_bits ((3, 3) # ps) + 7) div 8" and ?S = "inflater_init (fixed_block ps) max_out"
  have "pack_bits ((3, 3) # ps) < 2 ^ total_bits ((3, 3) # ps)" using assms by (intro pack_bits_less) simp
  also have "\<dots> \<le> 2 ^ (8 * ?k)" by (rule power_increasing) simp_all
  also have "\<dots> = 256 ^ ?k" by (simp add: power_mult)
  finally have v: "bytes_val (fixed_block ps) = 3 + 8 * pack_bits ps"
    unfolding fixed_block_def by (subst bytes_val_to_bytes) simp_all
  have l: "total_bits ps + 3 \<le> 8 * length (fixed_block ps)" by (simp add: fixed_block_def to_bytes_bytes total_bits_Cons)
  have "\<forall>c \<in> set (fixed_block ps). c < 256" by (auto simp: fixed_block_def dest: to_bytes_bytes(2))
  then have S: "stream_ok ?S" "stream_val ?S = 3 + 8 * pack_bits ps" "bits_left ?S = 8 * length (fixed_block ps)"
    using v by (simp_all add: stream_ok_def stream_val_def inflater_init_def offset_ok_def bits_left_def bytes_left_def)
  then obtain T where T: "block_header ?S = (Inr (True, 1), T)" "consumes 3 ?S T" "stream_val T = pack_bits ps"
    using block_header_stream l by (metis add_leD2)
  moreover have "bits_left T + 3 = bits_left ?S" "stream_ok T" "fl_out T = []" "fl_max_out T = max_out"
    using T(2) by (simp_all add: consumes_def same_frame_def inflater_init_def)
  ultimately show thesis using that [of T] S(3) l by simp
qed

lemma run_fixed_block:
  assumes "block_header (inflater_init inp max_out) = (Inr (True, 1), T)" "huffman_loop fixed_decoder None T = (r, U)"
  shows "inflate inp max_out = (fl_out U, case r of Inl e \<Rightarrow> e | Inr _ \<Rightarrow> Eof)"
proof -
  have "\<not> full (inflater_init inp max_out)" by (simp add: full_def inflater_init_def)
  with assms show ?thesis
    by (cases r) (simp_all add: inflate_def run.simps run_step_def decode_block_def huffman_block_def)
qed

text \<open>
  C31. Data survives the fixed Huffman code: the deflate stream that codes each byte as a literal of the
  fixed code inflates to exactly these bytes, and the decoder reports the end of the stream.
\<close>

theorem inflate_fixed_literals:
  assumes "\<forall>x \<in> set xs. x < 256" "length xs \<le> max_out"
  shows "inflate (fixed_stream xs) max_out = (xs, Eof)"
proof -
  have "\<forall>(n, v) \<in> set (literal_bits xs). v < 2 ^ n" by (auto simp: literal_bits_def dest!: code_bits_less)
  then obtain T where T: "block_header (inflater_init (fixed_stream xs) max_out) = (Inr (True, 1), T)" "stream_ok T"
      "stream_val T = pack_bits (literal_bits xs)" "total_bits (literal_bits xs) \<le> bits_left T" "fl_out T = []" "fl_max_out T = max_out"
    unfolding fixed_stream_def by (rule fixed_block_start)
  with huffman_loop_literals [OF T(2-4) assms(1)] assms(2) obtain U where
    "huffman_loop fixed_decoder None T = (Inr (), U)" "fl_out U = xs" by auto
  with run_fixed_block [OF T(1)] show ?thesis by simp
qed

theorem inflate_fixed_literals_witness: "inflate (fixed_stream [104, 200]) 2 = ([104, 200], Eof)"
  using inflate_fixed_literals [of "[104, 200]" 2] by simp

text \<open>A block that sends one byte and repeats it 258 times.\<close>

definition run_bits :: "nat \<Rightarrow> (nat \<times> nat) list" where
  "run_bits x = [code_bits x, code_bits 285, (5, 0), code_bits 256]"

lemma read_match_run:
  assumes "stream_ok S" "stream_val S = pack_bits ((5, 0) # ps)" "5 \<le> bits_left S" "length (fl_out S) = 1"
  shows "\<exists>T. read_match None 285 S = (Inr (1, 258), T) \<and> same_frame S T"
proof -
  obtain T where T: "need 5 S = (Inr (), T)" "consumes 0 S T" "5 \<le> fl_nb T"
    using need_stream [OF assms(1), of 5] assms(3) by auto
  have sT: "stream_ok T" "stream_val T = stream_val S" "same_frame S T" using T(2) by (simp_all add: consumes_def)
  have "low_bits 5 T = 0" using stream_low [OF sT(1) T(3)] sT(2) assms(2) by (simp add: low_bits_mod)
  then have "read_dist_code None S = (Inr 0, drop_bits 5 T)"
    using T(1) by (simp add: read_dist_code_def reverse_bits_numeral)
  moreover have "same_frame S (drop_bits 5 T)" using sT(3) by (simp add: same_frame_def drop_bits_def)
  ultimately show ?thesis
    using assms(4) by (simp add: read_match_def read_length_def match_length_def read_dist_extra_def HISTORY_def same_frame_def)
qed

text \<open>
  The bound on the output is attained: with a cap of one byte, a stream that sends a byte and repeats
  it 258 times leaves 259 bytes of output, far beyond the cap plus one that is documented.
\<close>

theorem inflate_cap_overshoot:
  assumes "x < 256"
  shows "inflate (fixed_block (run_bits x)) 1 = (replicate 259 x, Capped)"
proof -
  have "\<forall>(n, v) \<in> set (run_bits x). v < 2 ^ n" by (auto simp: run_bits_def dest!: code_bits_less)
  then obtain T where T: "block_header (inflater_init (fixed_block (run_bits x)) 1) = (Inr (True, 1), T)" "stream_ok T"
      "stream_val T = pack_bits (run_bits x)" "total_bits (run_bits x) \<le> bits_left T" "fl_out T = []" "fl_max_out T = 1"
    by (rule fixed_block_start)
  have len: "fst (code_bits 285) = 8" "8 \<le> fst (code_bits x)" "fst (code_bits x) \<le> 9"
    using assms by (auto simp: code_bits_def fixed_code_def)
  have left: "fst (code_bits x) + 20 \<le> bits_left T"
    using T(4) len code_bits_length(2) by (simp add: run_bits_def total_bits_def)
  obtain U where U: "huff_sym fixed_decoder T = (Inr x, U)" "consumes (fst (code_bits x)) T U"
      "stream_val U = pack_bits [code_bits 285, (5, 0), code_bits 256]"
    using huff_sym_fixed [of x T "[code_bits 285, (5, 0), code_bits 256]"] T(2,3) left assms by (auto simp: run_bits_def)
  let ?U = "U\<lparr>fl_out := [x]\<rparr>"
  have u: "stream_ok ?U" "20 \<le> bits_left ?U" "fl_max_out ?U = 1"
    using U(2) left T(6) by (simp_all add: consumes_def same_frame_def)
  obtain V where V: "huff_sym fixed_decoder ?U = (Inr 285, V)" "consumes 8 ?U V" "stream_val V = pack_bits [(5, 0), code_bits 256]"
    using huff_sym_fixed [of 285 ?U "[(5, 0), code_bits 256]"] u U(3) len(1) by auto
  then obtain W where W: "read_match None 285 V = (Inr (1, 258), W)" "same_frame V W"
    using read_match_run [of V "[code_bits 256]"] u(2) by (auto simp: consumes_def same_frame_def)
  have out: "fl_out W = [x]" "fl_max_out W = 1" using W(2) V(2) u(3) by (simp_all add: consumes_def same_frame_def)
  let ?W = "W\<lparr>fl_out := replicate 259 x\<rparr>"
  have "copy_match 1 258 [x] = replicate 259 x" by (simp add: copy_match_def numeral_eq_Suc)
  then have "block_step fixed_decoder None ?U = (Inr True, ?W)" using V(1) W(1) out u(3) by (simp add: block_step_def full_def)
  moreover have "block_step fixed_decoder None T = (Inr True, ?U)"
    using U(1,2) T(5,6) assms by (simp add: block_step_def full_def consumes_def same_frame_def)
  moreover have "block_step fixed_decoder None ?W = (Inl Capped, ?W)" using out by (simp add: block_step_def full_def)
  ultimately have "huffman_loop fixed_decoder None T = (Inl Capped, ?W)" by (simp add: huffman_loop.simps)
  with run_fixed_block [OF T(1)] show ?thesis by simp
qed

theorem inflate_cap_overshoot_witness: "inflate (fixed_block (run_bits 65)) 1 = (replicate 259 65, Capped)"
  using inflate_cap_overshoot [of 65] by simp

end
