(* ===== verification/Spec2Isabelle.thy ===== *)
theory Spec2Isabelle
  imports Secret_Ref Policy Rate_Limiter Session Token_Registry Read_Admission Password Totp Approval
    Audit_Files Sync_Merge Agent_Limits Anomaly OAuth Inflate_Roundtrip
begin

text \<open>
  Symaira Vault: a password vault for people and for software agents. This development models the
  parts of the Rust crates under \<^verbatim>\<open>src/crates\<close> that decide who may see or change what, and proves them
  correct. File and function names below are relative to that directory.

  \<^bold>\<open>The program.\<close> A command line (\<^verbatim>\<open>symvault-cli\<close>) and an MCP server (\<^verbatim>\<open>symvault-mcp\<close>) serve entries of an
  encrypted store (\<^verbatim>\<open>symvault-store\<close>, \<^verbatim>\<open>symvault-crypto\<close>). A client obtains a token from the OAuth endpoints
  or the token registry; the policy engine decides its request; a rate limiter and quotas bound its
  traffic; an anomaly detector watches it; a request that needs consent waits in the approval queue until
  the local command line or an enrolled device decides it; the audit log records it. A person unlocks
  the vault once per session, which is cached in a keyring. \<^verbatim>\<open>symvault-sync\<close> reconciles copies of the vault
  and keeps devices and their sessions.

  \<^bold>\<open>Theories and sources.\<close>
  \<^item> \<open>Prelude\<close>: strings as lists of code points with their UTF-8 bytes, decimal numbers, bounded integers,
    results as sums, and the interfaces \<open>text_codec\<close> (a printer with its parser) and \<open>guarded_machine\<close> (an
    invariant of a step relation). \<open>Byte_Text\<close>: hexadecimal, comparison without early exit, the UTF-8 round
    trip. \<open>Ordered_Map\<close>: \<^verbatim>\<open>BTreeMap\<close> as a sorted association list, with the interface \<open>map_laws\<close>. \<open>Json_Value\<close>:
    \<^verbatim>\<open>serde_json::Value\<close>. \<open>Framing\<close>: codecs for the witnesses. \<open>Store_Error\<close>: \<^verbatim>\<open>StoreError\<close>.
  \<^item> \<open>Secret_Ref\<close>: \<^verbatim>\<open>symvault-core/src/secret_ref.rs\<close>, secret references and their rendering (C40).
  \<^item> \<open>Glob\<close>, \<open>Policy\<close>: \<^verbatim>\<open>symvault-core/src/policy.rs\<close>. The glob matcher equals a declarative reference
    (C11) and the budgeted matcher equals the memoised one (C12); the engine evaluates rules by
    precedence with a default (C5), confines recursive patterns (C13) and refuses malformed rules.
  \<^item> \<open>Rate_Limiter\<close>: \<^verbatim>\<open>symvault-mcp/src/ratelimit.rs\<close>. The map stays bounded (C14), a window serves exactly its
    quota (C9), eviction is minimal, and the client key cannot be forged.
  \<^item> \<open>Timestamps\<close>, \<open>Session\<close>: \<^verbatim>\<open>symvault-core/src/session.rs\<close>. Timestamps round-trip; the cached session
    round-trips (C15), is wiped when it expires (C16), never outlives its maximum lifetime
    (C4), and plaintext sessions are migrated. The client lemmas are proved in the locales
    \<open>lawful_keyring\<close> and \<open>available_keyring\<close> and interpreted on the in-memory and the unsupported-platform
    keyring.
  \<^item> \<open>Go_Time\<close>: the timestamps of \<^verbatim>\<open>symvault-store/src/go_registry.rs\<close> and their round trip.
  \<^item> \<open>Token_Registry\<close>: \<^verbatim>\<open>symvault-store/src/token_registry.rs\<close>. Which bearer is accepted (C3), creation,
    refresh rotation (C8), rotation, revocation, PKCE, a panic on a foreign key, and the invariant of
    the file (C17).
  \<^item> \<open>Read_Admission\<close>: \<^verbatim>\<open>symvault-store/src/read_admission.rs\<close>. Bounds and progress of the reader
    reservations under every interleaving, and the byte budgets (C18 to C20).
  \<^item> \<open>Password\<close>: \<^verbatim>\<open>symvault-core/src/password.rs\<close>. Generation returns (C37) and is unbiased.
  \<^item> \<open>Base32\<close>, \<open>Totp\<close>: \<^verbatim>\<open>symvault-core/src/totp.rs\<close>. The decoder inverts RFC 4648 (C38); codes are well
    formed and constant over their period (C39).
  \<^item> \<open>Pairing\<close>, \<open>Device_Sessions\<close>: \<^verbatim>\<open>symvault-sync/src/pairing.rs\<close> (timestamps, JSON strings, tokens) and
    \<^verbatim>\<open>symvault-sync/src/device_sessions.rs\<close>. A revoked token stays refused (C21); an enrolment undoes a
    revocation that another process wrote (C22, a finding).
  \<^item> \<open>Approval\<close>: \<^verbatim>\<open>symvault-mcp/src/approval.rs\<close>. A request is decided once, while pending (C10). The last section
    of this theory adds that only an authorised caller decides it, across handlers, queue and sessions
    (C1).
  \<^item> \<open>Audit_Log\<close>, \<open>Audit_Files\<close>: \<^verbatim>\<open>symvault-store/src/audit.rs\<close>. The newest code commits to the whole log
    (C6); what the logger writes, across rotations, the export verifies (C26); a key rotation never
    loses the old key (C27); and what rotation, retention and malformed codes do to verification
    (C28 and \<open>verify_panics_iff\<close>, findings).
  \<^item> \<open>Sync_Merge\<close>: \<^verbatim>\<open>symvault-sync/src/reconcile.rs\<close>, \<^verbatim>\<open>winner.rs\<close>. Reconciliation keeps changes
    (C33), and the choice between versions converges (C34).
  \<^item> \<open>Huffman_Table\<close>, \<open>Inflate\<close>, \<open>Inflate_Roundtrip\<close>: \<^verbatim>\<open>symvault-sync/src/goflate.rs\<close>, the deflate decoder of the
    importers. The two-level tables decode the canonical code of RFC 1951 (C32); no input makes the decoder
    index out of range (C29) or keep more than 258 bytes beyond its cap (C30), a bound that is attained
    (\<open>inflate_cap_overshoot\<close>, a finding); encoded data comes back (C31, \<open>inflate_stored\<close>), and the three ways of
    copying agree (\<open>copy_match_periodic\<close>).
  \<^item> \<open>Agent_Limits\<close>: \<^verbatim>\<open>symvault-core/src/quota.rs\<close>, \<^verbatim>\<open>persistent_quota.rs\<close>, \<^verbatim>\<open>tier.rs\<close>. Daily limits hold
    (C35), no increment of a persistent counter is lost, and the tiers grant what they name.
  \<^item> \<open>Anomaly\<close>: \<^verbatim>\<open>symvault-mcp/src/anomaly.rs\<close>, the window and the five rules (C36).
  \<^item> \<open>Url_Text\<close>, \<open>Http_Guard\<close>, \<open>OAuth\<close>: \<^verbatim>\<open>symvault-mcp/src/oauth.rs\<close> and the request guards of \<^verbatim>\<open>http.rs\<close>. Forms
    round-trip, a redirect carries its code (C24) and stays on this machine; foreign origins are refused
    (C25); codes need consent (C2), are used once (C7), and no interleaving of requests makes an
    exchange panic (C23).

  \<^bold>\<open>How code becomes definitions.\<close> A struct is a record and an enum a datatype with the constructors of the
  source. A function that fails returns a sum, the error on the left. A method that mutates its receiver
  takes the state and returns it. Code holding a mutex is one function, and the threads of a process are
  a step relation (\<open>adm_step\<close>, \<open>approval_step\<close>, \<open>oauth_step\<close>) whose steps are these functions; a condition
  variable separates steps, and a poisoned mutex is a flag of the state. Every reading of the clock and
  every draw of random bytes is an argument. Machine integers are words (\<open>u8\<close> in \<open>Base32\<close> and \<open>Totp\<close>, the
  comparison \<open>byte_difference\<close>) or numbers with the wrap or the check written out (\<open>usize_dec\<close>, \<open>i64_wrap\<close>,
  \<open>u64_checked_add\<close>, \<open>i128_checked\<close>). A failing \<^verbatim>\<open>expect\<close>, an overflowing date or an index out of range is an
  outcome of its own (\<open>Panicked\<close>, \<open>TotpPanic\<close>, \<open>DevPanicked\<close>, \<open>ApprovalPanic\<close>, \<open>Panics\<close>,
  \<open>FlatePanic\<close>).

  \<^bold>\<open>Loops.\<close> Recursion is structural or has a measure (\<open>b32_group\<close> by the columns left, \<open>b32_loop\<close> by the
  input, the loops of \<open>Inflate\<close> by the bits that are left). The sampling loop of \<open>Password\<close> has no bound in the source and is a partial function into
  \<open>option\<close>; C37 proves that it returns for every source that keeps settling. The waiting loops
  (\<open>acquire_loop\<close>, \<open>wait_loop\<close>) recurse over the list of their wake-ups; a list that reaches the deadline is
  long enough (C19, \<open>wait_loop_returns\<close>).

  \<^bold>\<open>Parameters.\<close> Code outside the repository is a record of functions: the calendar of the \<^verbatim>\<open>time\<close> crate
  (\<open>time_lib\<close> with the laws \<open>time_ok\<close>), AES-GCM and JSON in \<open>session_libs\<close>, the JSON codec and SHA-256 in
  \<open>registry_codec\<close>, HMAC in \<open>totp_libs\<close>, \<open>approval_libs\<close> and \<open>audit_libs\<close>, IEEE doubles in \<open>float_ops\<close>, Unicode
  tables in \<open>Password\<close>. File access (\<open>registry_fs\<close>, \<open>device_io\<close>, the failure sites of \<open>Audit_Files\<close> and
  \<open>Agent_Limits\<close>), the closures and the catalogue digest of \<open>oauth_env\<close> and the JSON printers of
  \<^verbatim>\<open>symvault-gojson\<close> are parameters too. Each property with a hypothesis on a parameter has a witness with a
  concrete instance.

  \<^bold>\<open>Not modelled.\<close> The command line, the HTTP transport, the terminal and clipboard, git, the archive and
  import formats other than deflate, the operating-system bindings and the C interface are input and output around the
  modelled calls. Encryption is a call of third-party crates. Zeroisation of memory has no counterpart
  in the model. The store's file layout, the YAML configuration and the egress broker remain to be done.
\<close>

section \<open>Who may decide an approval request\<close>

text \<open>
  C1. Only an authorised caller decides a request, across the HTTP handlers, the queue and the device
  sessions. If a call of the device interface turns a pending request into an approved or denied one,
  its authorization header carries the token of a session that is in memory, not revoked there nor in
  the session file, and not past its expiry, and the decision is signed with that session's device. If
  a call of the local interface does, the connection came from the loopback address, the proof of
  possession verified, and the decision is signed by the local command line.
\<close>

theorem approvals_authorised:
  assumes "bt_inv (aq_entries q)"
  shows "(newly_decided q (fst (snd (handle_device_request A L io t0 t1 t2 method path auth q (st, f)))) i e \<longrightarrow>
      (\<exists>token s x. auth = lit ''Bearer '' @ token \<and> map_of (st_sessions st) (hash_token L token) = Some s \<and>
         \<not> dv_revoked s \<and> \<not> (st_path st \<and> hash_token L token \<in> set (disk_revoked L io f)) \<and>
         dl_parse L (dv_expires_at s) = Inr x \<and> tl_unix_nanos (dl_time L) t0 \<le> tl_unix_nanos (dl_time L) x \<and>
         ae_decided_by e = Some (dv_device_id s))) \<and>
    (newly_decided q (snd (handle_local_request A t0 t1 t2 secret loopback method path ts prf q)) i e \<longrightarrow>
      loopback \<and> verify_proof A t0 secret ts prf \<and> ae_decided_by e = Some (lit ''local-cli''))"
proof (intro conjI impI)
  assume "newly_decided q (fst (snd (handle_device_request A L io t0 t1 t2 method path auth q (st, f)))) i e"
  from handle_device_newly [OF assms this] obtain token d where
    a: "auth = lit ''Bearer '' @ token" and v: "fst (dev_validate L io t0 token (st, f)) = Inr (Some d)"
    and d: "ae_decided_by e = Some d" by blast
  from v a d show "\<exists>token s x. auth = lit ''Bearer '' @ token \<and> map_of (st_sessions st) (hash_token L token) = Some s \<and>
         \<not> dv_revoked s \<and> \<not> (st_path st \<and> hash_token L token \<in> set (disk_revoked L io f)) \<and>
         dl_parse L (dv_expires_at s) = Inr x \<and> tl_unix_nanos (dl_time L) t0 \<le> tl_unix_nanos (dl_time L) x \<and>
         ae_decided_by e = Some (dv_device_id s)"
    unfolding dev_validate_iff by blast
next
  assume n: "newly_decided q (snd (handle_local_request A t0 t1 t2 secret loopback method path ts prf q)) i e"
  from handle_local_newly [OF assms n] show "loopback" "verify_proof A t0 secret ts prf"
    "ae_decided_by e = Some (lit ''local-cli'')" by blast+
qed

text \<open>A device with a live session approves the request of the demonstration queue.\<close>

definition demo_auth :: ustring where "demo_auth = lit ''Bearer '' @ [97]"
definition demo_path :: ustring where "demo_path = lit ''/api/v1/approvals/1/approve''"

lemma demo_device: "device_from_authorization demo_device_libs demo_device_io epoch demo_auth (demo_device_store False, [2]) =
    (Some (lit ''d1''), demo_device_store False, [2])"
proof -
  have "disk_revoked demo_device_libs demo_device_io [2] = []"
    by (simp add: disk_revoked_def demo_device_io_def demo_device_libs_def demo_session_def new_session_def new_key_def)
  then have "dev_validate demo_device_libs demo_device_io epoch [97] (demo_device_store False, [2]) =
      (Inr (Some (lit ''d1'')), demo_device_store False, [2])"
    by (simp add: dev_validate_def merge_revocations_def mark_revoked_def demo_device_store_def demo_hash demo_session_def
        demo_parse epoch_nanos)
  then show ?thesis by (simp add: device_from_authorization_def demo_auth_def)
qed

theorem approvals_authorised_witness:
  "\<exists>e s. newly_decided demo_queue (fst (snd (handle_device_request demo_approval demo_device_libs demo_device_io epoch epoch epoch
       (lit ''POST'') demo_path demo_auth demo_queue (demo_device_store False, [2])))) [49] e \<and>
     map_of (st_sessions (demo_device_store False)) [54, 49] = Some s \<and> ae_decided_by e = Some (dv_device_id s)"
proof -
  let ?e = "demo_entry\<lparr>ae_status := st_approved, ae_decided_at := stamp_of epoch, ae_decided_by := Some (lit ''d1'')\<rparr>"
  let ?H = "handle_device_request demo_approval demo_device_libs demo_device_io epoch epoch epoch
       (lit ''POST'') demo_path demo_auth demo_queue (demo_device_store False, [2])"
  have "snd (decide demo_approval epoch epoch [49] st_approved (lit ''d1'') demo_queue) = demo_queue\<lparr>aq_entries := [([49], ?e)]\<rparr>"
    by (simp add: decide_def demo_queue_def expire_def expire_entry_def demo_entry_def new_entry_def demo_approval_def
        epoch_stamps epoch_nanos approval_timestamp_def)
  then have "snd (device_decision demo_approval epoch epoch (lit ''d1'') demo_path demo_queue) = demo_queue\<lparr>aq_entries := [([49], ?e)]\<rparr>"
    by (simp add: device_decision_def demo_path_def DEVICE_APPROVAL_ACTION_def strip_or_def strip_suffix_def snd_decision)
  then have "fst (snd ?H) = demo_queue\<lparr>aq_entries := [([49], ?e)]\<rparr>"
    by (simp add: handle_device_request_def demo_device strip_query_def demo_path_def DEVICE_APPROVAL_ACTION_def
        DEVICE_APPROVALS_def starts_with_def split_beta)
  then have n: "newly_decided demo_queue (fst (snd ?H)) [49] ?e"
    by (simp add: newly_decided_def demo_queue_def demo_entry_def new_entry_def)
  have "bt_inv (aq_entries demo_queue)" by (simp add: demo_queue_def bt_inv_def)
  from approvals_authorised [OF this, THEN conjunct1, THEN mp, OF n] obtain token s where
    a: "demo_auth = lit ''Bearer '' @ token" and
    s: "map_of (st_sessions (demo_device_store False)) (hash_token demo_device_libs token) = Some s" "ae_decided_by ?e = Some (dv_device_id s)"
    by blast
  have "token = [97]" using a by (simp add: demo_auth_def)
  with s n show ?thesis unfolding \<open>token = [97]\<close> demo_hash by blast
qed

end
